(* ===== verification/Prelude.thy ===== *)
theory Prelude
  imports Main "HOL-Library.Word" "HOL-Library.Monad_Syntax"
begin

text \<open>
  Shared vocabulary of the development: the machine types of the Rust sources, checked
  indexing (an out-of-range index panics in Rust, here it is \<^const>\<open>None\<close>), and the
  generic facts on lists, options and words that the component theories use.
\<close>

unbundle bit_operations_syntax

section \<open>Machine types\<close>

type_synonym u8 = "8 word"
type_synonym u16 = "16 word"
type_synonym u32 = "32 word"
type_synonym u64 = "64 word"

text \<open>
  An \<open>i64\<close> is an integer in range; \<open>i64_of\<close> reads a 64-bit pattern as two's complement
  and \<open>u64_of\<close> is the cast the other way.
\<close>

type_synonym i64 = int

definition I64_MIN :: i64 where "I64_MIN = - (2 ^ 63)"
definition I64_MAX :: i64 where "I64_MAX = 2 ^ 63 - 1"

definition i64_ok :: "i64 \<Rightarrow> bool" where
  "i64_ok x \<longleftrightarrow> I64_MIN \<le> x \<and> x \<le> I64_MAX"

definition i64_of :: "u64 \<Rightarrow> i64" where "i64_of w = sint w"
definition u64_of :: "i64 \<Rightarrow> u64" where "u64_of x = word_of_int x"

lemma i64_of_ok [simp]: "i64_ok (i64_of w)"
  using sint_range_size [of w]
  by (simp add: i64_ok_def i64_of_def I64_MIN_def I64_MAX_def word_size)

lemma u64_of_i64_of [simp]: "u64_of (i64_of w) = w"
  by (simp add: u64_of_def i64_of_def)

lemma i64_of_u64_of [simp]: "i64_ok x \<Longrightarrow> i64_of (u64_of x) = x"
  by (simp add: i64_ok_def i64_of_def u64_of_def I64_MIN_def I64_MAX_def
      signed_of_int signed_take_bit_int_eq_self)

text \<open>\<open>usize\<close> on the 64-bit targets the program builds for.\<close>

definition USIZE_MAX :: nat where "USIZE_MAX = 2 ^ 64 - 1"

definition checked_add :: "nat \<Rightarrow> nat \<Rightarrow> nat option" where
  "checked_add a b = (if a + b \<le> USIZE_MAX then Some (a + b) else None)"

section \<open>Collections of rewrite rules\<close>

named_theorems idx_simps \<open>rewrite rules of checked reads and writes\<close>

section \<open>Checked indexing\<close>

text \<open>
  \<open>xs[i]\<close> and \<open>xs[i] = v\<close> of a Rust \<open>Vec\<close>: both panic outside the vector.
\<close>

definition idx :: "'a list \<Rightarrow> nat \<Rightarrow> 'a option" where
  "idx xs i = (if i < length xs then Some (xs ! i) else None)"

definition upd :: "'a list \<Rightarrow> nat \<Rightarrow> 'a \<Rightarrow> 'a list option" where
  "upd xs i v = (if i < length xs then Some (xs[i := v]) else None)"

lemma idx_in [simp, idx_simps]: "i < length xs \<Longrightarrow> idx xs i = Some (xs ! i)"
  by (simp add: idx_def)

lemma upd_in [simp, idx_simps]: "i < length xs \<Longrightarrow> upd xs i v = Some (xs[i := v])"
  by (simp add: upd_def)

lemma idx_eq_Some_iff: "idx xs i = Some x \<longleftrightarrow> i < length xs \<and> xs ! i = x"
  by (auto simp: idx_def)

lemma idx_upd_append:
  "n = length a \<Longrightarrow> idx (a @ x # r) n = Some x"
  "n = length a \<Longrightarrow> upd (a @ x # r) n y = Some (a @ y # r)"
  by (simp_all add: idx_def upd_def)

text \<open>\<open>&xs[a..b]\<close>: panics unless \<open>a \<le> b \<le> len\<close>.\<close>

definition slice :: "'a list \<Rightarrow> nat \<Rightarrow> nat \<Rightarrow> 'a list option" where
  "slice xs a b = (if a \<le> b \<and> b \<le> length xs then Some (take (b - a) (drop a xs)) else None)"

lemma slice_in: "a \<le> b \<Longrightarrow> b \<le> length xs \<Longrightarrow> slice xs a b = Some (take (b - a) (drop a xs))"
  by (simp add: slice_def)

lemma slice_length: "slice xs a b = Some ys \<Longrightarrow> length ys = b - a"
  by (auto simp: slice_def split: if_splits)

section \<open>Bits\<close>

lemma bit_imp_le_unat: "bit (w :: 'a::len word) n \<Longrightarrow> 2 ^ n \<le> unat w"
proof -
  assume "bit w n"
  then have "bit (unat w) n" by (simp add: bit_unsigned_iff)
  then have "odd (unat w div 2 ^ n)" by (simp add: bit_iff_odd)
  then have "unat w div 2 ^ n \<noteq> 0" by (metis even_zero)
  then show ?thesis by (metis div_less not_le)
qed

text \<open>The bit positions of a word, one by one: what a proof by bits splits on.\<close>

lemma lt8_cases: "n < 8 \<Longrightarrow> n \<in> {0, 1, 2, 3, 4, 5, 6, 7 :: nat}"
  by (simp add: less_Suc_eq numeral_eq_Suc)

lemma lt16_cases: "n < 16 \<Longrightarrow> n \<in> {0, 1, 2, 3, 4, 5, 6, 7, 8, 9, 10, 11, 12, 13, 14, 15 :: nat}"
  by (simp add: less_Suc_eq numeral_eq_Suc)

lemma lt32_cases:
  "n < 32 \<Longrightarrow> n \<in> {0, 1, 2, 3, 4, 5, 6, 7, 8, 9, 10, 11, 12, 13, 14, 15,
     16, 17, 18, 19, 20, 21, 22, 23, 24, 25, 26, 27, 28, 29, 30, 31 :: nat}"
  by (simp add: less_Suc_eq numeral_eq_Suc)

lemmas bit_blast = bit_simps bit_numeral_rec word_less_nat_alt word_le_nat_alt

section \<open>Bit operations as arithmetic\<close>

lemma nat_or_add:
  fixes a b :: nat
  assumes "2 ^ k dvd a" "b < 2 ^ k"
  shows "a OR b = a + b"
proof -
  have "a + b = a OR b"
  proof (rule disjunctive_add_eq_or, rule bit_eqI)
    fix n
    have "\<not> bit b n" if "k \<le> n"
    proof -
      have "b < 2 ^ n" using assms(2) that 
        by (meson le_less_trans less_le_trans one_le_numeral power_increasing not_less)
      then show ?thesis by (simp add: bit_iff_odd)
    qed
    moreover have "\<not> bit a n" if "n < k"
      using assms(1) that by (metis bit_push_bit_iff_nat dvd_def not_le push_bit_eq_mult mult.commute)
    ultimately show "bit (a AND b) n = bit (0::nat) n"
      by (auto simp: bit_and_iff not_less) (meson not_le)
  qed
  then show ?thesis by simp
qed

lemma unat_or_add:
  fixes a b :: "'a::len word"
  assumes "2 ^ k dvd unat a" "unat b < 2 ^ k"
  shows "unat (a OR b) = unat a + unat b"
  using nat_or_add [OF assms] by (simp add: unsigned_or_eq)

lemma unat_and_mask:
  "unat (w AND 0x3FF) = unat w mod 1024"
  "unat (w AND 0x3F) = unat w mod 64"
  "unat (w AND 0x1F) = unat w mod 32"
  "unat (w AND 0x0F) = unat w mod 16"
  "unat (w AND 0x07) = unat w mod 8"
proof -
  have *: "unat (w AND mask n) = unat w mod 2 ^ n" for n
    by (simp only: unsigned_take_bit_eq flip: take_bit_eq_mask) (simp only: take_bit_eq_mod)
  show "unat (w AND 0x3FF) = unat w mod 1024" 
  "unat (w AND 0x3F) = unat w mod 64"
  "unat (w AND 0x1F) = unat w mod 32"
  "unat (w AND 0x0F) = unat w mod 16"
  "unat (w AND 0x07) = unat w mod 8"
    using *[of 10] *[of 6] *[of 5] *[of 4] *[of 3] by (simp_all add: mask_eq_exp_minus_1)
qed

lemma unat_drop: "unat (drop_bit n (w :: 'a::len word)) = unat w div 2 ^ n"
  by (simp only: unat_drop_bit_eq) (simp only: drop_bit_eq_div)

lemma unat_ucast_small:
  "unat w < 2 ^ LENGTH('b) \<Longrightarrow> unat (ucast (w :: 'a::len word) :: 'b::len word) = unat w"
  by (simp add: unsigned_ucast_eq take_bit_nat_eq_self)

lemma unat_push_or:
  fixes a b :: "'a::len word"
  assumes "unat a * 2 ^ k < 2 ^ LENGTH('a)" "unat b < 2 ^ k"
  shows "unat (push_bit k a OR b) = unat a * 2 ^ k + unat b"
proof -
  have "unat (push_bit k a) = unat a * 2 ^ k"
    using assms(1)
    by (simp only: unsigned_push_bit_eq) (simp add: push_bit_eq_mult take_bit_nat_eq_self)
  then show ?thesis using unat_or_add [of k "push_bit k a" b] assms(2) by simp
qed

section \<open>\<open>usize::next_power_of_two\<close>\<close>

text \<open>The least power of two not below the number; 1 for 0.\<close>

function next_power_of_two_from :: "nat \<Rightarrow> nat \<Rightarrow> nat" where
  "next_power_of_two_from k n = (if n \<le> 2 ^ k then 2 ^ k else next_power_of_two_from (Suc k) n)"
  by pat_completeness auto
termination
  by (relation "measure (\<lambda>(k, n). n - 2 ^ k)") (simp_all add: diff_less_mono2)

declare next_power_of_two_from.simps [simp del]

definition next_power_of_two :: "nat \<Rightarrow> nat" where
  "next_power_of_two n = next_power_of_two_from 0 n"

lemma next_power_of_two_from_ge: "n \<le> next_power_of_two_from k n"
  by (induction k n rule: next_power_of_two_from.induct) (subst next_power_of_two_from.simps, simp)

end
