(* ===== verification/Types.thy ===== *)
theory Types
  imports Prelude
begin

text \<open>
  \<open>goz-core/src/types.rs\<close>: the identifiers that cross module boundaries. A file reference
  number packs a 48-bit record number and a 16-bit sequence number into 64 bits; entry
  indices are 32-bit with the all-ones sentinel \<open>NIL\<close>.
\<close>

type_synonym rstring = "u8 list"
type_synonym frn = u64

definition record_number :: "frn \<Rightarrow> u64" where
  "record_number f = (f AND 0x0000FFFFFFFFFFFF)"

definition frn_sequence :: "frn \<Rightarrow> u16" where
  "frn_sequence f = ucast (drop_bit 48 f)"

definition MAX_NAME_UTF16_BYTES :: nat where "MAX_NAME_UTF16_BYTES = 510"

text \<open>
  An \<open>EntryIdx\<close> or name id is a \<open>u32\<close> used as an index; it is a natural number here, and a
  cast of a length writes the wrap-around out (\<open>as_u32\<close>).
\<close>

type_synonym entry_idx = nat
type_synonym name_id = nat

definition NIL :: entry_idx where "NIL = 4294967295"

definition as_u32 :: "nat \<Rightarrow> nat" where "as_u32 n = n mod 2 ^ 32"

datatype sort_key = SortName | SortPath | SortSize | SortDateModified
datatype sort_dir = Asc | Desc

record sort_spec =
  sort_key :: sort_key
  sort_dir :: sort_dir

definition default_for :: "sort_key \<Rightarrow> sort_spec" where
  "default_for k =
    \<lparr>sort_key = k,
     sort_dir = (case k of SortName \<Rightarrow> Asc | SortPath \<Rightarrow> Asc | SortSize \<Rightarrow> Desc | SortDateModified \<Rightarrow> Desc)\<rparr>"

definition sort_spec_default :: sort_spec where
  "sort_spec_default = default_for SortName"

datatype es_column = ColSize | ColDateModified

datatype volume_phase =
    Bootstrapping
  | Live
  | Rescanning
  | Snapshot
  | Offline
  | Failed rstring

definition is_complete :: "volume_phase \<Rightarrow> bool" where
  "is_complete p \<longleftrightarrow> (case p of Live \<Rightarrow> True | Snapshot \<Rightarrow> True | _ \<Rightarrow> False)"

section \<open>Record and sequence numbers determine the reference\<close>

lemma unat_record_number: "unat (record_number f) = unat f mod 2 ^ 48"
proof -
  have "record_number f = take_bit 48 f"
    by (simp add: record_number_def take_bit_eq_mask mask_eq_exp_minus_1)
  then show ?thesis
    by (simp only: unsigned_take_bit_eq) (simp add: take_bit_eq_mod)
qed

lemma record_number_less [simp]: "unat (record_number f) < 2 ^ 48"
  by (simp add: unat_record_number)

lemma unat_frn_sequence: "unat (frn_sequence f) = unat f div 2 ^ 48"
proof -
  have "unat f div 2 ^ 48 < 2 ^ 16"
    using unsigned_less [of f, where 'a = nat] by (simp add: less_mult_imp_div_less)
  then show ?thesis
    unfolding frn_sequence_def by (subst unat_ucast_small) (simp_all add: unat_drop)
qed

lemma frn_eq_iff: "f = g \<longleftrightarrow> record_number f = record_number g \<and> frn_sequence f = frn_sequence g"
proof
  assume "record_number f = record_number g \<and> frn_sequence f = frn_sequence g"
  then have "unat f mod 2 ^ 48 = unat g mod 2 ^ 48" "unat f div 2 ^ 48 = unat g div 2 ^ 48"
    by (metis unat_record_number, metis unat_frn_sequence)
  then have "unat f = unat g" by (metis div_mult_mod_eq)
  then show "f = g" by (rule word_unat_eq_iff [THEN iffD2])
qed simp

end
