(* ===== verification/Bytes.thy ===== *)
theory Bytes
  imports Prelude
begin

text \<open>
  Little-endian encodings of machine integers (\<open>to_le_bytes\<close> and \<open>from_le_bytes\<close> of the
  standard library), the interface of a fixed-width codec, and the error-or-value results the
  parsers return.
\<close>

section \<open>Results with an error\<close>

text \<open>\<open>Result<T, E>\<close> is \<open>'e + 'a\<close>; \<open>?\<close> is \<open>try_then\<close>.\<close>

definition try_then :: "'e + 'a \<Rightarrow> ('a \<Rightarrow> 'e + 'b) \<Rightarrow> 'e + 'b" where
  "try_then r f = (case r of Inl e \<Rightarrow> Inl e | Inr x \<Rightarrow> f x)"

lemma try_then_simps [simp]:
  "try_then (Inl e) f = Inl e"
  "try_then (Inr x) f = f x"
  by (simp_all add: try_then_def)

lemma try_then_Inr_iff: "try_then r f = Inr y \<longleftrightarrow> (\<exists>x. r = Inr x \<and> f x = Inr y)"
  by (cases r) simp_all

section \<open>Little-endian numbers\<close>

primrec le_bytes :: "nat \<Rightarrow> nat \<Rightarrow> u8 list" where
  "le_bytes 0 x = []"
| "le_bytes (Suc n) x = word_of_nat x # le_bytes n (x div 256)"

primrec le_val :: "u8 list \<Rightarrow> nat" where
  "le_val [] = 0"
| "le_val (b # bs) = unat b + 256 * le_val bs"

definition u16_to_le :: "u16 \<Rightarrow> u8 list" where "u16_to_le w = le_bytes 2 (unat w)"
definition u32_to_le :: "u32 \<Rightarrow> u8 list" where "u32_to_le w = le_bytes 4 (unat w)"
definition u64_to_le :: "u64 \<Rightarrow> u8 list" where "u64_to_le w = le_bytes 8 (unat w)"
definition i64_to_le :: "i64 \<Rightarrow> u8 list" where "i64_to_le x = u64_to_le (u64_of x)"

definition u16_from_le :: "u8 list \<Rightarrow> u16" where "u16_from_le bs = word_of_nat (le_val bs)"
definition u32_from_le :: "u8 list \<Rightarrow> u32" where "u32_from_le bs = word_of_nat (le_val bs)"
definition u64_from_le :: "u8 list \<Rightarrow> u64" where "u64_from_le bs = word_of_nat (le_val bs)"
definition i64_from_le :: "u8 list \<Rightarrow> i64" where "i64_from_le bs = i64_of (u64_from_le bs)"

lemma length_le_bytes [simp]: "length (le_bytes n x) = n"
  by (induction n arbitrary: x) simp_all

lemma le_bytes_numeral:
  "le_bytes (numeral k) x = word_of_nat x # le_bytes (pred_numeral k) (x div 256)"
  by (subst numeral_eq_Suc) (simp only: le_bytes.simps)

lemma unat_byte_of_nat [simp]: "unat (word_of_nat x :: u8) = x mod 256"
  by (simp add: unat_of_nat)

lemma le_val_bytes: "x < 256 ^ n \<Longrightarrow> le_val (le_bytes n x) = x"
proof (induction n arbitrary: x)
  case (Suc n)
  then have "x div 256 < 256 ^ n" by (simp add: less_mult_imp_div_less mult.commute)
  with Suc.IH show ?case by simp
qed simp

lemma le_val_less: "le_val bs < 256 ^ length bs"
proof (induction bs)
  case (Cons b bs)
  have "unat b < 256" using unsigned_less [of b, where 'a = nat] by simp
  with Cons show ?case by simp
qed simp

lemma le_bytes_val: "le_bytes (length bs) (le_val bs) = bs"
proof (induction bs)
  case (Cons b bs)
  have "unat b < 256" using unsigned_less [of b, where 'a = nat] by simp
  then have "unat (word_of_nat (unat b + 256 * le_val bs) :: u8) = unat b"
    by (simp only: unat_byte_of_nat) simp
  then have "word_of_nat (unat b + 256 * le_val bs) = b" by (simp only: word_unat_eq_iff)
  moreover have "(unat b + 256 * le_val bs) div 256 = le_val bs"
    using \<open>unat b < 256\<close> by simp
  ultimately show ?case using Cons by (simp del: of_nat_add of_nat_mult)
qed simp

section \<open>The interface of a fixed-width codec\<close>

text \<open>
  A codec of a fixed number of bytes. The readers and parsers rely on these laws only: the
  field they read at an offset is the field that was written there.
\<close>

locale fixed_codec =
  fixes width :: nat
    and enc :: "'a \<Rightarrow> u8 list"
    and dec :: "u8 list \<Rightarrow> 'a"
    and ok :: "'a \<Rightarrow> bool"
  assumes enc_length: "length (enc x) = width"
    and dec_enc: "ok x \<Longrightarrow> dec (enc x) = x"
    and enc_dec: "length bs = width \<Longrightarrow> enc (dec bs) = bs"
begin

lemma read_back:
  "ok x \<Longrightarrow> dec (take width (drop (length pre) (pre @ enc x @ rest))) = x"
  by (simp add: enc_length dec_enc)

lemma enc_inject: "ok x \<Longrightarrow> ok y \<Longrightarrow> enc x = enc y \<Longrightarrow> x = y"
  by (metis dec_enc)

end

interpretation u16_le: fixed_codec 2 u16_to_le u16_from_le "\<lambda>_. True"
proof unfold_locales
  show "u16_from_le (u16_to_le x) = x" for x
    using unsigned_less [of x, where 'a = nat]
    by (simp add: u16_from_le_def u16_to_le_def le_val_bytes)
  show "u16_to_le (u16_from_le bs) = bs" if "length bs = 2" for bs
    using that le_val_less [of bs] le_bytes_val [of bs]
    by (simp add: u16_from_le_def u16_to_le_def unat_of_nat)
qed (simp add: u16_to_le_def)

interpretation u32_le: fixed_codec 4 u32_to_le u32_from_le "\<lambda>_. True"
proof unfold_locales
  show "u32_from_le (u32_to_le x) = x" for x
    using unsigned_less [of x, where 'a = nat]
    by (simp add: u32_from_le_def u32_to_le_def le_val_bytes)
  show "u32_to_le (u32_from_le bs) = bs" if "length bs = 4" for bs
    using that le_val_less [of bs] le_bytes_val [of bs]
    by (simp add: u32_from_le_def u32_to_le_def unat_of_nat)
qed (simp add: u32_to_le_def)

interpretation u64_le: fixed_codec 8 u64_to_le u64_from_le "\<lambda>_. True"
proof unfold_locales
  show "u64_from_le (u64_to_le x) = x" for x
    using unsigned_less [of x, where 'a = nat]
    by (simp add: u64_from_le_def u64_to_le_def le_val_bytes)
  show "u64_to_le (u64_from_le bs) = bs" if "length bs = 8" for bs
    using that le_val_less [of bs] le_bytes_val [of bs]
    by (simp add: u64_from_le_def u64_to_le_def unat_of_nat)
qed (simp add: u64_to_le_def)

interpretation i64_le: fixed_codec 8 i64_to_le i64_from_le i64_ok
proof unfold_locales
  show "i64_from_le (i64_to_le x) = x" if "i64_ok x" for x
    using that by (simp add: i64_from_le_def i64_to_le_def u64_le.dec_enc)
  show "i64_to_le (i64_from_le bs) = bs" if "length bs = 8" for bs
    using that by (simp add: i64_from_le_def i64_to_le_def u64_le.enc_dec)
qed (simp add: i64_to_le_def u64_le.enc_length)

lemmas le_lengths [simp] =
  u16_le.enc_length u32_le.enc_length u64_le.enc_length i64_le.enc_length

lemmas le_round_trips [simp] =
  u16_le.dec_enc u32_le.dec_enc u64_le.dec_enc i64_le.dec_enc

end
