(* ===== verification/Frame.thy ===== *)
theory Frame
  imports Bytes
begin

text \<open>
  \<open>goz-core/src/proto/frame.rs\<close>: the length-prefixed frame encoder and the incremental
  decoder over an untrusted byte stream. A panic (a slice out of range, an oversize payload)
  is \<^const>\<open>None\<close>. The abstract view of a decoder is the list of bytes it has not consumed;
  the offset, the clearing and the compaction of the buffer are invisible in it.
\<close>

section \<open>Model\<close>

definition PREFIX_LEN :: nat where "PREFIX_LEN = 4"
definition COMPACT_THRESHOLD :: nat where "COMPACT_THRESHOLD = 64 * 1024"

datatype frame_error = TooLarge u32 u32

record frame_decoder =
  fd_buf :: "u8 list"
  fd_read :: nat
  fd_max_frame :: u32
  fd_poisoned :: "(u32 \<times> u32) option"

definition encode_frame :: "u8 list \<Rightarrow> u8 list \<Rightarrow> u8 list option" where
  "encode_frame payload out =
    (if length payload < 2 ^ 32
     then Some (out @ u32_to_le (word_of_nat (length payload)) @ payload)
     else None)"

definition decoder_new :: "u32 \<Rightarrow> frame_decoder" where
  "decoder_new max_frame =
     \<lparr>fd_buf = [], fd_read = 0, fd_max_frame = max_frame, fd_poisoned = None\<rparr>"

definition feed :: "u8 list \<Rightarrow> frame_decoder \<Rightarrow> frame_decoder" where
  "feed bytes d = d\<lparr>fd_buf := fd_buf d @ bytes\<rparr>"

definition decoder_is_empty :: "frame_decoder \<Rightarrow> bool" where
  "decoder_is_empty d \<longleftrightarrow> fd_read d = length (fd_buf d)"

text \<open>The end of \<open>next_frame\<close>: move the offset, then clear or compact the buffer.\<close>

definition consume :: "nat \<Rightarrow> frame_decoder \<Rightarrow> frame_decoder" where
  "consume taken d =
    (let r = fd_read d + taken in
     if r = length (fd_buf d) then d\<lparr>fd_buf := [], fd_read := 0\<rparr>
     else if COMPACT_THRESHOLD \<le> r then d\<lparr>fd_buf := drop r (fd_buf d), fd_read := 0\<rparr>
     else d\<lparr>fd_read := r\<rparr>)"

definition next_frame ::
  "frame_decoder \<Rightarrow> ((frame_error + u8 list option) \<times> frame_decoder) option" where
  "next_frame d =
    (case fd_poisoned d of
       Some (len, cap) \<Rightarrow> Some (Inl (TooLarge len cap), d)
     | None \<Rightarrow>
        (case slice (fd_buf d) (fd_read d) (length (fd_buf d)) of
           None \<Rightarrow> None
         | Some avail \<Rightarrow>
            if length avail < PREFIX_LEN then Some (Inr None, d)
            else
              let len = u32_from_le (take PREFIX_LEN avail) in
              if fd_max_frame d < len then
                Some (Inl (TooLarge len (fd_max_frame d)),
                      d\<lparr>fd_poisoned := Some (len, fd_max_frame d)\<rparr>)
              else
                let total = PREFIX_LEN + unat len in
                if length avail < total then Some (Inr None, d)
                else
                  (case slice avail PREFIX_LEN total of
                     None \<Rightarrow> None
                   | Some frame \<Rightarrow> Some (Inr (Some frame), consume total d))))"

section \<open>What the decoder keeps\<close>

text \<open>The bytes fed and not yet consumed.\<close>

definition pending :: "frame_decoder \<Rightarrow> u8 list" where
  "pending d = drop (fd_read d) (fd_buf d)"

definition decoder_ok :: "frame_decoder \<Rightarrow> bool" where
  "decoder_ok d \<longleftrightarrow>
     fd_read d \<le> length (fd_buf d) \<and> fd_read d < COMPACT_THRESHOLD \<and>
     (case fd_poisoned d of None \<Rightarrow> True | Some (len, cap) \<Rightarrow> cap = fd_max_frame d \<and> cap < len)"

text \<open>The decoder on the pending bytes alone.\<close>

definition pop_pending :: "u32 \<Rightarrow> u8 list \<Rightarrow> (frame_error + (u8 list \<times> u8 list) option)" where
  "pop_pending cap bs =
    (if length bs < 4 then Inr None
     else let len = u32_from_le (take 4 bs) in
       if cap < len then Inl (TooLarge len cap)
       else if length bs < 4 + unat len then Inr None
       else Inr (Some (take (unat len) (drop 4 bs), drop (4 + unat len) bs)))"

lemma decoder_new_ok [simp]: "decoder_ok (decoder_new cap)"
  by (simp add: decoder_ok_def decoder_new_def COMPACT_THRESHOLD_def)

lemma decoder_new_fields [simp]:
  "fd_max_frame (decoder_new cap) = cap" "fd_poisoned (decoder_new cap) = None"
  by (simp_all add: decoder_new_def)

lemma pending_new [simp]: "pending (decoder_new cap) = []"
  by (simp add: pending_def decoder_new_def)

lemma feed_ok [simp]: "decoder_ok d \<Longrightarrow> decoder_ok (feed bytes d)"
  by (auto simp: decoder_ok_def feed_def split: option.splits)

lemma pending_feed [simp]: "decoder_ok d \<Longrightarrow> pending (feed bytes d) = pending d @ bytes"
  by (simp add: decoder_ok_def pending_def feed_def)

lemma feed_fields [simp]:
  "fd_max_frame (feed bytes d) = fd_max_frame d"
  "fd_poisoned (feed bytes d) = fd_poisoned d"
  by (simp_all add: feed_def)

lemma consume_fields [simp]:
  "fd_max_frame (consume n d) = fd_max_frame d"
  "fd_poisoned (consume n d) = fd_poisoned d"
  by (simp_all add: consume_def Let_def)

lemma consume_ok:
  assumes "decoder_ok d" "n \<le> length (pending d)"
  shows "decoder_ok (consume n d)" "pending (consume n d) = drop n (pending d)"
  using assms
  by (auto simp: decoder_ok_def consume_def pending_def Let_def COMPACT_THRESHOLD_def add.commute
      split: option.splits)

lemma is_empty_iff: "decoder_ok d \<Longrightarrow> decoder_is_empty d \<longleftrightarrow> pending d = []"
  by (auto simp: decoder_ok_def decoder_is_empty_def pending_def)

lemma next_frame_cases:
  assumes "decoder_ok d" "fd_poisoned d = None"
  shows "next_frame d =
    (case pop_pending (fd_max_frame d) (pending d) of
       Inl e \<Rightarrow> Some (Inl e, d\<lparr>fd_poisoned := Some (u32_from_le (take 4 (pending d)), fd_max_frame d)\<rparr>)
     | Inr None \<Rightarrow> Some (Inr None, d)
     | Inr (Some (f, _)) \<Rightarrow> Some (Inr (Some f), consume (4 + length f) d))"
  using assms
  by (auto simp: next_frame_def pop_pending_def pending_def decoder_ok_def slice_def PREFIX_LEN_def
      Let_def min_def not_less intro!: arg_cong [where f = "\<lambda>n. consume n d"])

text \<open>
  The receiving loop: pop frames until the decoder asks for more bytes or reports an error.
  Each frame takes at least its prefix off the pending bytes, so the loop ends.
\<close>

lemma next_frame_Some_shrinks:
  assumes "next_frame d = Some (Inr (Some f), d')"
  shows "length (fd_buf d') - fd_read d' < length (fd_buf d) - fd_read d"
  using assms
  by (auto simp: next_frame_def consume_def slice_def PREFIX_LEN_def Let_def
      split: option.splits if_splits)

function pop_all :: "frame_decoder \<Rightarrow> (u8 list list \<times> frame_error option \<times> frame_decoder) option" where
  "pop_all d =
    (case next_frame d of
       None \<Rightarrow> None
     | Some (Inl e, d') \<Rightarrow> Some ([], Some e, d')
     | Some (Inr None, d') \<Rightarrow> Some ([], None, d')
     | Some (Inr (Some f), d') \<Rightarrow>
         (case pop_all d' of
            None \<Rightarrow> None
          | Some (fs, e, d'') \<Rightarrow> Some (f # fs, e, d'')))"
  by pat_completeness auto
termination
  by (relation "measure (\<lambda>d. length (fd_buf d) - fd_read d)") (auto dest: next_frame_Some_shrinks)

declare pop_all.simps [simp del]

text \<open>Feeding the chunks a transport delivers, popping after each.\<close>

fun receive :: "u8 list list \<Rightarrow> frame_decoder \<Rightarrow> (u8 list list \<times> frame_error option \<times> frame_decoder) option" where
  "receive [] d = pop_all d"
| "receive (c # cs) d =
    (case pop_all (feed c d) of
       None \<Rightarrow> None
     | Some (fs, Some e, d') \<Rightarrow> Some (fs, Some e, d')
     | Some (fs, None, d') \<Rightarrow>
         (case receive cs d' of
            None \<Rightarrow> None
          | Some (gs, e, d'') \<Rightarrow> Some (fs @ gs, e, d'')))"

text \<open>The frames of a byte sequence, the error that stops them and the bytes left over.\<close>

lemma pop_pending_shrinks:
  "pop_pending cap bs = Inr (Some (f, rest)) \<Longrightarrow> length rest < length bs"
  by (auto simp: pop_pending_def Let_def split: if_splits)

function frames_of :: "u32 \<Rightarrow> u8 list \<Rightarrow> u8 list list \<times> frame_error option \<times> u8 list" where
  "frames_of cap bs =
    (case pop_pending cap bs of
       Inl e \<Rightarrow> ([], Some e, bs)
     | Inr None \<Rightarrow> ([], None, bs)
     | Inr (Some (f, rest)) \<Rightarrow> (let (fs, e, left) = frames_of cap rest in (f # fs, e, left)))"
  by pat_completeness auto
termination
  by (relation "measure (\<lambda>(cap, bs). length bs)") (auto dest: pop_pending_shrinks)

declare frames_of.simps [simp del]

lemma frames_of_simps:
  "pop_pending cap bs = Inl e \<Longrightarrow> frames_of cap bs = ([], Some e, bs)"
  "pop_pending cap bs = Inr None \<Longrightarrow> frames_of cap bs = ([], None, bs)"
  "pop_pending cap bs = Inr (Some (f, rest)) \<Longrightarrow>
     frames_of cap bs = (f # fst (frames_of cap rest), snd (frames_of cap rest))"
  by (subst frames_of.simps; simp add: split_beta)+

lemma pop_pending_frame:
  "pop_pending cap bs = Inr (Some (f, rest)) \<Longrightarrow>
     rest = drop (4 + length f) bs \<and> 4 + length f \<le> length bs"
  by (auto simp: pop_pending_def Let_def split: if_splits)

lemma pop_all_refines:
  assumes "decoder_ok d" "fd_poisoned d = None"
  shows "\<exists>d'. pop_all d = Some (fst (frames_of (fd_max_frame d) (pending d)),
             fst (snd (frames_of (fd_max_frame d) (pending d))), d') \<and>
           decoder_ok d' \<and> pending d' = snd (snd (frames_of (fd_max_frame d) (pending d))) \<and>
           fd_max_frame d' = fd_max_frame d \<and>
           (fd_poisoned d' = None \<longleftrightarrow> fst (snd (frames_of (fd_max_frame d) (pending d))) = None)"
  using assms
proof (induction d rule: pop_all.induct)
  case (1 d)
  show ?case
  proof (cases "pop_pending (fd_max_frame d) (pending d)")
    case (Inl e)
    then have "fd_max_frame d < u32_from_le (take 4 (pending d))"
      by (auto simp: pop_pending_def Let_def split: if_splits)
    with Inl 1 show ?thesis
      by (subst pop_all.simps) (simp add: next_frame_cases frames_of_simps decoder_ok_def pending_def)
  next
    case (Inr r)
    show ?thesis
    proof (cases r)
      case None
      with Inr 1 show ?thesis
        by (subst pop_all.simps) (simp add: next_frame_cases frames_of_simps)
    next
      case (Some fr)
      then obtain f rest where r: "r = Some (f, rest)" by (cases fr) auto
      let ?d' = "consume (4 + length f) d"
      have rest: "rest = drop (4 + length f) (pending d)" "4 + length f \<le> length (pending d)"
        using Inr r pop_pending_frame by blast+
      have nf: "next_frame d = Some (Inr (Some f), ?d')"
        using 1 Inr r by (simp add: next_frame_cases)
      have ok: "decoder_ok ?d'" "pending ?d' = rest"
        using consume_ok [OF 1(2) rest(2)] rest(1) by simp_all
      with 1(1) [OF nf refl refl refl] 1(3) obtain d'' where
        "pop_all ?d' = Some (fst (frames_of (fd_max_frame d) rest),
             fst (snd (frames_of (fd_max_frame d) rest)), d'')"
        "decoder_ok d''" "pending d'' = snd (snd (frames_of (fd_max_frame d) rest))"
        "fd_max_frame d'' = fd_max_frame d"
        "fd_poisoned d'' = None \<longleftrightarrow> fst (snd (frames_of (fd_max_frame d) rest)) = None"
        by auto
      then show ?thesis
        using Inr r nf by (subst pop_all.simps) (simp add: frames_of_simps)
    qed
  qed
qed

section \<open>Chunks do not matter\<close>

lemma pop_pending_append:
  "pop_pending cap a = Inl e \<Longrightarrow> pop_pending cap (a @ b) = Inl e"
  "pop_pending cap a = Inr (Some (f, rest)) \<Longrightarrow> pop_pending cap (a @ b) = Inr (Some (f, rest @ b))"
  by (auto simp: pop_pending_def Let_def split: if_splits)

lemma frames_of_append:
  "frames_of cap (a @ b) =
    (case frames_of cap a of
       (fs, Some e, left) \<Rightarrow> (fs, Some e, left @ b)
     | (fs, None, left) \<Rightarrow> (fs @ fst (frames_of cap (left @ b)), snd (frames_of cap (left @ b))))"
proof (induction cap a rule: frames_of.induct)
  case (1 cap a)
  show ?case
  proof (cases "pop_pending cap a")
    case (Inr r)
    then show ?thesis
      using 1 by (cases r) (auto simp: frames_of_simps pop_pending_append split: prod.splits option.splits)
  qed (simp add: frames_of_simps pop_pending_append)
qed

lemma receive_refines:
  assumes "decoder_ok d" "fd_poisoned d = None"
  shows "\<exists>d'. receive cs d = Some (fst (frames_of (fd_max_frame d) (pending d @ concat cs)),
             fst (snd (frames_of (fd_max_frame d) (pending d @ concat cs))), d') \<and>
           decoder_ok d' \<and>
           (fst (snd (frames_of (fd_max_frame d) (pending d @ concat cs))) = None \<longrightarrow>
             pending d' = snd (snd (frames_of (fd_max_frame d) (pending d @ concat cs))))"
  using assms
proof (induction cs arbitrary: d)
  case Nil
  then show ?case using pop_all_refines [of d] by auto
next
  case (Cons c cs)
  let ?F = "frames_of (fd_max_frame d) (pending d @ c)"
  obtain d' where d': "pop_all (feed c d) = Some (fst ?F, fst (snd ?F), d')" "decoder_ok d'"
    "pending d' = snd (snd ?F)" "fd_max_frame d' = fd_max_frame d"
    "fd_poisoned d' = None \<longleftrightarrow> fst (snd ?F) = None"
    using pop_all_refines [of "feed c d"] Cons.prems by auto
  show ?case
  proof (cases "fst (snd ?F)")
    case None
    then show ?thesis
      using Cons.IH [of d'] d' frames_of_append [of "fd_max_frame d" "pending d @ c" "concat cs"]
      by (auto simp: split_beta)
  next
    case (Some e)
    then show ?thesis
      using d' frames_of_append [of "fd_max_frame d" "pending d @ c" "concat cs"]
      by (auto simp: split_beta)
  qed
qed

fun encode_frames :: "u8 list list \<Rightarrow> u8 list \<Rightarrow> u8 list option" where
  "encode_frames [] out = Some out"
| "encode_frames (p # ps) out = Option.bind (encode_frame p out) (encode_frames ps)"

lemma pop_pending_encoded:
  assumes "length p \<le> unat cap"
  shows "pop_pending cap (u32_to_le (word_of_nat (length p)) @ p @ rest) = Inr (Some (p, rest))"
proof -
  have "length p < 2 ^ 32"
    using assms unsigned_less [of cap, where 'a = nat] by simp
  then have "unat (word_of_nat (length p) :: u32) = length p"
    by (simp add: unat_of_nat)
  with assms show ?thesis
    by (simp add: pop_pending_def Let_def word_less_nat_alt)
qed

lemma frames_of_encoded:
  assumes "\<forall>p \<in> set ps. length p \<le> unat cap"
  shows "\<exists>bs. encode_frames ps out = Some (out @ bs) \<and> frames_of cap bs = (ps, None, [])"
  using assms
proof (induction ps arbitrary: out)
  case Nil
  then show ?case by (simp add: frames_of_simps pop_pending_def)
next
  case (Cons p ps)
  let ?e = "u32_to_le (word_of_nat (length p)) @ p"
  have "length p < 2 ^ 32"
    using Cons.prems unsigned_less [of cap, where 'a = nat] by simp
  then have "encode_frame p out = Some (out @ ?e)" by (simp add: encode_frame_def)
  moreover obtain bs where "encode_frames ps (out @ ?e) = Some ((out @ ?e) @ bs)"
    "frames_of cap bs = (ps, None, [])"
    using Cons by fastforce
  ultimately show ?case
    using pop_pending_encoded [of p cap bs] Cons.prems
    by (intro exI [of _ "?e @ bs"]) (simp add: frames_of_simps)
qed

lemma receive_encoded:
  assumes "\<forall>p \<in> set ps. length p \<le> unat cap"
    and "encode_frames ps [] = Some (concat cs)"
  shows "\<exists>d. receive cs (decoder_new cap) = Some (ps, None, d) \<and> decoder_is_empty d"
proof -
  have "frames_of cap (concat cs) = (ps, None, [])"
    using frames_of_encoded [OF assms(1), of "[]"] assms(2) by auto
  with receive_refines [of "decoder_new cap" cs] obtain d where
    d: "receive cs (decoder_new cap) = Some (ps, None, d)" "decoder_ok d"
      "pending d = []" by auto
  then show ?thesis by (simp add: is_empty_iff)
qed

section \<open>Properties\<close>

text \<open>
  C21. Each call of \<open>next_frame\<close> on a decoder in a state it can reach returns without
  panicking, does to the pending bytes exactly what the frame grammar says (an oversize prefix
  is rejected as soon as its four bytes are there, a frame is handed out once it is complete,
  otherwise nothing changes), and keeps the consumed prefix of the buffer below the compaction
  threshold.
\<close>

theorem next_frame_refines:
  assumes "decoder_ok d" "fd_poisoned d = None"
  shows "\<exists>r d'. next_frame d = Some (r, d') \<and> decoder_ok d' \<and>
    (case pop_pending (fd_max_frame d) (pending d) of
       Inl e \<Rightarrow> r = Inl e \<and> pending d' = pending d
     | Inr None \<Rightarrow> r = Inr None \<and> d' = d
     | Inr (Some (f, rest)) \<Rightarrow> r = Inr (Some f) \<and> pending d' = rest \<and> fd_poisoned d' = None)"
proof (cases "pop_pending (fd_max_frame d) (pending d)")
  case (Inl e)
  then have "fd_max_frame d < u32_from_le (take 4 (pending d))"
    by (auto simp: pop_pending_def Let_def split: if_splits)
  with Inl assms show ?thesis
    by (auto simp: next_frame_cases decoder_ok_def pending_def)
next
  case (Inr r)
  then show ?thesis
    using assms pop_pending_frame consume_ok
    by (cases r) (fastforce simp: next_frame_cases)+
qed

theorem next_frame_refines_witness:
  "\<exists>r d'. next_frame (feed [2, 0, 0, 0, 7, 9, 1] (decoder_new 16)) = Some (r, d') \<and> decoder_ok d' \<and>
     r = Inr (Some [7, 9]) \<and> pending d' = [1] \<and> fd_poisoned d' = None"
  using next_frame_refines [of "feed [2, 0, 0, 0, 7, 9, 1] (decoder_new 16)"]
  by (simp add: pop_pending_def u32_from_le_def Let_def)

text \<open>
  C22. Frames survive any transport: whatever way the bytes of a sequence of encoded frames are
  cut into chunks, the receiver gets exactly the payloads that were sent, in order, and nothing
  is left over.
\<close>

theorem frames_round_trip:
  assumes "\<forall>p \<in> set ps. length p \<le> unat cap"
    and "encode_frames ps [] = Some (concat cs)"
  shows "\<exists>d. receive cs (decoder_new cap) = Some (ps, None, d) \<and> decoder_is_empty d"
  using assms by (rule receive_encoded)

theorem frames_round_trip_witness:
  "\<exists>d. receive [[2, 0], [0, 0, 7], [9, 1, 0, 0, 0], [5]] (decoder_new 16) =
     Some ([[7, 9], [5]], None, d) \<and> decoder_is_empty d"
  using frames_round_trip [of "[[7, 9], [5]]" 16 "[[2, 0], [0, 0, 7], [9, 1, 0, 0, 0], [5]]"]
  by (simp add: encode_frame_def u32_to_le_def le_bytes_numeral)

text \<open>
  An oversize frame poisons the stream for good: after \<open>TooLarge\<close>, every later call returns
  the same error, whatever is fed in between.
\<close>

theorem too_large_is_sticky:
  assumes "next_frame d = Some (Inl e, d')"
  shows "next_frame (feed bytes d') = Some (Inl e, feed bytes d')"
  using assms
  by (auto simp: next_frame_def Let_def split: option.splits if_splits)

theorem too_large_is_sticky_witness:
  "next_frame (feed [1, 2, 3] ((feed [17, 0, 0, 0] (decoder_new 16))\<lparr>fd_poisoned := Some (17, 16)\<rparr>)) =
     Some (Inl (TooLarge 17 16),
       feed [1, 2, 3] ((feed [17, 0, 0, 0] (decoder_new 16))\<lparr>fd_poisoned := Some (17, 16)\<rparr>))"
  by (rule too_large_is_sticky [of "feed [17, 0, 0, 0] (decoder_new 16)"])
    (simp add: next_frame_cases pop_pending_def u32_from_le_def Let_def)

end
