(* ===== verification/Wtf8.thy ===== *)
theory Wtf8
  imports Prelude
begin

text \<open>
  \<open>goz-core/src/wtf8.rs\<close>: the encoding of NTFS names, which are arbitrary sequences of
  16-bit code units, as WTF-8 bytes, the resynchronising decoder \<open>CodePoints\<close>, and the two
  conversions back. Rust's \<open>String\<close> is represented by its UTF-8 bytes; \<open>utf8_valid\<close> is
  the language's own notion of well-formed UTF-8 (\<open>core::str::from_utf8\<close>).
\<close>

section \<open>Encoding\<close>

definition is_high :: "u16 \<Rightarrow> bool" where "is_high u \<longleftrightarrow> 0xD800 \<le> u \<and> u < 0xDC00"
definition is_low :: "u16 \<Rightarrow> bool" where "is_low u \<longleftrightarrow> 0xDC00 \<le> u \<and> u < 0xE000"

definition encode_code_point :: "u32 \<Rightarrow> u8 list \<Rightarrow> u8 list" where
  "encode_code_point cp out =
    (if cp < 0x80 then out @ [ucast cp]
     else if cp < 0x800 then
       out @ [0xC0 OR ucast (drop_bit 6 cp), 0x80 OR ucast (cp AND 0x3F)]
     else if cp < 0x10000 then
       out @ [0xE0 OR ucast (drop_bit 12 cp),
              0x80 OR ucast (drop_bit 6 cp AND 0x3F),
              0x80 OR ucast (cp AND 0x3F)]
     else
       out @ [0xF0 OR ucast (drop_bit 18 cp),
              0x80 OR ucast (drop_bit 12 cp AND 0x3F),
              0x80 OR ucast (drop_bit 6 cp AND 0x3F),
              0x80 OR ucast (cp AND 0x3F)])"

definition pair_code_point :: "u16 \<Rightarrow> u16 \<Rightarrow> u32" where
  "pair_code_point u lo =
     0x10000 + (push_bit 10 (ucast u - 0xD800) OR (ucast lo - 0xDC00))"

fun from_utf16_loop :: "u16 list \<Rightarrow> u8 list \<Rightarrow> bool \<Rightarrow> u8 list \<times> bool" where
  "from_utf16_loop [] out lone = (out, lone)"
| "from_utf16_loop (u # rest) out lone =
    (if is_high u then
       (case rest of
          lo # rest' \<Rightarrow>
            if is_low lo
            then from_utf16_loop rest' (encode_code_point (pair_code_point u lo) out) lone
            else from_utf16_loop rest (encode_code_point (ucast u) out) True
        | [] \<Rightarrow> from_utf16_loop rest (encode_code_point (ucast u) out) True)
     else if is_low u then from_utf16_loop rest (encode_code_point (ucast u) out) True
     else from_utf16_loop rest (encode_code_point (ucast u) out) lone)"

definition from_utf16 :: "u16 list \<Rightarrow> u8 list \<Rightarrow> u8 list \<times> bool" where
  "from_utf16 units out = from_utf16_loop units out False"

section \<open>Decoding\<close>

text \<open>
  \<open>CodePoints::next\<close> on the iterator's bytes and position: the code point and the position
  after it, or \<^const>\<open>None\<close> at the end. The inner loop folds the continuation bytes and fails
  on the first byte that is not one.
\<close>

definition add_continuation :: "u32 \<Rightarrow> u8 \<Rightarrow> u32" where
  "add_continuation cp c = (push_bit 6 cp OR ucast (c AND 0x3F))"

fun continuation_loop :: "u8 list \<Rightarrow> nat \<Rightarrow> nat \<Rightarrow> u32 \<Rightarrow> u32 option" where
  "continuation_loop bytes j 0 cp = Some cp"
| "continuation_loop bytes j (Suc n) cp =
    (let c = bytes ! j in
     if c AND 0xC0 \<noteq> 0x80 then None
     else continuation_loop bytes (Suc j) n (add_continuation cp c))"

definition lead_byte :: "u8 \<Rightarrow> (nat \<times> u32) option" where
  "lead_byte b =
    (if b \<le> 0x7F then Some (1, ucast b)
     else if 0xC0 \<le> b \<and> b \<le> 0xDF then Some (2, ucast (b AND 0x1F))
     else if 0xE0 \<le> b \<and> b \<le> 0xEF then Some (3, ucast (b AND 0x0F))
     else if 0xF0 \<le> b \<and> b \<le> 0xF7 then Some (4, ucast (b AND 0x07))
     else None)"

definition min_code_point :: "nat \<Rightarrow> u32" where
  "min_code_point len = [0, 0, 0x80, 0x800, 0x10000] ! len"

definition code_points_next :: "u8 list \<Rightarrow> nat \<Rightarrow> (u32 \<times> nat) option" where
  "code_points_next bytes i =
    (if i < length bytes then
       (case lead_byte (bytes ! i) of
          None \<Rightarrow> Some (0xFFFD, i + 1)
        | Some (len, init) \<Rightarrow>
            if length bytes < i + len then Some (0xFFFD, i + 1)
            else
              (case continuation_loop bytes (i + 1) (len - 1) init of
                 None \<Rightarrow> Some (0xFFFD, i + 1)
               | Some cp \<Rightarrow>
                   if cp < min_code_point len \<or> 0x10FFFF < cp then Some (0xFFFD, i + 1)
                   else Some (cp, i + len)))
     else None)"

lemma lead_byte_len: "lead_byte b = Some (len, init) \<Longrightarrow> 1 \<le> len \<and> len \<le> 4"
  by (auto simp: lead_byte_def split: if_splits)

lemma code_points_next_progress:
  "code_points_next bytes i = Some (cp, j) \<Longrightarrow> i < j \<and> j \<le> length bytes \<and> cp \<le> 0x10FFFF"
  by (auto simp: code_points_next_def dest: lead_byte_len split: if_splits option.splits)

function code_points_from :: "u8 list \<Rightarrow> nat \<Rightarrow> u32 list" where
  "code_points_from bytes i =
    (case code_points_next bytes i of
       None \<Rightarrow> []
     | Some (cp, j) \<Rightarrow> cp # code_points_from bytes j)"
  by pat_completeness auto
termination
  by (relation "measure (\<lambda>(bytes, i). length bytes - i)")
    (auto dest!: code_points_next_progress)

declare code_points_from.simps [simp del]

definition code_points :: "u8 list \<Rightarrow> u32 list" where
  "code_points bytes = code_points_from bytes 0"

definition utf16_units :: "u32 \<Rightarrow> u16 list" where
  "utf16_units cp =
    (if cp < 0x10000 then [ucast cp]
     else let v = cp - 0x10000 in
       [0xD800 + ucast (drop_bit 10 v), 0xDC00 + ucast (v AND 0x3FF)])"

definition to_utf16 :: "u8 list \<Rightarrow> u16 list" where
  "to_utf16 bytes = concat (map utf16_units (code_points bytes))"

text \<open>
  Well-formed UTF-8 as the standard library checks it: shortest form, no surrogates, at most
  U+10FFFF.
\<close>

definition is_continuation :: "u8 \<Rightarrow> bool" where
  "is_continuation c \<longleftrightarrow> 0x80 \<le> c \<and> c \<le> 0xBF"

fun utf8_valid :: "u8 list \<Rightarrow> bool" where
  "utf8_valid [] = True"
| "utf8_valid (b # rest) =
    (if b \<le> 0x7F then utf8_valid rest
     else if 0xC2 \<le> b \<and> b \<le> 0xDF then
       (case rest of c1 # rest' \<Rightarrow> is_continuation c1 \<and> utf8_valid rest' | _ \<Rightarrow> False)
     else if 0xE0 \<le> b \<and> b \<le> 0xEF then
       (case rest of
          c1 # c2 # rest' \<Rightarrow>
            is_continuation c1 \<and> is_continuation c2 \<and>
            (b = 0xE0 \<longrightarrow> 0xA0 \<le> c1) \<and> (b = 0xED \<longrightarrow> c1 \<le> 0x9F) \<and> utf8_valid rest'
        | _ \<Rightarrow> False)
     else if 0xF0 \<le> b \<and> b \<le> 0xF4 then
       (case rest of
          c1 # c2 # c3 # rest' \<Rightarrow>
            is_continuation c1 \<and> is_continuation c2 \<and> is_continuation c3 \<and>
            (b = 0xF0 \<longrightarrow> 0x90 \<le> c1) \<and> (b = 0xF4 \<longrightarrow> c1 \<le> 0x8F) \<and> utf8_valid rest'
        | _ \<Rightarrow> False)
     else False)"

definition is_surrogate :: "u32 \<Rightarrow> bool" where
  "is_surrogate cp \<longleftrightarrow> 0xD800 \<le> cp \<and> cp < 0xE000"

text \<open>\<open>char::from_u32(cp).unwrap_or('\u{FFFD}')\<close> pushed on a \<open>String\<close>.\<close>

definition char_or_replacement :: "u32 \<Rightarrow> u32" where
  "char_or_replacement cp = (if is_surrogate cp \<or> 0x10FFFF < cp then 0xFFFD else cp)"

definition push_char_lossy :: "u32 \<Rightarrow> u8 list \<Rightarrow> u8 list" where
  "push_char_lossy cp s = encode_code_point (char_or_replacement cp) s"

definition to_string_lossy :: "u8 list \<Rightarrow> u8 list" where
  "to_string_lossy bytes =
    (if utf8_valid bytes then bytes
     else fold push_char_lossy (code_points bytes) [])"

section \<open>The bytes of one code point, as numbers\<close>

lemma or_lead_unat:
  "unat (x :: u8) < 64 \<Longrightarrow> unat (0x80 OR x) = 128 + unat x"
  "unat (x :: u8) < 32 \<Longrightarrow> unat (0xC0 OR x) = 192 + unat x"
  "unat (x :: u8) < 16 \<Longrightarrow> unat (0xE0 OR x) = 224 + unat x"
  "unat (x :: u8) < 8 \<Longrightarrow> unat (0xF0 OR x) = 240 + unat x"
  using unat_or_add [of 6 "0x80 :: u8" x] unat_or_add [of 5 "0xC0 :: u8" x]
    unat_or_add [of 4 "0xE0 :: u8" x] unat_or_add [of 3 "0xF0 :: u8" x]
  by simp_all

lemma unat_and_C0: "unat ((c :: u8) AND 0xC0) = 64 * (unat c div 64)"
proof -
  have eq: "unat c = unat ((c AND 0xC0) OR (c AND 0x3F))"
  proof (rule arg_cong [where f = unat], rule bit_word_eqI)
    fix n assume "n < LENGTH(8)"
    then have "n < 8" by simp
    from lt8_cases [OF this] show "bit c n = bit ((c AND 0xC0) OR (c AND 0x3F)) n"
      by (elim insertE emptyE) (simp_all add: bit_simps bit_numeral_rec)
  qed
  have "2 ^ 6 dvd unat (c AND 0xC0)"
  proof -
    have "take_bit 6 (c AND 0xC0) = 0" by (simp add: take_bit_and take_bit_numeral_numeral)
    then have "take_bit 6 (unat (c AND 0xC0)) = 0" by (simp only: unsigned_0 flip: unsigned_take_bit_eq)
    then show ?thesis by (simp add: take_bit_eq_mod mod_0_imp_dvd)
  qed
  then have "unat ((c AND 0xC0) OR (c AND 0x3F)) = unat (c AND 0xC0) + unat (c AND 0x3F)"
    by (rule unat_or_add) (simp add: unat_and_mask)
  with eq have "unat c = unat (c AND 0xC0) + unat c mod 64"
    by (simp only: unat_and_mask(2))
  then show ?thesis using mult_div_mod_eq [of 64 "unat c"] by linarith
qed

lemma continuation_test: "((c :: u8) AND 0xC0 = 0x80) \<longleftrightarrow> 128 \<le> unat c \<and> unat c < 192"
proof -
  have "(c AND 0xC0 = 0x80) \<longleftrightarrow> unat (c AND 0xC0) = 128"
    by (simp only: word_unat_eq_iff) simp
  also have "\<dots> \<longleftrightarrow> unat c div 64 = 2" unfolding unat_and_C0 by linarith
  also have "\<dots> \<longleftrightarrow> 128 \<le> unat c \<and> unat c < 192"
    using div_mult_mod_eq [of "unat c" 64] mod_less_divisor [of 64 "unat c"]
    by (intro iffI conjI div_nat_eqI) simp_all
  finally show ?thesis .
qed

lemma mod_small:
  "(x :: nat) mod 64 < 256" "x mod 64 < 4294967296" "x mod 32 < 4294967296" "x mod 16 < 4294967296" "x mod 8 < 4294967296"
  "x mod 32 < 67108864" "x mod 16 < 67108864" "x mod 8 < 67108864"
  by (rule less_trans [OF mod_less_divisor]; simp)+


lemma enc_bytes_unat:
  fixes cp :: u32
  shows "unat cp < 128 \<Longrightarrow> unat (ucast cp :: u8) = unat cp"
   "unat cp < 0x800 \<Longrightarrow> unat (0xC0 OR ucast (drop_bit 6 cp) :: u8) = 192 + unat cp div 64"
   "unat cp < 0x10000 \<Longrightarrow> unat (0xE0 OR ucast (drop_bit 12 cp) :: u8) = 224 + unat cp div 4096"
   "unat cp < 0x200000 \<Longrightarrow> unat (0xF0 OR ucast (drop_bit 18 cp) :: u8) = 240 + unat cp div 262144"
   "unat (0x80 OR ucast (cp AND 0x3F) :: u8) = 128 + unat cp mod 64"
   "unat (0x80 OR ucast (drop_bit 6 cp AND 0x3F) :: u8) = 128 + unat cp div 64 mod 64"
   "unat (0x80 OR ucast (drop_bit 12 cp AND 0x3F) :: u8) = 128 + unat cp div 4096 mod 64"
proof -
  have c: "unat (ucast (w AND 0x3F) :: u8) = unat w mod 64" for w :: u32
    by (simp add: unat_ucast_small unat_and_mask mod_small)
  have d: "unat (ucast (drop_bit k cp) :: u8) = unat cp div 2 ^ k" if "unat cp div 2 ^ k < 256" for k
    using that by (simp add: unat_ucast_small unat_drop)
  show "unat cp < 128 \<Longrightarrow> unat (ucast cp :: u8) = unat cp" by (simp add: unat_ucast_small)
  show "unat cp < 0x800 \<Longrightarrow> unat (0xC0 OR ucast (drop_bit 6 cp) :: u8) = 192 + unat cp div 64"
    using d [of 6] by (subst or_lead_unat(2)) simp_all
  show "unat cp < 0x10000 \<Longrightarrow> unat (0xE0 OR ucast (drop_bit 12 cp) :: u8) = 224 + unat cp div 4096"
    using d [of 12] by (subst or_lead_unat(3)) simp_all
  show "unat cp < 0x200000 \<Longrightarrow> unat (0xF0 OR ucast (drop_bit 18 cp) :: u8) = 240 + unat cp div 262144"
    using d [of 18] by (subst or_lead_unat(4)) simp_all
  show "unat (0x80 OR ucast (cp AND 0x3F) :: u8) = 128 + unat cp mod 64"
   "unat (0x80 OR ucast (drop_bit 6 cp AND 0x3F) :: u8) = 128 + unat cp div 64 mod 64"
   "unat (0x80 OR ucast (drop_bit 12 cp AND 0x3F) :: u8) = 128 + unat cp div 4096 mod 64"
    by (simp_all add: or_lead_unat(1) c unat_drop)
qed


lemma add_continuation_unat:
  "unat cp < 2 ^ 26 \<Longrightarrow> unat (add_continuation cp c) = unat cp * 64 + unat c mod 64"
  unfolding add_continuation_def
  by (subst unat_push_or; simp add: unat_ucast_small unat_and_mask mod_small)

lemma init_unat:
  "unat (ucast ((b :: u8) AND 0x1F) :: u32) = unat b mod 32"
  "unat (ucast (b AND 0x0F) :: u32) = unat b mod 16"
  "unat (ucast (b AND 0x07) :: u32) = unat b mod 8"
  by (simp_all add: unat_ucast_small unat_and_mask mod_small)

lemma continuation_unroll:
  "continuation_loop bytes j (Suc 0) cp = (if bytes ! j AND 0xC0 \<noteq> 0x80 then None
    else Some (add_continuation cp (bytes ! j)))"
  "continuation_loop bytes j 2 cp = (if bytes ! j AND 0xC0 \<noteq> 0x80 then None
    else continuation_loop bytes (Suc j) (Suc 0) (add_continuation cp (bytes ! j)))"
  "continuation_loop bytes j 3 cp = (if bytes ! j AND 0xC0 \<noteq> 0x80 then None
    else continuation_loop bytes (Suc j) 2 (add_continuation cp (bytes ! j)))"
  by (simp_all add: numeral_2_eq_2 numeral_3_eq_3 Let_def del: One_nat_def)

lemmas next_unfold = code_points_next_def lead_byte_def min_code_point_def word_less_nat_alt
  word_le_nat_alt continuation_test continuation_unroll

lemmas next_unat = add_continuation_unat init_unat mod_small

lemma code_points_next_1:
  assumes "unat b0 < 128" "unat cp = unat b0"
  shows "code_points_next (b0 # rest) 0 = Some (cp, 1)"
proof -
  have "ucast b0 = cp"
    using assms by (intro word_unat_eq_iff [THEN iffD2]) (simp add: unat_ucast_small)
  with assms show ?thesis by (simp add: next_unfold)
qed

lemma code_points_next_2:
  assumes "192 \<le> unat b0" "unat b0 < 224" "128 \<le> unat b1" "unat b1 < 192"
    and "unat cp = unat b0 mod 32 * 64 + unat b1 mod 64" "0x80 \<le> unat cp"
  shows "code_points_next (b0 # b1 # rest) 0 = Some (cp, 2)"
proof -
  have "add_continuation (ucast (b0 AND 0x1F)) b1 = cp"
    by (rule word_unat_eq_iff [THEN iffD2]) (simp add: next_unat assms(5))
  moreover have "unat cp \<le> 0x10FFFF"
    using assms(5) mod_less_divisor [of 32 "unat b0"] mod_less_divisor [of 64 "unat b1"] by linarith
  ultimately show ?thesis using assms(1-4,6) by (simp add: next_unfold)
qed

lemma horner: "a < A \<Longrightarrow> b < 64 \<Longrightarrow> a * 64 + b < A * (64 :: nat)"
  by (simp add: mult.commute [of _ 64])

lemma code_points_next_3:
  assumes "224 \<le> unat b0" "unat b0 < 240" "128 \<le> unat b1" "unat b1 < 192"
    "128 \<le> unat b2" "unat b2 < 192"
    and "unat cp = (unat b0 mod 16 * 64 + unat b1 mod 64) * 64 + unat b2 mod 64" "0x800 \<le> unat cp"
  shows "code_points_next (b0 # b1 # b2 # rest) 0 = Some (cp, 3)"
proof -
  have m: "unat b0 mod 16 < 16" "unat b1 mod 64 < 64" "unat b2 mod 64 < 64" by simp_all
  then have "unat b0 mod 16 * 64 + unat b1 mod 64 < 67108864" by linarith
  then have "add_continuation (add_continuation (ucast (b0 AND 0x0F)) b1) b2 = cp"
    by (intro word_unat_eq_iff [THEN iffD2]) (simp add: next_unat assms(7))
  moreover have "unat cp \<le> 0x10FFFF"
    using assms(7) horner [OF horner [OF m(1,2)] m(3)] by simp
  ultimately show ?thesis using assms(1-6,8) by (simp add: next_unfold)
qed

lemma code_points_next_4:
  assumes "240 \<le> unat b0" "unat b0 < 248" "128 \<le> unat b1" "unat b1 < 192"
    "128 \<le> unat b2" "unat b2 < 192" "128 \<le> unat b3" "unat b3 < 192"
    and "unat cp = ((unat b0 mod 8 * 64 + unat b1 mod 64) * 64 + unat b2 mod 64) * 64 + unat b3 mod 64"
    and "0x10000 \<le> unat cp" "unat cp \<le> 0x10FFFF"
  shows "code_points_next (b0 # b1 # b2 # b3 # rest) 0 = Some (cp, 4)"
proof -
  have m: "unat b0 mod 8 < 8" "unat b1 mod 64 < 64" "unat b2 mod 64 < 64" by simp_all
  then have "unat b0 mod 8 * 64 + unat b1 mod 64 < 67108864"
    "(unat b0 mod 8 * 64 + unat b1 mod 64) * 64 + unat b2 mod 64 < 67108864"
    using horner [OF m(1,2)] horner [OF horner [OF m(1,2)] m(3)] by simp_all
  then have "add_continuation (add_continuation (add_continuation (ucast (b0 AND 0x07)) b1) b2) b3 = cp"
    by (intro word_unat_eq_iff [THEN iffD2]) (simp add: next_unat assms(9))
  then show ?thesis using assms(1-8,10,11) by (simp add: next_unfold)
qed

lemma encode_append: "encode_code_point cp out = out @ encode_code_point cp []"
  by (simp add: encode_code_point_def)

lemma lead_mod:
  fixes q :: nat
  shows "(128 + q) mod 64 = q mod 64" "(192 + q) mod 32 = q mod 32"
    "(224 + q) mod 16 = q mod 16" "(240 + q) mod 8 = q mod 8"
  using mod_mult_self1 [of q 2 64] mod_mult_self1 [of q 6 32]
    mod_mult_self1 [of q 14 16] mod_mult_self1 [of q 30 8] by (simp_all add: add.commute)

lemma digits64:
  fixes n :: nat
  shows "n div 64 * 64 + n mod 64 = n"
    and "n div 4096 * 64 + n div 64 mod 64 = n div 64"
    and "n div 262144 * 64 + n div 4096 mod 64 = n div 4096"
  using div_mult_mod_eq [of "n div 64" 64] div_mult_mod_eq [of "n div 4096" 64]
  by (simp_all add: div_mult2_eq [symmetric])

lemma code_points_next_encode:
  assumes "cp \<le> 0x10FFFF"
  shows "code_points_next (encode_code_point cp [] @ rest) 0 =
    Some (cp, length (encode_code_point cp []))"
proof -
  let ?n = "unat cp"
  have n: "?n \<le> 0x10FFFF" using assms by (simp add: word_le_nat_alt)
  consider "?n < 0x80" | "0x80 \<le> ?n" "?n < 0x800" | "0x800 \<le> ?n" "?n < 0x10000" | "0x10000 \<le> ?n"
    by linarith
  then show ?thesis
  proof cases
    case 1
    then show ?thesis
      by (simp add: encode_code_point_def word_less_nat_alt code_points_next_1 [where cp = cp] enc_bytes_unat)
  next
    case 2
    then have "?n div 64 < 32" by linarith
    with 2 show ?thesis
      by (simp add: encode_code_point_def word_less_nat_alt code_points_next_2 [where cp = cp] enc_bytes_unat lead_mod digits64)
  next
    case 3
    then have "?n div 4096 < 16" by linarith
    with 3 show ?thesis
      by (simp add: encode_code_point_def word_less_nat_alt code_points_next_3 [where cp = cp]
          enc_bytes_unat unat_drop lead_mod digits64 del: distrib_right_numeral distrib_left_numeral)
  next
    case 4
    with n have "?n div 262144 < 8" "?n < 0x200000" by linarith+
    with 4 n show ?thesis
      by (simp add: encode_code_point_def word_less_nat_alt code_points_next_4 [where cp = cp] enc_bytes_unat unat_drop lead_mod digits64
          del: distrib_right_numeral distrib_left_numeral)
  qed
qed

section \<open>Decoding what was encoded\<close>

lemma continuation_loop_drop:
  "i + j + n \<le> length bytes \<Longrightarrow>
     continuation_loop (drop i bytes) j n cp = continuation_loop bytes (i + j) n cp"
  by (induction n arbitrary: j cp) (simp_all add: Let_def nth_drop)

lemma code_points_next_drop:
  assumes "i \<le> length bytes"
  shows "code_points_next bytes i = map_option (\<lambda>(cp, j). (cp, i + j)) (code_points_next (drop i bytes) 0)"
proof (cases "i < length bytes")
  case True
  then show ?thesis
    by (auto simp: code_points_next_def continuation_loop_drop dest: lead_byte_len split: option.splits)
qed (use assms in \<open>simp add: code_points_next_def\<close>)

lemma code_points_from_drop:
  "i \<le> length bytes \<Longrightarrow> code_points_from bytes i = code_points (drop i bytes)"
proof -
  have *: "k + i \<le> length bytes \<Longrightarrow> code_points_from bytes (k + i) = code_points_from (drop k bytes) i" for k i bytes
  proof (induction "length bytes - (k + i)" arbitrary: i rule: less_induct)
    case less
    have "code_points_next bytes (k + i) = map_option (\<lambda>(cp, j). (cp, k + j)) (code_points_next (drop k bytes) i)"
      using less.prems code_points_next_drop [of "k + i" bytes] code_points_next_drop [of i "drop k bytes"]
      by (cases "code_points_next (drop (k + i) bytes) 0") (auto simp: add.commute)
    then show ?case
      using less by (subst (1 2) code_points_from.simps)
        (auto split: option.splits dest!: code_points_next_progress)
  qed
  show "i \<le> length bytes \<Longrightarrow> code_points_from bytes i = code_points (drop i bytes)"
    using * [of i 0 bytes] by (simp add: code_points_def)
qed

lemma code_points_Nil [simp]: "code_points [] = []"
  by (subst code_points_def, subst code_points_from.simps) (simp add: code_points_next_def)

lemma code_points_unfold:
  "code_points bytes = (case code_points_next bytes 0 of None \<Rightarrow> []
     | Some (cp, j) \<Rightarrow> cp # code_points (drop j bytes))"
  by (subst code_points_def, subst code_points_from.simps)
    (auto split: option.splits dest!: code_points_next_progress simp: code_points_from_drop)

lemma code_points_encode:
  "cp \<le> 0x10FFFF \<Longrightarrow> code_points (encode_code_point cp [] @ rest) = cp # code_points rest"
  by (subst code_points_unfold) (simp add: code_points_next_encode)

definition encode_all :: "u32 list \<Rightarrow> u8 list" where
  "encode_all cps = concat (map (\<lambda>cp. encode_code_point cp []) cps)"

lemma encode_all_simps [simp]:
  "encode_all [] = []"
  "encode_all (cp # cps) = encode_code_point cp [] @ encode_all cps"
  by (simp_all add: encode_all_def)

lemma code_points_encode_all:
  "\<forall>cp \<in> set cps. cp \<le> 0x10FFFF \<Longrightarrow> code_points (encode_all cps) = cps"
  by (induction cps) (simp_all add: code_points_encode)

text \<open>The code points a sequence of code units denotes, lone surrogates kept.\<close>

fun utf16_code_points :: "u16 list \<Rightarrow> u32 list" where
  "utf16_code_points [] = []"
| "utf16_code_points (u # rest) =
    (if is_high u then
       (case rest of
          lo # rest' \<Rightarrow>
            if is_low lo then pair_code_point u lo # utf16_code_points rest'
            else ucast u # utf16_code_points rest
        | [] \<Rightarrow> [ucast u])
     else ucast u # utf16_code_points rest)"

lemmas utf16_step = utf16_code_points.simps(2)
declare utf16_step [simp del]

lemma unat_ucast_16_32 [simp]: "unat (ucast (u :: u16) :: u32) = unat u"
  using unsigned_less [of u, where 'a = nat] by (intro unat_ucast_small) (simp add: less_trans)

lemma surrogate_digit:
  "is_high u \<Longrightarrow> \<exists>q < 1024. unat u = 0xD800 + q"
  "is_low u \<Longrightarrow> \<exists>q < 1024. unat u = 0xDC00 + q"
  by (auto simp: is_high_def is_low_def word_le_nat_alt word_less_nat_alt le_iff_add)

lemma unat_pair:
  assumes "unat u = 0xD800 + q" "q < 1024" "unat lo = 0xDC00 + r" "r < 1024"
  shows "unat (pair_code_point u lo) = 0x10000 + (q * 1024 + r)"
proof -
  have "unat (ucast u - 0xD800 :: u32) = q" "unat (ucast lo - 0xDC00 :: u32) = r"
    using assms by (subst unat_sub; simp add: word_le_nat_alt)+
  then have *: "unat (push_bit 10 (ucast u - 0xD800 :: u32) OR (ucast lo - 0xDC00)) = q * 1024 + r"
    using assms by (subst unat_push_or) simp_all
  then show ?thesis
    unfolding pair_code_point_def using assms by (subst unat_add_lem [THEN iffD1]) simp_all
qed

lemma utf16_units_pair:
  assumes "is_high u" "is_low lo"
  shows "utf16_units (pair_code_point u lo) = [u, lo]"
proof -
  let ?cp = "pair_code_point u lo"
  obtain q r where b: "unat u = 0xD800 + q" "q < 1024" "unat lo = 0xDC00 + r" "r < 1024"
    using surrogate_digit assms by blast
  then have ge: "0x10000 \<le> ?cp" using unat_pair [OF b] by (simp add: word_le_nat_alt)
  have v: "unat (?cp - 0x10000) = q * 1024 + r"
    using unat_pair [OF b] ge by (subst unat_sub) simp_all
  have "unat (ucast (drop_bit 10 (?cp - 0x10000)) :: u16) = q"
    using b by (subst unat_ucast_small) (simp_all add: unat_drop v)
  then have "0xD800 + ucast (drop_bit 10 (?cp - 0x10000)) = u"
    using b by (intro word_unat_eq_iff [THEN iffD2], subst unat_add_lem [THEN iffD1]) simp_all
  moreover have "unat (ucast ((?cp - 0x10000) AND 0x3FF) :: u16) = r"
    using b by (subst unat_ucast_small) (simp_all add: unat_and_mask v)
  then have "0xDC00 + ucast ((?cp - 0x10000) AND 0x3FF) = lo"
    using b by (intro word_unat_eq_iff [THEN iffD2], subst unat_add_lem [THEN iffD1]) simp_all
  ultimately show ?thesis using ge by (simp add: utf16_units_def Let_def)
qed

lemma pair_code_point_range:
  assumes "is_high u" "is_low lo"
  shows "0x10000 \<le> unat (pair_code_point u lo)" "unat (pair_code_point u lo) \<le> 0x10FFFF"
proof -
  obtain q r where "unat u = 0xD800 + q" "q < 1024" "unat lo = 0xDC00 + r" "r < 1024"
    using surrogate_digit assms by blast
  then show "0x10000 \<le> unat (pair_code_point u lo)" "unat (pair_code_point u lo) \<le> 0x10FFFF"
    by (simp_all add: unat_pair)
qed

lemma utf16_code_points_le: "cp \<in> set (utf16_code_points units) \<Longrightarrow> cp \<le> 0x10FFFF"
proof (induction units rule: utf16_code_points.induct)
  case (2 u rest)
  have "(ucast u :: u32) \<le> 0x10FFFF" for u :: u16
    using unsigned_less [of u, where 'a = nat] by (simp add: word_le_nat_alt)
  moreover have "is_high u \<Longrightarrow> is_low lo \<Longrightarrow> pair_code_point u lo \<le> 0x10FFFF" for u lo
    using pair_code_point_range(2) by (simp add: word_le_nat_alt)
  ultimately show ?case
    using 2 unfolding utf16_step [of u] by (auto split: list.splits if_splits)
qed simp

lemma utf16_units_code_points: "concat (map utf16_units (utf16_code_points units)) = units"
proof (induction units rule: utf16_code_points.induct)
  case (2 u rest)
  have "utf16_units (ucast u) = [u]" for u
    using unsigned_less [of u, where 'a = nat]
    by (simp add: utf16_units_def word_less_nat_alt word_unat_eq_iff unat_ucast_small)
  with 2 show ?case
    unfolding utf16_step [of u] by (auto simp: utf16_units_pair split: list.splits)
qed simp

lemma from_utf16_loop_eq:
  "from_utf16_loop units out lone =
    (out @ encode_all (utf16_code_points units),
     lone \<or> (\<exists>cp \<in> set (utf16_code_points units). is_surrogate cp))"
proof (induction units out lone rule: from_utf16_loop.induct)
  case (2 u rest out lone)
  have s: "is_surrogate (ucast u) \<longleftrightarrow> is_high u \<or> is_low u" for u
    by (auto simp: is_surrogate_def is_high_def is_low_def word_le_nat_alt word_less_nat_alt)
  have p: "is_high u \<Longrightarrow> is_low lo \<Longrightarrow> \<not> is_surrogate (pair_code_point u lo)" for u lo
    using pair_code_point_range(1) [of u lo] by (simp add: is_surrogate_def word_less_nat_alt)
  show ?case
    using 2 unfolding utf16_step [of u] from_utf16_loop.simps(2) [of u]
    by (auto simp: s p encode_append [of _ out] simp del: from_utf16_loop.simps(2) split: list.splits)
qed simp

lemma to_utf16_from_utf16: "to_utf16 (fst (from_utf16 units [])) = units"
  by (simp add: to_utf16_def from_utf16_def from_utf16_loop_eq utf16_units_code_points
      code_points_encode_all utf16_code_points_le)

text \<open>
  C19. Every NTFS name round-trips: converting any sequence of 16-bit code units to WTF-8
  and back gives exactly those code units, unpaired surrogates included.
\<close>

theorem wtf8_round_trip: "to_utf16 (fst (from_utf16 units [])) = units"
  by (rule to_utf16_from_utf16)

section \<open>When the bytes are UTF-8\<close>

lemma valid_2:
  assumes "194 \<le> unat b0" "unat b0 < 224" "128 \<le> unat b1" "unat b1 < 192"
  shows "utf8_valid (b0 # b1 # rest) = utf8_valid rest"
  using assms by (simp add: word_le_nat_alt is_continuation_def)

lemma valid_3:
  assumes "224 \<le> unat b0" "unat b0 < 240" "128 \<le> unat b1" "unat b1 < 192" "128 \<le> unat b2" "unat b2 < 192"
  shows "utf8_valid (b0 # b1 # b2 # rest) \<longleftrightarrow>
    (unat b0 = 224 \<longrightarrow> 160 \<le> unat b1) \<and> (unat b0 = 237 \<longrightarrow> unat b1 < 160) \<and> utf8_valid rest"
  using assms by (auto simp add: word_le_nat_alt is_continuation_def word_unat_eq_iff)

lemma valid_4:
  assumes "240 \<le> unat b0" "unat b0 < 245" "128 \<le> unat b1" "unat b1 < 192" "128 \<le> unat b2" "unat b2 < 192"
    "128 \<le> unat b3" "unat b3 < 192"
  shows "utf8_valid (b0 # b1 # b2 # b3 # rest) \<longleftrightarrow>
    (unat b0 = 240 \<longrightarrow> 144 \<le> unat b1) \<and> (unat b0 = 244 \<longrightarrow> unat b1 < 144) \<and> utf8_valid rest"
  using assms by (auto simp add: word_le_nat_alt is_continuation_def word_unat_eq_iff)

lemma utf8_valid_encode:
  assumes "cp \<le> 0x10FFFF"
  shows "utf8_valid (encode_code_point cp [] @ rest) \<longleftrightarrow> \<not> is_surrogate cp \<and> utf8_valid rest"
proof -
  let ?n = "unat cp"
  have n: "?n \<le> 0x10FFFF" using assms by (simp add: word_le_nat_alt)
  have sur: "is_surrogate cp \<longleftrightarrow> 0xD800 \<le> ?n \<and> ?n < 0xE000"
    by (simp add: is_surrogate_def word_le_nat_alt word_less_nat_alt)
  have m: "?n div 64 mod 64 < 64" "?n mod 64 < 64" "?n div 4096 mod 64 < 64" by simp_all
  have d: "?n = ?n div 64 * 64 + ?n mod 64" "?n div 64 = ?n div 4096 * 64 + ?n div 64 mod 64"
      "?n div 4096 = ?n div 262144 * 64 + ?n div 4096 mod 64"
    by (simp_all only: digits64)
  consider "?n < 0x80" | "0x80 \<le> ?n" "?n < 0x800" | "0x800 \<le> ?n" "?n < 0x10000" | "0x10000 \<le> ?n"
    by linarith
  then show ?thesis
  proof cases
    case 1
    then show ?thesis
      by (simp add: encode_code_point_def word_less_nat_alt word_le_nat_alt enc_bytes_unat sur)
  next
    case 2
    then have "?n div 64 < 32" "2 \<le> ?n div 64" by linarith+
    with 2 show ?thesis
      by (simp add: encode_code_point_def word_less_nat_alt valid_2 enc_bytes_unat sur
          del: utf8_valid.simps)
  next
    case 3
    then have q: "?n div 4096 < 16" by linarith
    have "?n div 4096 = 0 \<longrightarrow> 32 \<le> ?n div 64 mod 64" using 3 d m by linarith
    moreover have "(?n div 4096 = 13 \<longrightarrow> ?n div 64 mod 64 < 32) \<longleftrightarrow> \<not> (0xD800 \<le> ?n \<and> ?n < 0xE000)"
      using d m by (cases "?n div 4096 = 13"; cases "?n div 64 mod 64 < 32"; simp; linarith)
    ultimately show ?thesis using 3 q m
      by (simp add: encode_code_point_def word_less_nat_alt valid_3 enc_bytes_unat unat_drop sur
          del: utf8_valid.simps)
  next
    case 4
    with n have q: "?n div 262144 < 5" "?n < 0x200000" by linarith+
    have "?n div 262144 = 0 \<longrightarrow> 16 \<le> ?n div 4096 mod 64" using 4 d m by linarith
    moreover have "?n div 262144 = 4 \<longrightarrow> ?n div 4096 mod 64 < 16" using n d m by linarith
    ultimately show ?thesis using 4 q m
      by (simp add: encode_code_point_def word_less_nat_alt valid_4 enc_bytes_unat unat_drop sur
          del: utf8_valid.simps)
  qed
qed

lemma utf8_valid_encode_all:
  "\<forall>cp \<in> set cps. cp \<le> 0x10FFFF \<Longrightarrow>
     utf8_valid (encode_all cps) \<longleftrightarrow> (\<forall>cp \<in> set cps. \<not> is_surrogate cp)"
  by (induction cps) (auto simp: utf8_valid_encode)

lemma from_utf16_lone:
  "snd (from_utf16 units []) \<longleftrightarrow> \<not> utf8_valid (fst (from_utf16 units []))"
  by (simp add: from_utf16_def from_utf16_loop_eq utf8_valid_encode_all utf16_code_points_le)

text \<open>
  The flag \<open>from_utf16\<close> returns is exact: it reports an unpaired surrogate if and only
  if the bytes it produced are not valid UTF-8.
\<close>

theorem from_utf16_lone_iff:
  "snd (from_utf16 units []) \<longleftrightarrow> \<not> utf8_valid (fst (from_utf16 units []))"
  by (rule from_utf16_lone)

lemma fold_push_char_lossy:
  "fold push_char_lossy cps s = s @ encode_all (map char_or_replacement cps)"
proof (induction cps arbitrary: s)
  case (Cons cp cps)
  then show ?case
    using encode_append [of "char_or_replacement cp" s] by (simp add: push_char_lossy_def)
qed simp

lemma char_or_replacement_scalar:
  "char_or_replacement cp \<le> 0x10FFFF \<and> \<not> is_surrogate (char_or_replacement cp)"
proof -
  have "\<not> is_surrogate 0xFFFD" by (simp add: is_surrogate_def)
  then show ?thesis by (simp add: char_or_replacement_def not_less)
qed


end
