(* ===== verification/Results.thy ===== *)
theory Results
  imports Bytes Wtf8
begin

text \<open>
  \<open>goz-core/src/proto/binary.rs\<close>: the binary encoding of a page of results, the header
  fix-up the daemon does once a page's rows are known, and the bounds-checked decoder. A
  \<open>String\<close> is its UTF-8 bytes.
\<close>

section \<open>Pages\<close>

record result_item =
  ri_path :: "u8 list"
  ri_path_u16 :: "u16 list option"
  ri_size :: "u64 option"
  ri_mtime_ft :: "i64 option"
  ri_is_dir :: bool

record query_results =
  qr_total :: u64
  qr_items :: "result_item list"
  qr_more :: bool
  qr_volumes_incomplete :: bool
  qr_metadata_pending :: bool
  qr_generation :: u64
  qr_total_size :: "u64 option"

datatype bin_error = Truncated | Overflow

definition RESP_TAG_JSON :: u8 where "RESP_TAG_JSON = 0"
definition RESP_TAG_RESULTS :: u8 where "RESP_TAG_RESULTS = 1"

definition FLAG_MORE :: u8 where "FLAG_MORE = 1"
definition FLAG_VOLUMES_INCOMPLETE :: u8 where "FLAG_VOLUMES_INCOMPLETE = push_bit 1 1"
definition FLAG_METADATA_PENDING :: u8 where "FLAG_METADATA_PENDING = push_bit 2 1"
definition FLAG_TOTAL_SIZE :: u8 where "FLAG_TOTAL_SIZE = push_bit 3 1"

definition IFLAG_IS_DIR :: u8 where "IFLAG_IS_DIR = 1"
definition IFLAG_HAS_SIZE :: u8 where "IFLAG_HAS_SIZE = push_bit 1 1"
definition IFLAG_HAS_MTIME :: u8 where "IFLAG_HAS_MTIME = push_bit 2 1"

section \<open>Encoding\<close>

definition set_flag :: "bool \<Rightarrow> u8 \<Rightarrow> u8 \<Rightarrow> u8" where
  "set_flag c b flags = (if c then flags OR b else flags)"

definition page_flags :: "bool \<Rightarrow> bool \<Rightarrow> bool \<Rightarrow> u64 option \<Rightarrow> u8" where
  "page_flags m vi mp ts =
    set_flag (ts \<noteq> None) FLAG_TOTAL_SIZE
      (set_flag mp FLAG_METADATA_PENDING
        (set_flag vi FLAG_VOLUMES_INCOMPLETE
          (set_flag m FLAG_MORE 0)))"

definition push_results_header ::
  "u8 list \<Rightarrow> u64 \<Rightarrow> u64 \<Rightarrow> bool \<Rightarrow> bool \<Rightarrow> bool \<Rightarrow> u64 option \<Rightarrow> u32 \<Rightarrow> u8 list" where
  "push_results_header out tot gen m vi mp ts cnt =
    out @ [RESP_TAG_RESULTS] @ u64_to_le tot @ u64_to_le gen @ [page_flags m vi mp ts] @ u32_to_le cnt @
    (case ts of None \<Rightarrow> [] | Some n \<Rightarrow> u64_to_le n)"

definition FLAGS_AT :: nat where "FLAGS_AT = 1 + 8 + 8"
definition COUNT_AT :: nat where "COUNT_AT = FLAGS_AT + 1"

definition patch_results_header :: "u8 list \<Rightarrow> bool \<Rightarrow> u32 \<Rightarrow> u8 list option" where
  "patch_results_header page m cnt =
    do {
      f \<leftarrow> idx page FLAGS_AT;
      page \<leftarrow> upd page FLAGS_AT (if m then f OR FLAG_MORE else f AND NOT FLAG_MORE);
      (if COUNT_AT + 4 \<le> length page
       then Some (take COUNT_AT page @ u32_to_le cnt @ drop (COUNT_AT + 4) page)
       else None)
    }"

definition item_flags :: "bool \<Rightarrow> u64 option \<Rightarrow> i64 option \<Rightarrow> u8" where
  "item_flags dir sz mt =
    set_flag (mt \<noteq> None) IFLAG_HAS_MTIME
      (set_flag (sz \<noteq> None) IFLAG_HAS_SIZE (set_flag dir IFLAG_IS_DIR 0))"

definition push_item ::
  "u8 list \<Rightarrow> u8 list \<Rightarrow> bool \<Rightarrow> u64 option \<Rightarrow> i64 option \<Rightarrow> u8 list" where
  "push_item out raw_path dir sz mt =
    out @ u32_to_le (word_of_nat (length raw_path)) @ raw_path @ [item_flags dir sz mt] @
    (case sz of None \<Rightarrow> [] | Some s \<Rightarrow> u64_to_le s) @
    (case mt of None \<Rightarrow> [] | Some m \<Rightarrow> i64_to_le m)"

definition raw_path_bytes :: "result_item \<Rightarrow> u8 list" where
  "raw_path_bytes it =
    (case ri_path_u16 it of Some units \<Rightarrow> fst (from_utf16 units []) | None \<Rightarrow> ri_path it)"

definition encode_results_payload :: "query_results \<Rightarrow> u8 list \<Rightarrow> u8 list" where
  "encode_results_payload page out =
    fold (\<lambda>it out. push_item out (raw_path_bytes it) (ri_is_dir it) (ri_size it) (ri_mtime_ft it))
      (qr_items page)
      (push_results_header out (qr_total page) (qr_generation page) (qr_more page)
        (qr_volumes_incomplete page) (qr_metadata_pending page) (qr_total_size page)
        (word_of_nat (length (qr_items page))))"

section \<open>Decoding\<close>

record reader =
  rd_buf :: "u8 list"
  rd_pos :: nat

type_synonym 'a read = "reader \<Rightarrow> bin_error + 'a \<times> reader"

definition rd_return :: "'a \<Rightarrow> 'a read" where "rd_return x r = Inr (x, r)"

definition rd_bind :: "'a read \<Rightarrow> ('a \<Rightarrow> 'b read) \<Rightarrow> 'b read" where
  "rd_bind m f r = try_then (m r) (\<lambda>(x, r'). f x r')"

definition rd_u8 :: "u8 read" where
  "rd_u8 r = (if rd_pos r < length (rd_buf r)
     then Inr (rd_buf r ! rd_pos r, r\<lparr>rd_pos := rd_pos r + 1\<rparr>) else Inl Truncated)"

text \<open>\<open>arr::<N>\<close> and \<open>bytes(n)\<close> read the same way.\<close>

definition rd_bytes :: "nat \<Rightarrow> u8 list read" where
  "rd_bytes n r =
    (let e = rd_pos r + n in
     if USIZE_MAX < e then Inl Overflow
     else if e \<le> length (rd_buf r)
       then Inr (take n (drop (rd_pos r) (rd_buf r)), r\<lparr>rd_pos := e\<rparr>)
       else Inl Truncated)"

definition rd_u32 :: "u32 read" where
  "rd_u32 = rd_bind (rd_bytes 4) (\<lambda>bs. rd_return (u32_from_le bs))"

definition rd_u64 :: "u64 read" where
  "rd_u64 = rd_bind (rd_bytes 8) (\<lambda>bs. rd_return (u64_from_le bs))"

definition rd_i64 :: "i64 read" where
  "rd_i64 = rd_bind (rd_bytes 8) (\<lambda>bs. rd_return (i64_from_le bs))"

text \<open>\<open>cond.then(|| read).transpose()?\<close>\<close>

definition rd_when :: "bool \<Rightarrow> 'a read \<Rightarrow> 'a option read" where
  "rd_when c m = (if c then rd_bind m (\<lambda>x. rd_return (Some x)) else rd_return None)"

definition item_of_raw :: "u8 list \<Rightarrow> u8 \<Rightarrow> u64 option \<Rightarrow> i64 option \<Rightarrow> result_item" where
  "item_of_raw p iflags sz mt =
    \<lparr>ri_path = to_string_lossy p,
     ri_path_u16 = (if utf8_valid p then None else Some (to_utf16 p)),
     ri_size = sz, ri_mtime_ft = mt, ri_is_dir = (iflags AND IFLAG_IS_DIR \<noteq> 0)\<rparr>"

definition rd_item :: "result_item read" where
  "rd_item =
    rd_bind rd_u32 (\<lambda>plen.
    rd_bind (rd_bytes (unat plen)) (\<lambda>p.
    rd_bind rd_u8 (\<lambda>iflags.
    rd_bind (rd_when (iflags AND IFLAG_HAS_SIZE \<noteq> 0) rd_u64) (\<lambda>sz.
    rd_bind (rd_when (iflags AND IFLAG_HAS_MTIME \<noteq> 0) rd_i64) (\<lambda>mt.
    rd_return (item_of_raw p iflags sz mt))))))"

primrec rd_items :: "nat \<Rightarrow> result_item list read" where
  "rd_items 0 = rd_return []"
| "rd_items (Suc n) =
    rd_bind rd_item (\<lambda>it. rd_bind (rd_items n) (\<lambda>its. rd_return (it # its)))"

definition decode_results_payload :: "u8 list \<Rightarrow> bin_error + query_results" where
  "decode_results_payload body =
    try_then
     (rd_bind rd_u64 (\<lambda>tot.
      rd_bind rd_u64 (\<lambda>gen.
      rd_bind rd_u8 (\<lambda>flags.
      rd_bind rd_u32 (\<lambda>cnt.
      rd_bind (rd_when (flags AND FLAG_TOTAL_SIZE \<noteq> 0) rd_u64) (\<lambda>ts.
      rd_bind (rd_items (unat cnt)) (\<lambda>its.
      rd_return
        \<lparr>qr_total = tot, qr_items = its, qr_more = (flags AND FLAG_MORE \<noteq> 0),
         qr_volumes_incomplete = (flags AND FLAG_VOLUMES_INCOMPLETE \<noteq> 0),
         qr_metadata_pending = (flags AND FLAG_METADATA_PENDING \<noteq> 0),
         qr_generation = gen, qr_total_size = ts\<rparr>))))))
      \<lparr>rd_buf = body, rd_pos = 0\<rparr>)
     (\<lambda>(page, _). Inr page)"

section \<open>Reading back what was written\<close>

text \<open>
  \<open>reads m bs x\<close>: wherever the bytes \<open>bs\<close> stand in a buffer, the reader \<open>m\<close> started at their
  beginning returns \<open>x\<close> and stops right behind them.
\<close>

definition reads :: "'a read \<Rightarrow> u8 list \<Rightarrow> 'a \<Rightarrow> bool" where
  "reads m bs x \<longleftrightarrow>
    (\<forall>pre rest. length (pre @ bs @ rest) \<le> USIZE_MAX \<longrightarrow>
      m \<lparr>rd_buf = pre @ bs @ rest, rd_pos = length pre\<rparr> =
        Inr (x, \<lparr>rd_buf = pre @ bs @ rest, rd_pos = length pre + length bs\<rparr>))"

named_theorems reads_intro \<open>how each reader reads back what its writer wrote\<close>

lemma reads_return: "reads (rd_return x) [] x"
  by (simp add: reads_def rd_return_def)

lemma reads_bind:
  assumes "reads m a x" "reads (f x) b y"
  shows "reads (rd_bind m f) (a @ b) y"
  unfolding reads_def
proof (intro allI impI)
  fix pre rest :: "u8 list"
  assume len: "length (pre @ (a @ b) @ rest) \<le> USIZE_MAX"
  have "m \<lparr>rd_buf = pre @ a @ b @ rest, rd_pos = length pre\<rparr> =
      Inr (x, \<lparr>rd_buf = pre @ a @ b @ rest, rd_pos = length pre + length a\<rparr>)"
    using assms(1) len unfolding reads_def by (metis append.assoc)
  moreover have "f x \<lparr>rd_buf = (pre @ a) @ b @ rest, rd_pos = length (pre @ a)\<rparr> =
      Inr (y, \<lparr>rd_buf = (pre @ a) @ b @ rest, rd_pos = length (pre @ a) + length b\<rparr>)"
    using assms(2) len unfolding reads_def by (metis append.assoc)
  ultimately show "rd_bind m f \<lparr>rd_buf = pre @ (a @ b) @ rest, rd_pos = length pre\<rparr> =
      Inr (y, \<lparr>rd_buf = pre @ (a @ b) @ rest, rd_pos = length pre + length (a @ b)\<rparr>)"
    by (simp add: rd_bind_def)
qed

lemma reads_last:
  assumes "reads m a x" "f x = rd_return y"
  shows "reads (rd_bind m f) a y"
  using reads_bind [OF assms(1), of f "[]" y] assms(2) by (simp add: reads_return)

lemma reads_u8 [reads_intro]: "reads rd_u8 [b] b"
  by (simp add: reads_def rd_u8_def)

lemma reads_bytes [reads_intro]: "n = length bs \<Longrightarrow> reads (rd_bytes n) bs bs"
  by (auto simp: reads_def rd_bytes_def Let_def)

lemma reads_u32 [reads_intro]: "reads rd_u32 (u32_to_le w) w"
  unfolding rd_u32_def by (rule reads_last) (auto intro: reads_bytes)

lemma reads_u64 [reads_intro]: "reads rd_u64 (u64_to_le w) w"
  unfolding rd_u64_def by (rule reads_last) (auto intro: reads_bytes)

lemma reads_i64 [reads_intro]: "i64_ok x \<Longrightarrow> reads rd_i64 (i64_to_le x) x"
  unfolding rd_i64_def by (rule reads_last) (auto intro: reads_bytes)

lemma reads_when_u64 [reads_intro]:
  "c \<longleftrightarrow> v \<noteq> None \<Longrightarrow> reads (rd_when c rd_u64) (case v of None \<Rightarrow> [] | Some n \<Rightarrow> u64_to_le n) v"
  by (auto simp: rd_when_def reads_return intro: reads_last [OF reads_u64])

lemma reads_when_i64 [reads_intro]:
  "c \<longleftrightarrow> v \<noteq> None \<Longrightarrow> pred_option i64_ok v \<Longrightarrow>
     reads (rd_when c rd_i64) (case v of None \<Rightarrow> [] | Some n \<Rightarrow> i64_to_le n) v"
  by (auto simp: rd_when_def reads_return intro: reads_last [OF reads_i64])

lemmas flag_defs = FLAG_MORE_def FLAG_VOLUMES_INCOMPLETE_def FLAG_METADATA_PENDING_def
  FLAG_TOTAL_SIZE_def IFLAG_IS_DIR_def IFLAG_HAS_SIZE_def IFLAG_HAS_MTIME_def set_flag_def

lemma page_flags_bits:
  "page_flags m vi mp ts AND FLAG_MORE \<noteq> 0 \<longleftrightarrow> m"
  "page_flags m vi mp ts AND FLAG_VOLUMES_INCOMPLETE \<noteq> 0 \<longleftrightarrow> vi"
  "page_flags m vi mp ts AND FLAG_METADATA_PENDING \<noteq> 0 \<longleftrightarrow> mp"
  "page_flags m vi mp ts AND FLAG_TOTAL_SIZE \<noteq> 0 \<longleftrightarrow> ts \<noteq> None"
  by (simp_all add: page_flags_def flag_defs)

lemma item_flags_bits:
  "item_flags dir sz mt AND IFLAG_IS_DIR \<noteq> 0 \<longleftrightarrow> dir"
  "item_flags dir sz mt AND IFLAG_HAS_SIZE \<noteq> 0 \<longleftrightarrow> sz \<noteq> None"
  "item_flags dir sz mt AND IFLAG_HAS_MTIME \<noteq> 0 \<longleftrightarrow> mt \<noteq> None"
  by (simp_all add: item_flags_def flag_defs)

text \<open>The bytes of one item, and the item the client makes of them.\<close>

definition raw_item_ok :: "u8 list \<times> bool \<times> u64 option \<times> i64 option \<Rightarrow> bool" where
  "raw_item_ok = (\<lambda>(p, dir, sz, mt). length p < 2 ^ 32 \<and> pred_option i64_ok mt)"

definition item_bytes :: "u8 list \<times> bool \<times> u64 option \<times> i64 option \<Rightarrow> u8 list" where
  "item_bytes = (\<lambda>(p, dir, sz, mt). push_item [] p dir sz mt)"

definition client_item :: "u8 list \<times> bool \<times> u64 option \<times> i64 option \<Rightarrow> result_item" where
  "client_item = (\<lambda>(p, dir, sz, mt).
    \<lparr>ri_path = to_string_lossy p,
     ri_path_u16 = (if utf8_valid p then None else Some (to_utf16 p)),
     ri_size = sz, ri_mtime_ft = mt, ri_is_dir = dir\<rparr>)"

lemma push_item_append: "push_item out p dir sz mt = out @ push_item [] p dir sz mt"
  by (simp add: push_item_def)

lemma reads_item [reads_intro]:
  assumes "raw_item_ok it"
  shows "reads rd_item (item_bytes it) (client_item it)"
proof -
  obtain p dir sz mt where it: "it = (p, dir, sz, mt)" by (cases it) auto
  have len: "unat (word_of_nat (length p) :: u32) = length p" and mt: "pred_option i64_ok mt"
    using assms by (simp_all add: it raw_item_ok_def unat_of_nat)
  show ?thesis
    unfolding it item_bytes_def push_item_def rd_item_def prod.case append_Nil
    by (rule reads_bind [OF reads_u32], rule reads_bind [OF reads_bytes], rule len,
        rule reads_bind [OF reads_u8], rule reads_bind [OF reads_when_u64],
        rule item_flags_bits, rule reads_last [OF reads_when_i64])
      (simp_all add: item_flags_bits item_of_raw_def client_item_def mt)
qed

lemma reads_items [reads_intro]:
  "\<forall>it \<in> set its. raw_item_ok it \<Longrightarrow>
     reads (rd_items (length its)) (concat (map item_bytes its)) (map client_item its)"
proof (induction its)
  case (Cons it its)
  then show ?case
    by (simp, intro reads_bind [OF reads_item] reads_last) simp_all
qed (simp add: reads_return)

lemma decode_pushed:
  assumes "\<forall>it \<in> set its. raw_item_ok it"
    and "length its < 2 ^ 32"
    and "push_results_header [] tot gen m vi mp ts (word_of_nat (length its)) @
           concat (map item_bytes its) = RESP_TAG_RESULTS # body"
    and "length body \<le> USIZE_MAX"
  shows "decode_results_payload body = Inr
    \<lparr>qr_total = tot, qr_items = map client_item its, qr_more = m, qr_volumes_incomplete = vi,
     qr_metadata_pending = mp, qr_generation = gen, qr_total_size = ts\<rparr>"
proof -
  let ?page = "\<lparr>qr_total = tot, qr_items = map client_item its, qr_more = m, qr_volumes_incomplete = vi,
     qr_metadata_pending = mp, qr_generation = gen, qr_total_size = ts\<rparr>"
  have n: "unat (word_of_nat (length its) :: u32) = length its"
    using assms(2) by (simp add: unat_of_nat)
  have body: "body = u64_to_le tot @ u64_to_le gen @ [page_flags m vi mp ts] @
      u32_to_le (word_of_nat (length its)) @
      (case ts of None \<Rightarrow> [] | Some k \<Rightarrow> u64_to_le k) @ concat (map item_bytes its)"
    using assms(3) by (simp add: push_results_header_def)
  have "reads (rd_bind rd_u64 (\<lambda>tot. rd_bind rd_u64 (\<lambda>gen. rd_bind rd_u8 (\<lambda>flags. rd_bind rd_u32 (\<lambda>cnt.
      rd_bind (rd_when (flags AND FLAG_TOTAL_SIZE \<noteq> 0) rd_u64) (\<lambda>ts.
      rd_bind (rd_items (unat cnt)) (\<lambda>its. rd_return
        \<lparr>qr_total = tot, qr_items = its, qr_more = (flags AND FLAG_MORE \<noteq> 0),
         qr_volumes_incomplete = (flags AND FLAG_VOLUMES_INCOMPLETE \<noteq> 0),
         qr_metadata_pending = (flags AND FLAG_METADATA_PENDING \<noteq> 0),
         qr_generation = gen, qr_total_size = ts\<rparr>)))))) ) body ?page"
    unfolding body
    by (rule reads_bind [OF reads_u64], rule reads_bind [OF reads_u64], rule reads_bind [OF reads_u8],
        rule reads_bind [OF reads_u32], rule reads_bind [OF reads_when_u64], rule page_flags_bits,
        unfold n, rule reads_last [OF reads_items])
      (simp_all add: assms(1) page_flags_bits)
  from this [unfolded reads_def, rule_format, of "[]" "[]"] assms(4) show ?thesis
    by (simp add: decode_results_payload_def)
qed

lemma fold_push_item:
  "fold (\<lambda>it out. push_item out (raw_path_bytes it) (ri_is_dir it) (ri_size it) (ri_mtime_ft it)) its out =
   out @ concat (map (\<lambda>it. item_bytes (raw_path_bytes it, ri_is_dir it, ri_size it, ri_mtime_ft it)) its)"
proof (induction its arbitrary: out)
  case (Cons it its)
  then show ?case
    using push_item_append [of out "raw_path_bytes it" "ri_is_dir it" "ri_size it" "ri_mtime_ft it"]
    by (simp add: item_bytes_def)
qed simp

section \<open>Properties\<close>

text \<open>
  A page item as the daemon can send it: its path is a Rust string, and it carries code units
  exactly when the path had to be replaced by a lossy rendering of them.
\<close>

definition item_wf :: "result_item \<Rightarrow> bool" where
  "item_wf it \<longleftrightarrow>
    length (raw_path_bytes it) < 2 ^ 32 \<and> pred_option i64_ok (ri_mtime_ft it) \<and>
    (case ri_path_u16 it of
       None \<Rightarrow> utf8_valid (ri_path it)
     | Some units \<Rightarrow>
         snd (from_utf16 units []) \<and> ri_path it = to_string_lossy (fst (from_utf16 units [])))"

lemma client_item_of_wf:
  assumes "item_wf it"
  shows "client_item (raw_path_bytes it, ri_is_dir it, ri_size it, ri_mtime_ft it) = it"
  using assms
  by (cases it)
    (auto simp: item_wf_def client_item_def raw_path_bytes_def to_utf16_from_utf16 from_utf16_lone
      to_string_lossy_def split: option.splits)

lemma encoded_page:
  assumes "\<forall>it \<in> set (qr_items page). item_wf it"
    and "length (qr_items page) < 2 ^ 32"
    and "length (encode_results_payload page []) \<le> USIZE_MAX"
  shows "\<exists>body. encode_results_payload page [] = RESP_TAG_RESULTS # body \<and>
           decode_results_payload body = Inr page"
proof -
  let ?raws = "map (\<lambda>it. (raw_path_bytes it, ri_is_dir it, ri_size it, ri_mtime_ft it)) (qr_items page)"
  let ?h = "push_results_header [] (qr_total page) (qr_generation page) (qr_more page)
    (qr_volumes_incomplete page) (qr_metadata_pending page) (qr_total_size page)
    (word_of_nat (length ?raws))"
  have enc: "encode_results_payload page [] = ?h @ concat (map item_bytes ?raws)"
    by (simp add: encode_results_payload_def fold_push_item comp_def)
  then obtain body where body: "encode_results_payload page [] = RESP_TAG_RESULTS # body"
    by (simp add: push_results_header_def)
  have "\<forall>it \<in> set ?raws. raw_item_ok it"
    using assms(1) by (auto simp: raw_item_ok_def item_wf_def)
  moreover have "map client_item ?raws = qr_items page"
    using assms(1) by (simp add: comp_def client_item_of_wf map_idI)
  ultimately have "decode_results_payload body = Inr page"
    using decode_pushed [of ?raws "qr_total page" "qr_generation page" "qr_more page"
        "qr_volumes_incomplete page" "qr_metadata_pending page" "qr_total_size page" body]
      assms(2,3) body enc by simp
  with body show ?thesis by blast
qed

text \<open>
  C23. A page of results round-trips: what the client decodes from the encoded page is the
  page itself, every field of every item included.
\<close>

theorem results_round_trip:
  assumes "\<forall>it \<in> set (qr_items page). item_wf it"
    and "length (qr_items page) < 2 ^ 32"
    and "length (encode_results_payload page []) \<le> USIZE_MAX"
  shows "\<exists>body. encode_results_payload page [] = RESP_TAG_RESULTS # body \<and>
           decode_results_payload body = Inr page"
  using assms by (rule encoded_page)

definition sample_page :: query_results where
  "sample_page =
    \<lparr>qr_total = 2,
     qr_items =
       [\<lparr>ri_path = [0x43, 0x3A], ri_path_u16 = None, ri_size = Some 12, ri_mtime_ft = Some (-5),
         ri_is_dir = False\<rparr>,
        \<lparr>ri_path = [0xEF, 0xBF, 0xBD], ri_path_u16 = Some [0xD800], ri_size = None,
         ri_mtime_ft = None, ri_is_dir = True\<rparr>],
     qr_more = True, qr_volumes_incomplete = False, qr_metadata_pending = True,
     qr_generation = 0, qr_total_size = Some 12\<rparr>"

theorem results_round_trip_witness:
  "\<exists>body. encode_results_payload sample_page [] = RESP_TAG_RESULTS # body \<and>
     decode_results_payload body = Inr sample_page"
proof (rule results_round_trip)
  have lone: "from_utf16 [0xD800] [] = ([0xED, 0xA0, 0x80], True)"
    by (simp add: from_utf16_def is_high_def encode_code_point_def)
  have "to_string_lossy [0xED, 0xA0, 0x80] = [0xEF, 0xBF, 0xBD]"
    by code_simp
  with lone show "\<forall>it \<in> set (qr_items sample_page). item_wf it"
    by (simp add: sample_page_def item_wf_def raw_path_bytes_def i64_ok_def I64_MIN_def I64_MAX_def)
  show "length (encode_results_payload sample_page []) \<le> USIZE_MAX"
    by (simp add: encode_results_payload_def sample_page_def push_item_def push_results_header_def
        raw_path_bytes_def lone USIZE_MAX_def)
qed (simp add: sample_page_def)

text \<open>
  The header fix-up is exact: patching \<open>more\<close> and \<open>count\<close> into a page whose header was
  pushed with any placeholder values gives the bytes of a header pushed with the right ones,
  whatever items already follow.
\<close>

theorem patch_results_header_exact:
  "patch_results_header (push_results_header [] tot gen m0 vi mp ts cnt0 @ rest) m cnt =
     Some (push_results_header [] tot gen m vi mp ts cnt @ rest)"
proof -
  have flags: "(if m then page_flags m0 vi mp ts OR FLAG_MORE
      else page_flags m0 vi mp ts AND NOT FLAG_MORE) = page_flags m vi mp ts"
    by (simp add: page_flags_def flag_defs)
  define a where "a = RESP_TAG_RESULTS # u64_to_le tot @ u64_to_le gen"
  define c where "c = (case ts of None \<Rightarrow> [] | Some n \<Rightarrow> u64_to_le n) @ rest"
  have page: "push_results_header [] tot gen m' vi mp ts cnt' @ rest =
      a @ page_flags m' vi mp ts # u32_to_le cnt' @ c" for m' cnt'
    by (simp add: push_results_header_def a_def c_def)
  have a: "FLAGS_AT = length a" by (simp add: FLAGS_AT_def a_def)
  show ?thesis
    unfolding page patch_results_header_def COUNT_AT_def a
    by (simp add: idx_upd_append flags)
qed

end
