(* ===== verification/Proto.thy ===== *)
theory Proto
  imports Types Frame Results
begin

text \<open>
  \<open>goz-core/src/proto/types.rs\<close> and the message half of \<open>proto/frame.rs\<close>: requests,
  responses, and the tagged response frames (a binary page of results, or a JSON body). The JSON
  library is a parameter: \<open>to_json\<close> renders a message, \<open>from_json\<close> parses one or fails with an
  error of the library's own type.
\<close>

section \<open>Messages\<close>

definition PROTO_VERSION :: u16 where "PROTO_VERSION = 1"
definition MAX_CLIENT_FRAME :: u32 where "MAX_CLIENT_FRAME = push_bit 20 1"
definition MAX_SERVER_FRAME :: u32 where "MAX_SERVER_FRAME = push_bit 20 16"
definition PAGE_ROWS :: u32 where "PAGE_ROWS = 4096"

record query_request =
  q_query :: rstring
  q_scope :: "rstring option"
  q_sort :: sort_spec
  q_offset :: u32
  q_limit :: "u32 option"
  q_want_size :: bool
  q_want_mtime :: bool
  q_match_case :: bool
  q_want_total_size :: bool

datatype request =
    ReqHello u16 u16 rstring
  | Query query_request
  | ReqStatus

record mem_pair =
  mp_used :: u64
  mp_alloc :: u64

record volume_memory =
  vm_entries :: mem_pair
  vm_arena_raw :: mem_pair
  vm_arena_folded :: mem_pair
  vm_frn_map :: mem_pair
  vm_name_tables :: mem_pair
  vm_dir_children :: mem_pair
  vm_frn_map_kind :: rstring

record volume_status =
  vs_guid :: rstring
  vs_mounts :: "rstring list"
  vs_phase :: volume_phase
  vs_entries :: u64
  vs_generation :: u64
  vs_metadata_pending :: bool
  vs_journal_max_bytes :: "u64 option"
  vs_has_orphans :: bool
  vs_has_parent_cycle :: bool
  vs_names_waiting :: u64
  vs_placeholders_created :: u64
  vs_delete_of_unknown :: u64
  vs_stale_slots :: u64
  vs_link_reconciles_dropped :: u64
  vs_memory :: "volume_memory option"

record daemon_status =
  ds_volumes :: "volume_status list"
  ds_volumes_incomplete :: bool
  ds_process_working_set :: u64
  ds_process_private_bytes :: u64

datatype proto_error = BadQuery | Internal | PeTooLarge | Unsupported

datatype response =
    RespHello u16 rstring bool
  | RespResults query_results
  | RespStatus daemon_status
  | RespError proto_error rstring

section \<open>Messages as frames\<close>

definition encode_request :: "(request \<Rightarrow> u8 list) \<Rightarrow> request \<Rightarrow> u8 list \<Rightarrow> u8 list option" where
  "encode_request to_json req out = encode_frame (to_json req) out"

definition encode_response :: "(response \<Rightarrow> u8 list) \<Rightarrow> response \<Rightarrow> u8 list \<Rightarrow> u8 list option" where
  "encode_response to_json resp out = encode_frame (to_json resp) out"

definition decode_request :: "(u8 list \<Rightarrow> 'je + request) \<Rightarrow> u8 list \<Rightarrow> 'je + request" where
  "decode_request from_json frame = from_json frame"

definition decode_response :: "(u8 list \<Rightarrow> 'je + response) \<Rightarrow> u8 list \<Rightarrow> 'je + response" where
  "decode_response from_json frame = from_json frame"

datatype 'je resp_frame_error = Json 'je | Binary bin_error | UnknownTag u8 | EmptyFrame

definition response_payload :: "(response \<Rightarrow> u8 list) \<Rightarrow> response \<Rightarrow> u8 list" where
  "response_payload to_json resp =
    (case resp of
       RespResults page \<Rightarrow> encode_results_payload page []
     | _ \<Rightarrow> RESP_TAG_JSON # to_json resp)"

definition encode_response_frame ::
  "(response \<Rightarrow> u8 list) \<Rightarrow> response \<Rightarrow> u8 list \<Rightarrow> u8 list option" where
  "encode_response_frame to_json resp out = encode_frame (response_payload to_json resp) out"

definition decode_response_frame ::
  "(u8 list \<Rightarrow> 'je + response) \<Rightarrow> u8 list \<Rightarrow> 'je resp_frame_error + response" where
  "decode_response_frame from_json frame =
    (case frame of
       [] \<Rightarrow> Inl EmptyFrame
     | tag # body \<Rightarrow>
         if tag = RESP_TAG_JSON then
           (case from_json body of Inl e \<Rightarrow> Inl (Json e) | Inr r \<Rightarrow> Inr r)
         else if tag = RESP_TAG_RESULTS then
           (case decode_results_payload body of
              Inl e \<Rightarrow> Inl (Binary e)
            | Inr page \<Rightarrow> Inr (RespResults page))
         else Inl (UnknownTag tag))"

section \<open>Properties\<close>

definition page_wf :: "query_results \<Rightarrow> bool" where
  "page_wf page \<longleftrightarrow> (\<forall>it \<in> set (qr_items page). item_wf it) \<and> length (qr_items page) < 2 ^ 32"

lemma decode_page_payload:
  assumes "page_wf page" "length (encode_results_payload page []) \<le> USIZE_MAX"
  shows "decode_response_frame from_json (encode_results_payload page []) = Inr (RespResults page)"
  using assms encoded_page [of page]
  by (auto simp: decode_response_frame_def page_wf_def RESP_TAG_JSON_def RESP_TAG_RESULTS_def)

text \<open>
  C24. A response crosses the wire unchanged: if it is encoded as one tagged frame, cut into
  any chunks and fed to a client decoder, the client pops one frame and decodes the same
  response from it. For a control message this asks of the JSON library only that it reads
  back that message.
\<close>

theorem response_round_trip:
  fixes from_json :: "u8 list \<Rightarrow> 'je + response"
  assumes "encode_response_frame to_json resp [] = Some (concat cs)"
    and "length (response_payload to_json resp) \<le> unat MAX_SERVER_FRAME"
    and "from_json (to_json resp) = Inr resp"
    and "\<And>page. resp = RespResults page \<Longrightarrow> page_wf page"
  shows "\<exists>frame d. receive cs (decoder_new MAX_SERVER_FRAME) = Some ([frame], None, d) \<and>
           decoder_is_empty d \<and> decode_response_frame from_json frame = Inr resp"
proof -
  let ?p = "response_payload to_json resp"
  have "encode_frames [?p] [] = Some (concat cs)"
    using assms(1) by (simp add: encode_response_frame_def)
  then obtain d where "receive cs (decoder_new MAX_SERVER_FRAME) = Some ([?p], None, d)"
    "decoder_is_empty d"
    using receive_encoded [of "[?p]" MAX_SERVER_FRAME cs] assms(2) by auto
  moreover have "decode_response_frame from_json ?p = Inr resp"
  proof (cases resp)
    case (RespResults page)
    moreover have "length ?p \<le> USIZE_MAX"
      using assms(2) by (simp add: MAX_SERVER_FRAME_def USIZE_MAX_def)
    ultimately show ?thesis
      using decode_page_payload assms(4) by (simp add: response_payload_def)
  qed (use assms(3) in \<open>simp_all add: response_payload_def decode_response_frame_def\<close>)
  ultimately show ?thesis by blast
qed

theorem response_round_trip_witness:
  "\<exists>frame d. receive [[3, 0, 0, 0, 0], [7, 9]] (decoder_new MAX_SERVER_FRAME) = Some ([frame], None, d) \<and>
     decoder_is_empty d \<and>
     decode_response_frame (\<lambda>bs. if bs = [7, 9] then Inr (RespError BadQuery []) else Inl ()) frame =
       Inr (RespError BadQuery [])"
  by (rule response_round_trip [where to_json = "\<lambda>_. [7, 9]"])
    (simp_all add: encode_response_frame_def response_payload_def encode_frame_def u32_to_le_def
      le_bytes_numeral RESP_TAG_JSON_def MAX_SERVER_FRAME_def)

end
