(* ===== verification/Usn_Record.thy ===== *)
theory Usn_Record
  imports Types Bytes Wtf8
begin

text \<open>
  \<open>goz-core/src/usn/record.rs\<close>: the walk over the packed USN records of an ioctl output
  buffer. Offsets are those of the wire structures \<open>USN_RECORD_V2\<close> and \<open>USN_RECORD_V3\<close>; a
  panic (a slice out of range) is \<^const>\<open>None\<close>, a structural defect an \<open>Inl\<close>.
\<close>

section \<open>Reasons and records\<close>

definition USN_REASON_DATA_OVERWRITE :: u32 where "USN_REASON_DATA_OVERWRITE = 0x00000001"
definition USN_REASON_DATA_EXTEND :: u32 where "USN_REASON_DATA_EXTEND = 0x00000002"
definition USN_REASON_DATA_TRUNCATION :: u32 where "USN_REASON_DATA_TRUNCATION = 0x00000004"
definition USN_REASON_FILE_CREATE :: u32 where "USN_REASON_FILE_CREATE = 0x00000100"
definition USN_REASON_FILE_DELETE :: u32 where "USN_REASON_FILE_DELETE = 0x00000200"
definition USN_REASON_RENAME_OLD_NAME :: u32 where "USN_REASON_RENAME_OLD_NAME = 0x00001000"
definition USN_REASON_RENAME_NEW_NAME :: u32 where "USN_REASON_RENAME_NEW_NAME = 0x00002000"
definition USN_REASON_BASIC_INFO_CHANGE :: u32 where "USN_REASON_BASIC_INFO_CHANGE = 0x00008000"
definition USN_REASON_HARD_LINK_CHANGE :: u32 where "USN_REASON_HARD_LINK_CHANGE = 0x00010000"
definition USN_REASON_CLOSE :: u32 where "USN_REASON_CLOSE = 0x80000000"
definition FILE_ATTRIBUTE_DIRECTORY :: u32 where "FILE_ATTRIBUTE_DIRECTORY = 0x10"
definition LEADING_VALUE_LEN :: nat where "LEADING_VALUE_LEN = 8"

record parsed_usn_record =
  pu_major_version :: u16
  pu_frn :: frn
  pu_parent_frn :: frn
  pu_usn :: i64
  pu_timestamp_ft :: i64
  pu_reason :: u32
  pu_attributes :: u32
  pu_name :: "u8 list"
  pu_name_lossy :: bool

definition pu_is_dir :: "parsed_usn_record \<Rightarrow> bool" where
  "pu_is_dir r \<longleftrightarrow> pu_attributes r AND FILE_ATTRIBUTE_DIRECTORY \<noteq> 0"

datatype walk_error =
    ZeroRecordLength nat
  | RecordOverrun nat
  | TruncatedHeader nat
  | MalformedName nat

record skip_counts =
  sk_v4 :: u32
  sk_unknown_version :: u32

record enum_walk =
  ew_next_start_frn :: u64
  ew_records :: "parsed_usn_record list"
  ew_skipped :: skip_counts

record journal_walk =
  jw_next_usn :: i64
  jw_records :: "parsed_usn_record list"
  jw_skipped :: skip_counts

section \<open>Wire structures\<close>

text \<open>A field of \<open>n\<close> bytes at an offset of a structure.\<close>

definition fld :: "nat \<Rightarrow> nat \<Rightarrow> u8 list \<Rightarrow> u8 list" where
  "fld off n bs = take n (drop off bs)"

record raw_common_header =
  rc_record_length :: u32
  rc_major_version :: u16

definition raw_common_header_from_prefix :: "u8 list \<Rightarrow> raw_common_header option" where
  "raw_common_header_from_prefix bs =
    (if 8 \<le> length bs
     then Some \<lparr>rc_record_length = u32_from_le (fld 0 4 bs), rc_major_version = u16_from_le (fld 4 2 bs)\<rparr>
     else None)"

record raw_usn =
  rw_frn :: u64
  rw_parent_frn :: u64
  rw_usn :: i64
  rw_timestamp :: i64
  rw_reason :: u32
  rw_file_attributes :: u32
  rw_file_name_length :: u16
  rw_file_name_offset :: u16

definition RAW_V2_LEN :: nat where "RAW_V2_LEN = 60"
definition RAW_V3_LEN :: nat where "RAW_V3_LEN = 76"

definition raw_v2_from_prefix :: "u8 list \<Rightarrow> raw_usn option" where
  "raw_v2_from_prefix bs =
    (if RAW_V2_LEN \<le> length bs
     then Some
      \<lparr>rw_frn = u64_from_le (fld 8 8 bs), rw_parent_frn = u64_from_le (fld 16 8 bs),
       rw_usn = i64_from_le (fld 24 8 bs), rw_timestamp = i64_from_le (fld 32 8 bs),
       rw_reason = u32_from_le (fld 40 4 bs), rw_file_attributes = u32_from_le (fld 52 4 bs),
       rw_file_name_length = u16_from_le (fld 56 2 bs), rw_file_name_offset = u16_from_le (fld 58 2 bs)\<rparr>
     else None)"

definition raw_v3_from_prefix :: "u8 list \<Rightarrow> raw_usn option" where
  "raw_v3_from_prefix bs =
    (if RAW_V3_LEN \<le> length bs
     then Some
      \<lparr>rw_frn = u64_from_le (fld 8 8 bs), rw_parent_frn = u64_from_le (fld 24 8 bs),
       rw_usn = i64_from_le (fld 40 8 bs), rw_timestamp = i64_from_le (fld 48 8 bs),
       rw_reason = u32_from_le (fld 56 4 bs), rw_file_attributes = u32_from_le (fld 68 4 bs),
       rw_file_name_length = u16_from_le (fld 72 2 bs), rw_file_name_offset = u16_from_le (fld 74 2 bs)\<rparr>
     else None)"

section \<open>The walk\<close>

fun utf16_chunks :: "u8 list \<Rightarrow> u16 list" where
  "utf16_chunks (a # b # rest) = u16_from_le [a, b] # utf16_chunks rest"
| "utf16_chunks _ = []"

definition extract_name ::
  "u8 list \<Rightarrow> nat \<Rightarrow> nat \<Rightarrow> nat \<Rightarrow> nat \<Rightarrow> (walk_error + (u8 list \<times> bool)) option" where
  "extract_name rec name_off name_len min_name_off offset =
    (if name_len mod 2 \<noteq> 0 \<or> MAX_NAME_UTF16_BYTES < name_len then Some (Inl (MalformedName offset))
     else if name_off < min_name_off then Some (Inl (MalformedName offset))
     else
       (case checked_add name_off name_len of
          None \<Rightarrow> Some (Inl (MalformedName offset))
        | Some span_end \<Rightarrow>
            if length rec < span_end then Some (Inl (MalformedName offset))
            else do { span \<leftarrow> slice rec name_off span_end; Some (Inr (from_utf16 (utf16_chunks span) [])) }))"

definition record_of_raw :: "u16 \<Rightarrow> raw_usn \<Rightarrow> u8 list \<times> bool \<Rightarrow> parsed_usn_record" where
  "record_of_raw version hdr name =
    \<lparr>pu_major_version = version, pu_frn = rw_frn hdr, pu_parent_frn = rw_parent_frn hdr,
     pu_usn = rw_usn hdr, pu_timestamp_ft = rw_timestamp hdr, pu_reason = rw_reason hdr,
     pu_attributes = rw_file_attributes hdr, pu_name = fst name, pu_name_lossy = snd name\<rparr>"

definition parse_v2 :: "u8 list \<Rightarrow> nat \<Rightarrow> (walk_error + parsed_usn_record) option" where
  "parse_v2 rec offset =
    (case raw_v2_from_prefix rec of
       None \<Rightarrow> Some (Inl (TruncatedHeader offset))
     | Some hdr \<Rightarrow> do {
         r \<leftarrow> extract_name rec (unat (rw_file_name_offset hdr)) (unat (rw_file_name_length hdr)) RAW_V2_LEN offset;
         Some (try_then r (\<lambda>name. Inr (record_of_raw 2 hdr name)))
       })"

definition parse_v3 :: "u8 list \<Rightarrow> nat \<Rightarrow> (walk_error + parsed_usn_record) option" where
  "parse_v3 rec offset =
    (case raw_v3_from_prefix rec of
       None \<Rightarrow> Some (Inl (TruncatedHeader offset))
     | Some hdr \<Rightarrow> do {
         r \<leftarrow> extract_name rec (unat (rw_file_name_offset hdr)) (unat (rw_file_name_length hdr)) RAW_V3_LEN offset;
         Some (try_then r (\<lambda>name. Inr (record_of_raw 3 hdr name)))
       })"

text \<open>One record: what it adds to the records and to the skip counts.\<close>

definition walk_one ::
  "u8 list \<Rightarrow> u16 \<Rightarrow> nat \<Rightarrow> parsed_usn_record list \<times> skip_counts \<Rightarrow>
    (walk_error + (parsed_usn_record list \<times> skip_counts)) option" where
  "walk_one rec version off acc =
    (case acc of (records, skipped) \<Rightarrow>
      if version = 2 then do { r \<leftarrow> parse_v2 rec off; Some (try_then r (\<lambda>p. Inr (records @ [p], skipped))) }
      else if version = 3 then do { r \<leftarrow> parse_v3 rec off; Some (try_then r (\<lambda>p. Inr (records @ [p], skipped))) }
      else if version = 4 then Some (Inr (records, skipped\<lparr>sk_v4 := sk_v4 skipped + 1\<rparr>))
      else Some (Inr (records, skipped\<lparr>sk_unknown_version := sk_unknown_version skipped + 1\<rparr>)))"

definition next_multiple_of_8 :: "nat \<Rightarrow> nat option" where
  "next_multiple_of_8 n = (let m = (n + 7) div 8 * 8 in if m \<le> USIZE_MAX then Some m else None)"

lemma next_multiple_of_8_ge: "next_multiple_of_8 n = Some m \<Longrightarrow> n \<le> m"
  by (auto simp: next_multiple_of_8_def Let_def split: if_splits)

function walk_loop ::
  "u8 list \<Rightarrow> nat \<Rightarrow> parsed_usn_record list \<times> skip_counts \<Rightarrow>
    (walk_error + (parsed_usn_record list \<times> skip_counts)) option" where
  "walk_loop buf off acc =
    (if length buf < off + 8 then Some (Inr acc)
     else
      (case raw_common_header_from_prefix (drop off buf) of
         None \<Rightarrow> Some (Inl (TruncatedHeader off))
       | Some common \<Rightarrow>
           let rec_len = unat (rc_record_length common) in
           if rec_len = 0 then Some (Inl (ZeroRecordLength off))
           else
            (case checked_add off rec_len of
               None \<Rightarrow> Some (Inl (RecordOverrun off))
             | Some fin \<Rightarrow>
                 if length buf < fin then Some (Inl (RecordOverrun off))
                 else
                  (case slice buf off fin of
                     None \<Rightarrow> None
                   | Some rec \<Rightarrow>
                      (case walk_one rec (rc_major_version common) off acc of
                         None \<Rightarrow> None
                       | Some (Inl e) \<Rightarrow> Some (Inl e)
                       | Some (Inr acc') \<Rightarrow>
                          (case next_multiple_of_8 fin of
                             Some next \<Rightarrow> walk_loop buf next acc'
                           | None \<Rightarrow> Some (Inr acc')))))))"
  by pat_completeness auto
termination
  by (relation "measure (\<lambda>(buf, off, acc). length buf - off)")
    (auto simp: checked_add_def split: if_splits dest!: next_multiple_of_8_ge)

declare walk_loop.simps [simp del]

definition walk_records :: "u8 list \<Rightarrow> (walk_error + (parsed_usn_record list \<times> skip_counts)) option" where
  "walk_records buf =
     walk_loop buf LEADING_VALUE_LEN ([], \<lparr>sk_v4 = 0, sk_unknown_version = 0\<rparr>)"

definition walk_enum_buffer :: "u8 list \<Rightarrow> (walk_error + enum_walk) option" where
  "walk_enum_buffer buf =
    (if length buf < 8 then Some (Inl (TruncatedHeader 0))
     else do {
       r \<leftarrow> walk_records buf;
       Some (try_then r (\<lambda>(records, skipped). Inr
         \<lparr>ew_next_start_frn = u64_from_le (take 8 buf), ew_records = records, ew_skipped = skipped\<rparr>))
     })"

definition walk_journal_buffer :: "u8 list \<Rightarrow> (walk_error + journal_walk) option" where
  "walk_journal_buffer buf =
    (if length buf < 8 then Some (Inl (TruncatedHeader 0))
     else do {
       r \<leftarrow> walk_records buf;
       Some (try_then r (\<lambda>(records, skipped). Inr
         \<lparr>jw_next_usn = i64_from_le (take 8 buf), jw_records = records, jw_skipped = skipped\<rparr>))
     })"

section \<open>Wire records and what they mean\<close>

record wire_usn =
  wu_minor :: u16
  wu_frn :: u64
  wu_frn_high :: u64
  wu_parent :: u64
  wu_parent_high :: u64
  wu_usn :: i64
  wu_timestamp :: i64
  wu_reason :: u32
  wu_source :: u32
  wu_security :: u32
  wu_attributes :: u32
  wu_units :: "u16 list"
  wu_pad :: "u8 list"

datatype wire_record = WireV2 wire_usn | WireV3 wire_usn | WireOther u16 u16 "u8 list"

definition unit_bytes :: "u16 list \<Rightarrow> u8 list" where
  "unit_bytes units = concat (map u16_to_le units)"

definition wire_len :: "wire_record \<Rightarrow> nat" where
  "wire_len w = (case w of
      WireV2 u \<Rightarrow> 60 + 2 * length (wu_units u) + length (wu_pad u)
    | WireV3 u \<Rightarrow> 76 + 2 * length (wu_units u) + length (wu_pad u)
    | WireOther _ _ body \<Rightarrow> 8 + length body)"

definition wire_bytes :: "wire_record \<Rightarrow> u8 list" where
  "wire_bytes w = u32_to_le (word_of_nat (wire_len w)) @
    (case w of
      WireV2 u \<Rightarrow>
        u16_to_le 2 @ u16_to_le (wu_minor u) @ u64_to_le (wu_frn u) @ u64_to_le (wu_parent u) @
        i64_to_le (wu_usn u) @ i64_to_le (wu_timestamp u) @ u32_to_le (wu_reason u) @
        u32_to_le (wu_source u) @ u32_to_le (wu_security u) @ u32_to_le (wu_attributes u) @
        u16_to_le (word_of_nat (2 * length (wu_units u))) @ u16_to_le 60 @
        unit_bytes (wu_units u) @ wu_pad u
    | WireV3 u \<Rightarrow>
        u16_to_le 3 @ u16_to_le (wu_minor u) @ u64_to_le (wu_frn u) @ u64_to_le (wu_frn_high u) @
        u64_to_le (wu_parent u) @ u64_to_le (wu_parent_high u) @
        i64_to_le (wu_usn u) @ i64_to_le (wu_timestamp u) @ u32_to_le (wu_reason u) @
        u32_to_le (wu_source u) @ u32_to_le (wu_security u) @ u32_to_le (wu_attributes u) @
        u16_to_le (word_of_nat (2 * length (wu_units u))) @ u16_to_le 76 @
        unit_bytes (wu_units u) @ wu_pad u
    | WireOther version minor body \<Rightarrow> u16_to_le version @ u16_to_le minor @ body)"

definition wire_usn_ok :: "wire_usn \<Rightarrow> bool" where
  "wire_usn_ok u \<longleftrightarrow> length (wu_units u) \<le> 255 \<and> i64_ok (wu_usn u) \<and> i64_ok (wu_timestamp u)"

definition wire_ok :: "wire_record \<Rightarrow> bool" where
  "wire_ok w \<longleftrightarrow> wire_len w < 2 ^ 32 \<and> wire_len w mod 8 = 0 \<and>
    (case w of WireV2 u \<Rightarrow> wire_usn_ok u | WireV3 u \<Rightarrow> wire_usn_ok u
     | WireOther version _ _ \<Rightarrow> version \<noteq> 2 \<and> version \<noteq> 3)"

definition usn_of_wire :: "u16 \<Rightarrow> wire_usn \<Rightarrow> parsed_usn_record" where
  "usn_of_wire version u =
    \<lparr>pu_major_version = version, pu_frn = wu_frn u, pu_parent_frn = wu_parent u,
     pu_usn = wu_usn u, pu_timestamp_ft = wu_timestamp u, pu_reason = wu_reason u,
     pu_attributes = wu_attributes u, pu_name = fst (from_utf16 (wu_units u) []),
     pu_name_lossy = snd (from_utf16 (wu_units u) [])\<rparr>"

fun wire_meaning :: "wire_record \<Rightarrow> parsed_usn_record list \<times> skip_counts \<Rightarrow> parsed_usn_record list \<times> skip_counts" where
  "wire_meaning (WireV2 u) (rs, sk) = (rs @ [usn_of_wire 2 u], sk)"
| "wire_meaning (WireV3 u) (rs, sk) = (rs @ [usn_of_wire 3 u], sk)"
| "wire_meaning (WireOther version _ _) (rs, sk) =
    (rs, if version = 4 then sk\<lparr>sk_v4 := sk_v4 sk + 1\<rparr> else sk\<lparr>sk_unknown_version := sk_unknown_version sk + 1\<rparr>)"

lemma length_unit_bytes [simp]: "length (unit_bytes units) = 2 * length units"
  by (induction units) (simp_all add: unit_bytes_def)

lemma length_wire_bytes [simp]: "length (wire_bytes w) = wire_len w"
  by (cases w) (simp_all add: wire_bytes_def wire_len_def)

lemma utf16_chunks_unit_bytes: "utf16_chunks (unit_bytes units) = units"
proof (induction units)
  case (Cons u units)
  have "u16_to_le u = [u16_to_le u ! 0, u16_to_le u ! 1]"
    by (rule nth_equalityI) (auto simp: less_Suc_eq numeral_2_eq_2)
  then obtain a b where ab: "u16_to_le u = [a, b]" by blast
  then have "u16_from_le [a, b] = u" using u16_le.dec_enc [of u] by simp
  with Cons ab show ?case by (simp add: unit_bytes_def)
qed (simp add: unit_bytes_def)

lemma fld_append:
  "fld off n (a @ b) = (if length a \<le> off then fld (off - length a) n b
     else if off + n \<le> length a then fld off n a else take n (drop off a) @ take (n - (length a - off)) b)"
  by (simp add: fld_def)

lemma fld_all: "n = length a \<Longrightarrow> fld 0 n a = a"
  by (simp add: fld_def)

lemma common_header_wire:
  assumes "wire_ok w"
  shows "\<exists>v. raw_common_header_from_prefix (wire_bytes w @ rest) =
      Some \<lparr>rc_record_length = word_of_nat (wire_len w), rc_major_version = v\<rparr> \<and>
    v = (case w of WireV2 _ \<Rightarrow> 2 | WireV3 _ \<Rightarrow> 3 | WireOther version _ _ \<Rightarrow> version)"
proof -
  have "8 \<le> wire_len w" by (cases w) (simp_all add: wire_len_def)
  then show ?thesis
    by (cases w) (simp_all add: raw_common_header_from_prefix_def wire_bytes_def fld_append fld_all)
qed

lemma extract_name_wire:
  assumes "length units \<le> 255" "length hdr = m" "m \<le> 100" 
  shows "extract_name (hdr @ unit_bytes units @ pad) m (2 * length units) m off =
    Some (Inr (from_utf16 units []))"
  using assms
  by (simp add: extract_name_def MAX_NAME_UTF16_BYTES_def checked_add_def USIZE_MAX_def slice_def
      utf16_chunks_unit_bytes)

lemma parse_v2_wire:
  assumes "wire_usn_ok u"
  shows "parse_v2 (wire_bytes (WireV2 u)) off = Some (Inr (usn_of_wire 2 u))"
proof -
  have n: "unat (word_of_nat (2 * length (wu_units u)) :: u16) = 2 * length (wu_units u)"
    using assms by (subst unat_of_nat) (simp add: wire_usn_ok_def)
  define hdr where "hdr = take 60 (wire_bytes (WireV2 u))"
  have w: "wire_bytes (WireV2 u) = hdr @ unit_bytes (wu_units u) @ wu_pad u" "length hdr = 60"
    by (simp_all add: hdr_def wire_bytes_def wire_len_def)
  have "raw_v2_from_prefix (wire_bytes (WireV2 u)) = Some
     \<lparr>rw_frn = wu_frn u, rw_parent_frn = wu_parent u, rw_usn = wu_usn u, rw_timestamp = wu_timestamp u,
      rw_reason = wu_reason u, rw_file_attributes = wu_attributes u,
      rw_file_name_length = word_of_nat (2 * length (wu_units u)), rw_file_name_offset = 60\<rparr>"
    using assms
    by (simp add: raw_v2_from_prefix_def RAW_V2_LEN_def wire_bytes_def wire_len_def fld_append fld_all
        wire_usn_ok_def del: of_nat_mult of_nat_numeral)
  moreover have "extract_name (wire_bytes (WireV2 u)) 60 (2 * length (wu_units u)) 60 off =
      Some (Inr (from_utf16 (wu_units u) []))"
    unfolding w(1) using assms w(2) by (intro extract_name_wire) (simp_all add: wire_usn_ok_def)
  ultimately show ?thesis
    by (simp add: parse_v2_def RAW_V2_LEN_def n record_of_raw_def usn_of_wire_def del: of_nat_mult of_nat_numeral)
qed

lemma parse_v3_wire:
  assumes "wire_usn_ok u"
  shows "parse_v3 (wire_bytes (WireV3 u)) off = Some (Inr (usn_of_wire 3 u))"
proof -
  have n: "unat (word_of_nat (2 * length (wu_units u)) :: u16) = 2 * length (wu_units u)"
    using assms by (subst unat_of_nat) (simp add: wire_usn_ok_def)
  define hdr where "hdr = take 76 (wire_bytes (WireV3 u))"
  have w: "wire_bytes (WireV3 u) = hdr @ unit_bytes (wu_units u) @ wu_pad u" "length hdr = 76"
    by (simp_all add: hdr_def wire_bytes_def wire_len_def)
  have "raw_v3_from_prefix (wire_bytes (WireV3 u)) = Some
     \<lparr>rw_frn = wu_frn u, rw_parent_frn = wu_parent u, rw_usn = wu_usn u, rw_timestamp = wu_timestamp u,
      rw_reason = wu_reason u, rw_file_attributes = wu_attributes u,
      rw_file_name_length = word_of_nat (2 * length (wu_units u)), rw_file_name_offset = 76\<rparr>"
    using assms
    by (simp add: raw_v3_from_prefix_def RAW_V3_LEN_def wire_bytes_def wire_len_def fld_append fld_all
        wire_usn_ok_def del: of_nat_mult of_nat_numeral)
  moreover have "extract_name (wire_bytes (WireV3 u)) 76 (2 * length (wu_units u)) 76 off =
      Some (Inr (from_utf16 (wu_units u) []))"
    unfolding w(1) using assms w(2) by (intro extract_name_wire) (simp_all add: wire_usn_ok_def)
  ultimately show ?thesis
    by (simp add: parse_v3_def RAW_V3_LEN_def n record_of_raw_def usn_of_wire_def del: of_nat_mult of_nat_numeral)
qed

lemma walk_one_wire:
  assumes "wire_ok w"
  shows "walk_one (wire_bytes w) (case w of WireV2 _ \<Rightarrow> 2 | WireV3 _ \<Rightarrow> 3 | WireOther v _ _ \<Rightarrow> v) off acc =
    Some (Inr (wire_meaning w acc))"
  using assms
  by (cases acc; cases w)
    (simp_all add: walk_one_def parse_v2_wire parse_v3_wire wire_ok_def)

lemma next_multiple_of_8_aligned:
  assumes "n mod 8 = 0" "n \<le> USIZE_MAX"
  shows "next_multiple_of_8 n = Some n"
proof -
  obtain k where "n = 8 * k" using assms(1) by (metis mult_div_mod_eq add_0_right)
  with assms(2) show ?thesis by (simp add: next_multiple_of_8_def Let_def)
qed

lemma walk_loop_wire:
  assumes "\<forall>w \<in> set ws. wire_ok w"
    and "length pre mod 8 = 0" "length tail < 8"
    and "length (pre @ concat (map wire_bytes ws) @ tail) \<le> USIZE_MAX"
  shows "walk_loop (pre @ concat (map wire_bytes ws) @ tail) (length pre) acc =
    Some (Inr (fold wire_meaning ws acc))"
  using assms
proof (induction ws arbitrary: pre acc)
  case Nil
  then show ?case by (subst walk_loop.simps) simp
next
  case (Cons w ws)
  let ?buf = "pre @ wire_bytes w @ concat (map wire_bytes ws) @ tail"
  have ok: "wire_ok w" and len: "wire_len w < 2 ^ 32" "wire_len w mod 8 = 0" and pos: "8 \<le> wire_len w"
    using Cons.prems(1) by (simp_all add: wire_ok_def) (cases w, simp_all add: wire_len_def)
  have fin: "length pre + wire_len w \<le> USIZE_MAX" using Cons.prems(4) by simp
  have m: "(length pre + wire_len w) mod 8 = 0"
    using Cons.prems(2) len(2) by (simp add: mod_add_eq [symmetric])
  then have nx: "next_multiple_of_8 (length pre + wire_len w) = Some (length pre + wire_len w)"
    using fin by (rule next_multiple_of_8_aligned)
  obtain v where hdr: "raw_common_header_from_prefix (wire_bytes w @ concat (map wire_bytes ws) @ tail) =
      Some \<lparr>rc_record_length = word_of_nat (wire_len w), rc_major_version = v\<rparr>"
    and v: "v = (case w of WireV2 _ \<Rightarrow> 2 | WireV3 _ \<Rightarrow> 3 | WireOther version _ _ \<Rightarrow> version)"
    using common_header_wire [OF ok] by blast
  have n: "unat (word_of_nat (wire_len w) :: u32) = wire_len w"
    using len(1) by (subst unat_of_nat) simp
  have "walk_loop ?buf (length pre) acc = walk_loop ?buf (length pre + wire_len w) (wire_meaning w acc)"
    using pos fin walk_one_wire [OF ok, of "length pre" acc] v hdr n nx
    by (subst walk_loop.simps) (simp add: checked_add_def slice_def)
  also have "\<dots> = Some (Inr (fold wire_meaning ws (wire_meaning w acc)))"
    using Cons.IH [of "pre @ wire_bytes w" "wire_meaning w acc"] Cons.prems m by simp
  finally show ?case by simp
qed

section \<open>No input makes the walk panic\<close>

definition usn_name_ok :: "parsed_usn_record \<Rightarrow> bool" where
  "usn_name_ok p \<longleftrightarrow>
    (\<exists>units. length units \<le> 255 \<and> (pu_name p, pu_name_lossy p) = from_utf16 units [])"

lemma length_utf16_chunks: "length (utf16_chunks bs) = length bs div 2"
  by (induction bs rule: utf16_chunks.induct) simp_all

lemma extract_name_total:
  "\<exists>r. extract_name rec off len m at = Some r \<and>
     (\<forall>name. r = Inr name \<longrightarrow> (\<exists>units. length units \<le> 255 \<and> name = from_utf16 units []))"
proof -
  have "length (utf16_chunks span) \<le> 255" if "slice rec off e = Some span" "e = off + len" "len \<le> 510" for span e
    using slice_length [OF that(1)] that(2,3) by (simp add: length_utf16_chunks)
  then show ?thesis
    by (auto simp: extract_name_def checked_add_def MAX_NAME_UTF16_BYTES_def slice_in not_less
        split: option.splits)
qed

lemma parse_total:
  "\<exists>r. parse_v2 rec off = Some r \<and> (\<forall>p. r = Inr p \<longrightarrow> usn_name_ok p)"
  "\<exists>r. parse_v3 rec off = Some r \<and> (\<forall>p. r = Inr p \<longrightarrow> usn_name_ok p)"
proof -
  have *: "\<exists>r'. Option.bind (extract_name rec a b m off) (\<lambda>r. Some (try_then r (\<lambda>name. Inr (record_of_raw v hdr name)))) = Some r' \<and>
      (\<forall>p. r' = Inr p \<longrightarrow> usn_name_ok p)" for a b m v hdr
    using extract_name_total [of rec a b m off]
    by (fastforce simp: try_then_Inr_iff record_of_raw_def usn_name_ok_def)
  show "\<exists>r. parse_v2 rec off = Some r \<and> (\<forall>p. r = Inr p \<longrightarrow> usn_name_ok p)"
    "\<exists>r. parse_v3 rec off = Some r \<and> (\<forall>p. r = Inr p \<longrightarrow> usn_name_ok p)"
    by (simp_all add: parse_v2_def parse_v3_def * split: option.split)
qed

lemma walk_one_total:
  assumes "list_all usn_name_ok (fst acc)"
  shows "\<exists>r. walk_one rec v off acc = Some r \<and> (\<forall>acc'. r = Inr acc' \<longrightarrow> list_all usn_name_ok (fst acc'))"
  using assms parse_total [of rec off]
  by (cases acc) (auto simp: walk_one_def try_then_Inr_iff)

lemma walk_loop_total:
  "list_all usn_name_ok (fst acc) \<Longrightarrow>
    \<exists>r. walk_loop buf off acc = Some r \<and> (\<forall>acc'. r = Inr acc' \<longrightarrow> list_all usn_name_ok (fst acc'))"
proof (induction buf off acc rule: walk_loop.induct)
  case (1 buf off acc)
  consider (stop) "length buf < off + 8"
    | (rec) common where "\<not> length buf < off + 8" "raw_common_header_from_prefix (drop off buf) = Some common"
    by (cases "length buf < off + 8") (simp_all add: raw_common_header_from_prefix_def le_diff_conv2)
  then show ?case
  proof cases
    case stop
    then show ?thesis using 1(2) by (subst walk_loop.simps) (cases acc, simp)
  next
    case rec
    let ?fin = "off + unat (rc_record_length common)"
    show ?thesis
    proof (cases "unat (rc_record_length common) = 0 \<or> USIZE_MAX < ?fin \<or> length buf < ?fin")
      case True
      with rec show ?thesis by (subst walk_loop.simps) (auto simp: checked_add_def Let_def)
    next
      case False
      obtain r where r: "walk_one (take (?fin - off) (drop off buf)) (rc_major_version common) off acc = Some r"
        "\<forall>acc'. r = Inr acc' \<longrightarrow> list_all usn_name_ok (fst acc')"
        using walk_one_total [OF 1(2)] by blast
      have c: "checked_add off (unat (rc_record_length common)) = Some ?fin"
        using False by (simp add: checked_add_def)
      have s: "slice buf off ?fin = Some (take (?fin - off) (drop off buf))"
        using False by (simp add: slice_def)
      show ?thesis
      proof (cases r)
        case (Inl e)
        with rec False r c s show ?thesis by (subst walk_loop.simps) simp
      next
        case (Inr acc')
        show ?thesis
        proof (cases "next_multiple_of_8 ?fin")
          case None
          with Inr rec False r c s show ?thesis
            by (subst walk_loop.simps) (cases acc', simp)
        next
          case (Some m)
          have "\<exists>r. walk_loop buf m acc' = Some r \<and> (\<forall>acc'. r = Inr acc' \<longrightarrow> list_all usn_name_ok (fst acc'))"
            by (rule 1(1) [OF rec refl _ c _ s _ Inr Some]) (use False r Inr in auto)
          with Inr Some rec False r c s show ?thesis by (subst walk_loop.simps) simp
        qed
      qed
    qed
  qed
qed

lemma walk_records_total:
  "\<exists>r. walk_records buf = Some r \<and> (\<forall>acc. r = Inr acc \<longrightarrow> list_all usn_name_ok (fst acc))"
  unfolding walk_records_def by (rule walk_loop_total) simp

section \<open>Properties\<close>

text \<open>
  C26. No bytes make the journal walk panic or loop: it ends with an error or with records, and
  every name it hands on is the WTF-8 form of at most 255 code units.
\<close>

theorem walk_journal_total:
  "\<exists>r. walk_journal_buffer buf = Some r \<and>
     (case r of Inl _ \<Rightarrow> True | Inr w \<Rightarrow> list_all usn_name_ok (jw_records w))"
proof (cases "length buf < 8")
  case False
  obtain r where r: "walk_records buf = Some r" "\<forall>acc. r = Inr acc \<longrightarrow> list_all usn_name_ok (fst acc)"
    using walk_records_total by blast
  with False show ?thesis
    by (cases r) (auto simp: walk_journal_buffer_def)
qed (simp add: walk_journal_buffer_def)

text \<open>
  C27. The journal walk reads exactly what the volume wrote: for any sequence of well-formed V2,
  V3 and foreign records behind the leading value, with fewer than eight bytes after the last,
  it returns the next USN, the V2 and V3 records in order with their fields and names, and the
  number of records of each kind it skipped.
\<close>

theorem walk_journal_reads_wire:
  assumes "\<forall>w \<in> set ws. wire_ok w" "i64_ok next_usn" "length tail < 8"
    and "length (i64_to_le next_usn @ concat (map wire_bytes ws) @ tail) \<le> USIZE_MAX"
  shows "walk_journal_buffer (i64_to_le next_usn @ concat (map wire_bytes ws) @ tail) =
    Some (Inr (case fold wire_meaning ws ([], \<lparr>sk_v4 = 0, sk_unknown_version = 0\<rparr>) of
      (records, skipped) \<Rightarrow>
        \<lparr>jw_next_usn = next_usn, jw_records = records, jw_skipped = skipped\<rparr>))"
  using walk_loop_wire [of ws "i64_to_le next_usn" tail] assms
  by (simp add: walk_journal_buffer_def walk_records_def LEADING_VALUE_LEN_def split: prod.splits)

definition sample_usn :: wire_usn where
  "sample_usn = \<lparr>wu_minor = 0, wu_frn = 0x000100000000002A, wu_frn_high = 0, wu_parent = 5, wu_parent_high = 0,
     wu_usn = 100, wu_timestamp = 7, wu_reason = 0x100, wu_source = 0, wu_security = 0,
     wu_attributes = 0x20, wu_units = [0x61, 0x62], wu_pad = []\<rparr>"

theorem walk_journal_reads_wire_witness:
  "walk_journal_buffer (i64_to_le 200 @ concat (map wire_bytes [WireV2 sample_usn, WireOther 4 0 []]) @ [1, 2]) =
     Some (Inr \<lparr>jw_next_usn = 200, jw_records = [usn_of_wire 2 sample_usn],
       jw_skipped = \<lparr>sk_v4 = 1, sk_unknown_version = 0\<rparr>\<rparr>)"
  using walk_journal_reads_wire [of "[WireV2 sample_usn, WireOther 4 0 []]" 200 "[1, 2]"]
  by (simp add: wire_ok_def wire_usn_ok_def wire_len_def sample_usn_def i64_ok_def I64_MIN_def I64_MAX_def
      USIZE_MAX_def)

end
