(* ===== verification/Usn_Ops.thy ===== *)
theory Usn_Ops
  imports Usn_Record
begin

text \<open>
  \<open>goz-core/src/usn/ops.rs\<close> and \<open>usn/cursor.rs\<close>: a record's accumulated reason bits
  normalised into index operations, and the decision between replaying the journal from a
  saved cursor and a full rescan.
\<close>

section \<open>Operations of a record\<close>

datatype usn_op =
    Upsert (up_frn: frn) (up_parent: frn) (up_name: "u8 list") (up_name_lossy: bool) (up_is_dir: bool)
  | Delete frn
  | LinkDirty frn
  | StatDirty frn
  | RenameOldSeen frn

definition NAME_CHANGES :: u32 where
  "NAME_CHANGES =
    (USN_REASON_FILE_CREATE OR USN_REASON_FILE_DELETE OR USN_REASON_RENAME_OLD_NAME OR
     USN_REASON_RENAME_NEW_NAME OR USN_REASON_HARD_LINK_CHANGE)"

definition ops_for :: "parsed_usn_record \<Rightarrow> usn_op list" where
  "ops_for rec =
    (let reason = pu_reason rec in
     if reason AND USN_REASON_FILE_DELETE \<noteq> 0
     then [Delete (pu_frn rec), StatDirty (pu_parent_frn rec)]
     else
       (if reason AND (USN_REASON_RENAME_NEW_NAME OR USN_REASON_FILE_CREATE) \<noteq> 0
        then [Upsert (pu_frn rec) (pu_parent_frn rec) (pu_name rec) (pu_name_lossy rec) (pu_is_dir rec)]
        else []) @
       (if reason AND USN_REASON_RENAME_OLD_NAME \<noteq> 0 \<and>
           reason AND (USN_REASON_RENAME_NEW_NAME OR USN_REASON_FILE_CREATE OR USN_REASON_FILE_DELETE) = 0
        then [RenameOldSeen (pu_frn rec)] else []) @
       (if reason AND USN_REASON_HARD_LINK_CHANGE \<noteq> 0 then [LinkDirty (pu_frn rec)] else []) @
       (if reason AND (USN_REASON_FILE_CREATE OR USN_REASON_DATA_OVERWRITE OR USN_REASON_DATA_EXTEND OR
             USN_REASON_DATA_TRUNCATION OR USN_REASON_BASIC_INFO_CHANGE) \<noteq> 0
        then [StatDirty (pu_frn rec)] else []) @
       (if reason AND NAME_CHANGES \<noteq> 0 then [StatDirty (pu_parent_frn rec)] else []))"

section \<open>Cursor validation\<close>

record saved_cursor =
  sc_journal_id :: u64
  sc_next_usn :: i64

record journal_info =
  ji_journal_id :: u64
  ji_first_usn :: i64
  ji_next_usn :: i64
  ji_lowest_valid_usn :: i64
  ji_max_usn :: i64

datatype rescan_reason =
    JournalIdChanged
  | CursorPurged
  | JournalNotActive
  | JournalDeleteInProgress
  | EntryDeletedError
  | RestampDiscontinuity
  | ParserAnomaly
  | NoCursor
  | ReadsKeptFailing
  | VolumeReattached

datatype resync = InSync | FullRescan rescan_reason

definition validate_cursor :: "saved_cursor \<Rightarrow> journal_info \<Rightarrow> resync" where
  "validate_cursor saved live =
    (if sc_journal_id saved \<noteq> ji_journal_id live then FullRescan JournalIdChanged
     else if sc_next_usn saved < ji_first_usn live then FullRescan CursorPurged
     else if sc_next_usn saved < ji_lowest_valid_usn live then FullRescan RestampDiscontinuity
     else if ji_next_usn live < sc_next_usn saved then FullRescan RestampDiscontinuity
     else InSync)"

section \<open>Properties\<close>

text \<open>Bits of a mask: a test against a union of masks is a test against one of them.\<close>

lemma and_or_nonzero: "(r :: u32) AND (a OR b) \<noteq> 0 \<longleftrightarrow> r AND a \<noteq> 0 \<or> r AND b \<noteq> 0"
  by (auto simp: bit_eq_iff bit_simps)

lemma accumulated_nonzero: "(r :: u32) AND m \<noteq> 0 \<Longrightarrow> r AND r' = r \<Longrightarrow> r' AND m \<noteq> 0"
  by (metis and.assoc and_zero_eq)

lemma reason_bits:
  "r AND USN_REASON_FILE_CREATE \<noteq> 0 \<longleftrightarrow> bit r 8"
  "r AND USN_REASON_FILE_DELETE \<noteq> 0 \<longleftrightarrow> bit r 9"
  "r AND USN_REASON_RENAME_NEW_NAME \<noteq> 0 \<longleftrightarrow> bit r 13"
  using and_exp_eq_0_iff_not_bit [of r 8] and_exp_eq_0_iff_not_bit [of r 9]
    and_exp_eq_0_iff_not_bit [of r 13]
  by (simp_all add: USN_REASON_FILE_CREATE_def USN_REASON_FILE_DELETE_def USN_REASON_RENAME_NEW_NAME_def)

text \<open>
  Reason bits accumulate over an open-close window, and replaying the later record covers
  the earlier one: if a record's bits are contained in those of a later record of the same
  file with the same name and parent, and the later one is no delete, every operation of the
  earlier record that acts on the index is also an operation of the later one. A delete leaves
  nothing but the removal and the re-read of the folder.
\<close>

theorem ops_for_accumulates:
  assumes "pu_reason r AND reason' = pu_reason r"
  shows "set (ops_for r) - {RenameOldSeen (pu_frn r)} \<subseteq> set (ops_for (r\<lparr>pu_reason := reason'\<rparr>))
       \<or> ops_for (r\<lparr>pu_reason := reason'\<rparr>) = [Delete (pu_frn r), StatDirty (pu_parent_frn r)]"
proof (cases "reason' AND USN_REASON_FILE_DELETE = 0")
  case True
  then have "pu_reason r AND USN_REASON_FILE_DELETE = 0"
    using accumulated_nonzero assms by blast
  with True show ?thesis
    using accumulated_nonzero [OF _ assms]
    by (auto simp: ops_for_def Let_def pu_is_dir_def)
next
  case False
  then show ?thesis by (simp add: ops_for_def Let_def)
qed

theorem ops_for_accumulates_witness:
  "let r = usn_of_wire 2 sample_usn; r' = r\<lparr>pu_reason := 0x80000102\<rparr> in
    set (ops_for r) - {RenameOldSeen (pu_frn r)} \<subseteq> set (ops_for r') \<or>
    ops_for r' = [Delete (pu_frn r), StatDirty (pu_parent_frn r)]"
  using ops_for_accumulates [of "usn_of_wire 2 sample_usn" "0x80000102"]
  by (simp add: usn_of_wire_def sample_usn_def Let_def)

text \<open>
  An index operation is derived from a record only under the bits that allow it: the
  record's name is upserted exactly when it was created or took a new name and the file did not
  die, the file is removed exactly when it died, and no combination of bits does both.
\<close>

theorem ops_for_upsert_delete:
  "((\<exists>op \<in> set (ops_for r). is_Upsert op) \<longleftrightarrow>
     (bit (pu_reason r) 8 \<or> bit (pu_reason r) 13) \<and> \<not> bit (pu_reason r) 9) \<and>
   (Delete (pu_frn r) \<in> set (ops_for r) \<longleftrightarrow> bit (pu_reason r) 9)"
  by (auto simp: ops_for_def Let_def and_or_nonzero reason_bits)

text \<open>
  A saved cursor is replayed exactly when it belongs to the live journal and lies in its
  readable window; a journal that wrapped past it is always reported as purged.
\<close>

theorem validate_cursor_in_sync:
  "(validate_cursor saved live = InSync \<longleftrightarrow>
     sc_journal_id saved = ji_journal_id live \<and>
     max (ji_first_usn live) (ji_lowest_valid_usn live) \<le> sc_next_usn saved \<and>
     sc_next_usn saved \<le> ji_next_usn live) \<and>
   (validate_cursor saved live = FullRescan CursorPurged \<longleftrightarrow>
     sc_journal_id saved = ji_journal_id live \<and> sc_next_usn saved < ji_first_usn live)"
  by (auto simp: validate_cursor_def)

end
