(* ===== verification/Layout.thy ===== *)
theory Layout
  imports Usn_Record
begin

text \<open>
  \<open>goz-core/src/layout/parse.rs\<close>: the walk over a \<open>FSCTL_QUERY_FILE_LAYOUT\<close> output buffer. Every
  structure is read at an offset taken from the buffer; a defect is an \<open>Inl\<close> with the offsets
  involved, a panic (a slice out of range) is \<^const>\<open>None\<close>.
\<close>

section \<open>Parsed files\<close>

record layout_name =
  ln_parent_frn :: frn
  ln_name :: "u8 list"
  ln_name_lossy :: bool
  ln_dos_only :: bool

record layout_file =
  lf_frn :: frn
  lf_attributes :: u32
  lf_size :: "u64 option"
  lf_mtime_ft :: "i64 option"
  lf_names :: "layout_name list"

datatype layout_error =
    Truncated string nat nat nat
  | OffsetOutOfBounds string nat nat
  | OffsetCycle string nat u32 nat
  | OddUtf16Length string nat u32
  | NameTooLong string nat u32 u32
  | TooManyNames nat nat nat

definition FILE_LAYOUT_NAME_ENTRY_PRIMARY :: u32 where "FILE_LAYOUT_NAME_ENTRY_PRIMARY = 0x1"
definition FILE_LAYOUT_NAME_ENTRY_DOS :: u32 where "FILE_LAYOUT_NAME_ENTRY_DOS = 0x2"

definition UNNAMED_DATA_IDENTIFIER_UTF16LE :: "u8 list" where
  "UNNAMED_DATA_IDENTIFIER_UTF16LE =
    [0x3A, 0x00, 0x3A, 0x00, 0x24, 0x00, 0x44, 0x00, 0x41, 0x00, 0x54, 0x00, 0x41, 0x00]"

definition INFO_ENTRY_LEGACY_LEN :: nat where "INFO_ENTRY_LEGACY_LEN = 56"

section \<open>Reading at an offset\<close>

definition follow_offset :: "u8 list \<Rightarrow> nat \<Rightarrow> u32 \<Rightarrow> nat \<Rightarrow> string \<Rightarrow> layout_error + nat" where
  "follow_offset buf base rel min_rel what =
    (if unat rel < min_rel then Inl (OffsetCycle what base rel min_rel)
     else
      (case checked_add base (unat rel) of
         None \<Rightarrow> Inl (OffsetOutOfBounds what USIZE_MAX (length buf))
       | Some abs_off \<Rightarrow>
           if length buf \<le> abs_off then Inl (OffsetOutOfBounds what abs_off (length buf)) else Inr abs_off))"

definition read_bytes :: "u8 list \<Rightarrow> nat \<Rightarrow> nat \<Rightarrow> string \<Rightarrow> (layout_error + u8 list) option" where
  "read_bytes buf offset need what =
    (if need = 0 then Some (Inr [])
     else if length buf \<le> offset then Some (Inl (OffsetOutOfBounds what offset (length buf)))
     else
      (case checked_add offset need of
         None \<Rightarrow> Some (Inl (Truncated what offset need (length buf)))
       | Some fin \<Rightarrow>
           if length buf < fin then Some (Inl (Truncated what offset need (length buf)))
           else do { bs \<leftarrow> slice buf offset fin; Some (Inr bs) }))"

text \<open>
  The fixed-size views, field by field at their wire offsets. \<open>read_struct\<close> reads exactly the
  size of the view, so the view of the bytes always exists.
\<close>

record raw_output_header =
  ro_file_entry_count :: u32
  ro_first_file_offset :: u32

record raw_file_entry =
  rf_next_file_offset :: u32
  rf_file_attributes :: u32
  rf_file_reference_number :: u64
  rf_first_name_offset :: u32
  rf_first_stream_offset :: u32
  rf_extra_info_offset :: u32
  rf_extra_info_length :: u32

record raw_name_entry =
  rn_next_name_offset :: u32
  rn_flags :: u32
  rn_parent_file_reference_number :: u64
  rn_file_name_length :: u32

record raw_stream_entry =
  rs_next_stream_offset :: u32
  rs_end_of_file :: i64
  rs_stream_identifier_length :: u32

definition OUTPUT_HEADER_LEN :: nat where "OUTPUT_HEADER_LEN = 16"
definition FILE_ENTRY_LEN :: nat where "FILE_ENTRY_LEN = 40"
definition NAME_ENTRY_LEN :: nat where "NAME_ENTRY_LEN = 24"
definition INFO_PREFIX_LEN :: nat where "INFO_PREFIX_LEN = 24"
definition STREAM_ENTRY_LEN :: nat where "STREAM_ENTRY_LEN = 48"

definition view_output_header :: "u8 list \<Rightarrow> raw_output_header" where
  "view_output_header bs = \<lparr>ro_file_entry_count = u32_from_le (fld 0 4 bs), ro_first_file_offset = u32_from_le (fld 4 4 bs)\<rparr>"

definition view_file_entry :: "u8 list \<Rightarrow> raw_file_entry" where
  "view_file_entry bs =
    \<lparr>rf_next_file_offset = u32_from_le (fld 4 4 bs), rf_file_attributes = u32_from_le (fld 12 4 bs),
     rf_file_reference_number = u64_from_le (fld 16 8 bs), rf_first_name_offset = u32_from_le (fld 24 4 bs),
     rf_first_stream_offset = u32_from_le (fld 28 4 bs), rf_extra_info_offset = u32_from_le (fld 32 4 bs),
     rf_extra_info_length = u32_from_le (fld 36 4 bs)\<rparr>"

definition view_name_entry :: "u8 list \<Rightarrow> raw_name_entry" where
  "view_name_entry bs =
    \<lparr>rn_next_name_offset = u32_from_le (fld 0 4 bs), rn_flags = u32_from_le (fld 4 4 bs),
     rn_parent_file_reference_number = u64_from_le (fld 8 8 bs), rn_file_name_length = u32_from_le (fld 16 4 bs)\<rparr>"

definition view_info_last_write :: "u8 list \<Rightarrow> i64" where
  "view_info_last_write bs = i64_from_le (fld 16 8 bs)"

definition view_stream_entry :: "u8 list \<Rightarrow> raw_stream_entry" where
  "view_stream_entry bs =
    \<lparr>rs_next_stream_offset = u32_from_le (fld 4 4 bs), rs_end_of_file = i64_from_le (fld 24 8 bs),
     rs_stream_identifier_length = u32_from_le (fld 44 4 bs)\<rparr>"

definition read_struct :: "(u8 list \<Rightarrow> 'a) \<Rightarrow> nat \<Rightarrow> u8 list \<Rightarrow> nat \<Rightarrow> string \<Rightarrow> (layout_error + 'a) option" where
  "read_struct view len buf offset what =
    do { r \<leftarrow> read_bytes buf offset len what; Some (try_then r (\<lambda>bs. Inr (view bs))) }"

text \<open>\<open>?\<close> on a result that may also panic.\<close>

definition try_bind :: "('e + 'a) option \<Rightarrow> ('a \<Rightarrow> ('e + 'b) option) \<Rightarrow> ('e + 'b) option" where
  "try_bind r f = (case r of None \<Rightarrow> None | Some (Inl e) \<Rightarrow> Some (Inl e) | Some (Inr x) \<Rightarrow> f x)"

section \<open>The name chain\<close>

definition layout_name_of :: "raw_name_entry \<Rightarrow> u8 list \<Rightarrow> layout_name" where
  "layout_name_of raw name_bytes =
    (let (name, lossy) = from_utf16 (utf16_chunks name_bytes) []; flags = rn_flags raw
     in \<lparr>ln_parent_frn = rn_parent_file_reference_number raw, ln_name = name, ln_name_lossy = lossy,
         ln_dos_only = (flags AND FILE_LAYOUT_NAME_ENTRY_DOS \<noteq> 0 \<and> flags AND FILE_LAYOUT_NAME_ENTRY_PRIMARY = 0)\<rparr>)"

definition parse_name :: "u8 list \<Rightarrow> nat \<Rightarrow> (layout_error + (layout_name \<times> u32)) option" where
  "parse_name buf name_off =
    try_bind (read_struct view_name_entry NAME_ENTRY_LEN buf name_off ''FILE_LAYOUT_NAME_ENTRY'') (\<lambda>raw.
      let name_len = rn_file_name_length raw in
      if MAX_NAME_UTF16_BYTES < unat name_len
      then Some (Inl (NameTooLong ''FILE_LAYOUT_NAME_ENTRY.FileName'' name_off name_len (word_of_nat MAX_NAME_UTF16_BYTES)))
      else if unat name_len mod 2 \<noteq> 0
      then Some (Inl (OddUtf16Length ''FILE_LAYOUT_NAME_ENTRY.FileNameLength'' name_off name_len))
      else
        try_bind (read_bytes buf (name_off + NAME_ENTRY_LEN) (unat name_len) ''FILE_LAYOUT_NAME_ENTRY.FileName'') (\<lambda>name_bytes.
          Some (Inr (layout_name_of raw name_bytes, rn_next_name_offset raw))))"

lemma follow_offset_advances:
  "follow_offset buf base rel min_rel what = Inr off \<Longrightarrow> base + min_rel \<le> off \<and> off < length buf"
  by (auto simp: follow_offset_def checked_add_def split: if_splits option.splits)

function name_loop :: "u8 list \<Rightarrow> nat \<Rightarrow> layout_name list \<Rightarrow> (layout_error + layout_name list) option" where
  "name_loop buf name_off names =
    (case parse_name buf name_off of
       None \<Rightarrow> None
     | Some (Inl e) \<Rightarrow> Some (Inl e)
     | Some (Inr (n, next_off)) \<Rightarrow>
         if next_off = 0 then Some (Inr (names @ [n]))
         else
          (case follow_offset buf name_off next_off NAME_ENTRY_LEN ''FILE_LAYOUT_NAME_ENTRY.NextNameOffset'' of
             Inl e \<Rightarrow> Some (Inl e)
           | Inr off \<Rightarrow> name_loop buf off (names @ [n])))"
  by pat_completeness auto
termination
  by (relation "measure (\<lambda>(buf, off, names). length buf - off)")
    (auto simp: NAME_ENTRY_LEN_def dest!: follow_offset_advances)

declare name_loop.simps [simp del]

section \<open>The stream chain\<close>

definition is_unnamed_data_identifier :: "u8 list \<Rightarrow> bool" where
  "is_unnamed_data_identifier identifier \<longleftrightarrow> identifier = [] \<or> identifier = UNNAMED_DATA_IDENTIFIER_UTF16LE"

definition parse_stream :: "u8 list \<Rightarrow> bool \<Rightarrow> nat \<Rightarrow> u64 option \<Rightarrow> (layout_error + (u64 option \<times> u32)) option" where
  "parse_stream buf is_dir stream_off sz =
    try_bind (read_struct view_stream_entry STREAM_ENTRY_LEN buf stream_off ''STREAM_LAYOUT_ENTRY'') (\<lambda>raw.
      let id_len = rs_stream_identifier_length raw in
      if unat id_len mod 2 \<noteq> 0
      then Some (Inl (OddUtf16Length ''STREAM_LAYOUT_ENTRY.StreamIdentifierLength'' stream_off id_len))
      else
        try_bind (read_bytes buf (stream_off + STREAM_ENTRY_LEN) (unat id_len) ''STREAM_LAYOUT_ENTRY.StreamIdentifier'') (\<lambda>identifier.
          Some (Inr
            (if \<not> is_dir \<and> sz = None \<and> is_unnamed_data_identifier identifier
             then Some (u64_of (max (rs_end_of_file raw) 0)) else sz,
             rs_next_stream_offset raw))))"

function stream_loop :: "u8 list \<Rightarrow> bool \<Rightarrow> nat \<Rightarrow> u64 option \<Rightarrow> (layout_error + u64 option) option" where
  "stream_loop buf is_dir stream_off sz =
    (case parse_stream buf is_dir stream_off sz of
       None \<Rightarrow> None
     | Some (Inl e) \<Rightarrow> Some (Inl e)
     | Some (Inr (sz', next_off)) \<Rightarrow>
         if next_off = 0 then Some (Inr sz')
         else
          (case follow_offset buf stream_off next_off STREAM_ENTRY_LEN ''STREAM_LAYOUT_ENTRY.NextStreamOffset'' of
             Inl e \<Rightarrow> Some (Inl e)
           | Inr off \<Rightarrow> stream_loop buf is_dir off sz'))"
  by pat_completeness auto
termination
  by (relation "measure (\<lambda>(buf, is_dir, off, sz). length buf - off)")
    (auto simp: STREAM_ENTRY_LEN_def dest!: follow_offset_advances)

declare stream_loop.simps [simp del]

section \<open>One file and the whole buffer\<close>

definition parse_names :: "u8 list \<Rightarrow> nat \<Rightarrow> raw_file_entry \<Rightarrow> (layout_error + layout_name list) option" where
  "parse_names buf entry_off entry =
    (if rf_first_name_offset entry = 0 then Some (Inr [])
     else try_bind (Some (follow_offset buf entry_off (rf_first_name_offset entry) FILE_ENTRY_LEN ''FILE_LAYOUT_ENTRY.FirstNameOffset''))
       (\<lambda>name_off. name_loop buf name_off []))"

definition parse_mtime :: "u8 list \<Rightarrow> nat \<Rightarrow> raw_file_entry \<Rightarrow> (layout_error + i64 option) option" where
  "parse_mtime buf entry_off entry =
    (if rf_extra_info_offset entry = 0 then Some (Inr None)
     else try_bind (Some (follow_offset buf entry_off (rf_extra_info_offset entry) FILE_ENTRY_LEN ''FILE_LAYOUT_ENTRY.ExtraInfoOffset''))
       (\<lambda>info_off.
          let declared = unat (rf_extra_info_length entry);
              available = (if declared = 0 then INFO_ENTRY_LEGACY_LEN else declared)
          in if INFO_PREFIX_LEN \<le> available
             then try_bind (read_struct view_info_last_write INFO_PREFIX_LEN buf info_off ''FILE_LAYOUT_INFO_ENTRY'')
                    (\<lambda>t. Some (Inr (Some t)))
             else Some (Inr None)))"

definition parse_data_size :: "u8 list \<Rightarrow> bool \<Rightarrow> nat \<Rightarrow> raw_file_entry \<Rightarrow> (layout_error + u64 option) option" where
  "parse_data_size buf is_dir entry_off entry =
    (if rf_first_stream_offset entry = 0 then Some (Inr None)
     else try_bind (Some (follow_offset buf entry_off (rf_first_stream_offset entry) FILE_ENTRY_LEN ''FILE_LAYOUT_ENTRY.FirstStreamOffset''))
       (\<lambda>stream_off. stream_loop buf is_dir stream_off None))"

definition parse_file :: "u8 list \<Rightarrow> nat \<Rightarrow> raw_file_entry \<Rightarrow> (layout_error + layout_file) option" where
  "parse_file buf entry_off entry =
    (let attributes = rf_file_attributes entry;
         is_dir = (attributes AND FILE_ATTRIBUTE_DIRECTORY \<noteq> 0)
     in try_bind (parse_names buf entry_off entry) (\<lambda>names.
        try_bind (parse_mtime buf entry_off entry) (\<lambda>mtime.
        try_bind (parse_data_size buf is_dir entry_off entry) (\<lambda>sz.
          Some (Inr \<lparr>lf_frn = rf_file_reference_number entry, lf_attributes = attributes, lf_size = sz,
                     lf_mtime_ft = mtime, lf_names = names\<rparr>)))))"

definition parse_entry :: "u8 list \<Rightarrow> nat \<Rightarrow> (layout_error + (layout_file \<times> u32)) option" where
  "parse_entry buf entry_off =
    try_bind (read_struct view_file_entry FILE_ENTRY_LEN buf entry_off ''FILE_LAYOUT_ENTRY'') (\<lambda>entry.
    try_bind (parse_file buf entry_off entry) (\<lambda>file. Some (Inr (file, rf_next_file_offset entry))))"

function file_loop :: "u8 list \<Rightarrow> nat \<Rightarrow> nat \<Rightarrow> layout_file list \<Rightarrow> (layout_error + layout_file list) option" where
  "file_loop buf entry_off names files =
    (case parse_entry buf entry_off of
       None \<Rightarrow> None
     | Some (Inl e) \<Rightarrow> Some (Inl e)
     | Some (Inr (file, next_off)) \<Rightarrow>
        (let names' = names + length (lf_names file); max_names = length buf div NAME_ENTRY_LEN in
         if max_names < names' then Some (Inl (TooManyNames names' max_names (length buf)))
         else if next_off = 0 then Some (Inr (files @ [file]))
         else
          (case follow_offset buf entry_off next_off FILE_ENTRY_LEN ''FILE_LAYOUT_ENTRY.NextFileOffset'' of
             Inl e \<Rightarrow> Some (Inl e)
           | Inr off \<Rightarrow> file_loop buf off names' (files @ [file]))))"
  by pat_completeness auto
termination
  by (relation "measure (\<lambda>(buf, off, names, files). length buf - off)")
    (auto simp: FILE_ENTRY_LEN_def dest!: follow_offset_advances)

declare file_loop.simps [simp del]

definition walk_layout_buffer :: "u8 list \<Rightarrow> (layout_error + layout_file list) option" where
  "walk_layout_buffer buf =
    (if buf = [] then Some (Inr [])
     else
       try_bind (read_struct view_output_header OUTPUT_HEADER_LEN buf 0 ''QUERY_FILE_LAYOUT_OUTPUT'') (\<lambda>header.
         if ro_file_entry_count header = 0 then Some (Inr [])
         else
           try_bind (Some (follow_offset buf 0 (ro_first_file_offset header) OUTPUT_HEADER_LEN ''QUERY_FILE_LAYOUT_OUTPUT.FirstFileOffset''))
             (\<lambda>entry_off. file_loop buf entry_off 0 [])))"

section \<open>The walk ends\<close>

text \<open>A computation that neither panics nor diverges and whose result, if any, satisfies \<open>P\<close>.\<close>

definition returns :: "('a \<Rightarrow> bool) \<Rightarrow> ('e + 'a) option \<Rightarrow> bool" where
  "returns P r \<longleftrightarrow> (\<exists>s. r = Some s \<and> (\<forall>x. s = Inr x \<longrightarrow> P x))"

named_theorems returns_intros

lemma returns_simps [simp]: "returns P (Some (Inl e))" "returns P (Some (Inr x)) \<longleftrightarrow> P x" "\<not> returns P None"
  by (auto simp: returns_def)

lemma returns_mono: "returns P r \<Longrightarrow> (\<And>x. P x \<Longrightarrow> Q x) \<Longrightarrow> returns Q r"
  by (auto simp: returns_def)

lemma returns_bind [returns_intros]:
  "returns P r \<Longrightarrow> (\<And>x. P x \<Longrightarrow> returns Q (f x)) \<Longrightarrow> returns Q (try_bind r f)"
  by (auto simp: returns_def try_bind_def split: option.splits sum.splits)

lemma returns_read_bytes: "returns (\<lambda>bs. length bs = need \<and> (need = 0 \<or> off + need \<le> length buf)) (read_bytes buf off need what)"
  by (auto simp: read_bytes_def checked_add_def slice_def returns_def split: option.splits)

lemma returns_read_struct: "returns (\<lambda>x. 0 < len \<longrightarrow> off + len \<le> length buf) (read_struct view len buf off what)"
  using returns_read_bytes[of len off buf what]
  by (auto simp: read_struct_def returns_def try_then_Inr_iff split: bind_splits)

lemma returns_follow:
  "returns (\<lambda>o'. base + min_rel \<le> o' \<and> o' < length buf) (Some (follow_offset buf base rel min_rel what))"
  by (auto simp: returns_def dest: follow_offset_advances)

definition layout_name_ok :: "layout_name \<Rightarrow> bool" where
  "layout_name_ok n \<longleftrightarrow> (\<exists>units. length units \<le> 255 \<and> from_utf16 units [] = (ln_name n, ln_name_lossy n))"

lemma utf16_chunks_length: "length (utf16_chunks bs) = length bs div 2"
  by (induction bs rule: utf16_chunks.induct) auto

lemma returns_parse_name:
  "returns (\<lambda>(n, nx). layout_name_ok n \<and> off + NAME_ENTRY_LEN \<le> length buf) (parse_name buf off)"
  unfolding parse_name_def Let_def
proof (intro returns_bind[OF returns_read_struct])
  fix raw :: raw_name_entry assume "0 < NAME_ENTRY_LEN \<longrightarrow> off + NAME_ENTRY_LEN \<le> length buf"
  then have off: "off + NAME_ENTRY_LEN \<le> length buf" by (simp add: NAME_ENTRY_LEN_def)
  let ?len = "unat (rn_file_name_length raw)"
  have name: "layout_name_ok (layout_name_of raw bs)" if "length bs = ?len" "?len \<le> MAX_NAME_UTF16_BYTES" for bs
  proof -
    have "length (utf16_chunks bs) \<le> 255" using that by (simp add: utf16_chunks_length MAX_NAME_UTF16_BYTES_def)
    then show ?thesis by (auto simp: layout_name_ok_def layout_name_of_def Let_def split: prod.splits)
  qed
  have "returns (\<lambda>(n, nx). layout_name_ok n \<and> off + NAME_ENTRY_LEN \<le> length buf)
      (try_bind (read_bytes buf (off + NAME_ENTRY_LEN) ?len what)
        (\<lambda>name_bytes. Some (Inr (layout_name_of raw name_bytes, rn_next_name_offset raw))))"
    if "?len \<le> MAX_NAME_UTF16_BYTES" for what
    using off name that by (intro returns_bind[OF returns_read_bytes]) auto
  then show "returns (\<lambda>(n, nx). layout_name_ok n \<and> off + NAME_ENTRY_LEN \<le> length buf)
      (if MAX_NAME_UTF16_BYTES < ?len
       then Some (Inl (NameTooLong ''FILE_LAYOUT_NAME_ENTRY.FileName'' off (rn_file_name_length raw) (word_of_nat MAX_NAME_UTF16_BYTES)))
       else if ?len mod 2 \<noteq> 0
       then Some (Inl (OddUtf16Length ''FILE_LAYOUT_NAME_ENTRY.FileNameLength'' off (rn_file_name_length raw)))
       else try_bind (read_bytes buf (off + NAME_ENTRY_LEN) ?len ''FILE_LAYOUT_NAME_ENTRY.FileName'')
         (\<lambda>name_bytes. Some (Inr (layout_name_of raw name_bytes, rn_next_name_offset raw))))"
    by simp
qed

lemma returns_name_loop:
  "list_all layout_name_ok names \<Longrightarrow>
    returns (\<lambda>ns. list_all layout_name_ok ns) (name_loop buf off names)"
proof (induction buf off names rule: name_loop.induct)
  case (1 buf off names)
  obtain r where r: "parse_name buf off = Some r" "\<forall>n nx. r = Inr (n, nx) \<longrightarrow> layout_name_ok n"
    using returns_parse_name[of off buf] by (auto simp: returns_def)
  show ?case
  proof (cases r)
    case (Inr p)
    obtain n nx where p: "p = (n, nx)" by (cases p)
    have ok: "list_all layout_name_ok (names @ [n])" using 1(2) r Inr p by simp
    show ?thesis
    proof (cases "nx = 0 \<or> (\<exists>e. follow_offset buf off nx NAME_ENTRY_LEN ''FILE_LAYOUT_NAME_ENTRY.NextNameOffset'' = Inl e)")
      case True
      then show ?thesis using r(1) Inr p ok by (subst name_loop.simps) auto
    next
      case False
      then obtain o' where o': "nx \<noteq> 0" "follow_offset buf off nx NAME_ENTRY_LEN ''FILE_LAYOUT_NAME_ENTRY.NextNameOffset'' = Inr o'"
        by (metis sum.exhaust)
      have "returns (\<lambda>ns. list_all layout_name_ok ns) (name_loop buf o' (names @ [n]))"
        using 1(1)[OF r(1) Inr p[symmetric] o' ok] by simp
      then show ?thesis using r(1) Inr p o' by (subst name_loop.simps) simp
    qed
  qed (use r in \<open>subst name_loop.simps, simp\<close>)
qed

lemma returns_parse_stream:
  "(is_dir \<longrightarrow> sz = None) \<Longrightarrow> returns (\<lambda>(sz', nx). is_dir \<longrightarrow> sz' = None) (parse_stream buf is_dir off sz)"
  unfolding parse_stream_def Let_def
  by (intro returns_bind[OF returns_read_struct])
    (auto intro!: returns_bind[OF returns_read_bytes])

lemma returns_stream_loop:
  "(is_dir \<longrightarrow> sz = None) \<Longrightarrow> returns (\<lambda>sz'. is_dir \<longrightarrow> sz' = None) (stream_loop buf is_dir off sz)"
proof (induction buf is_dir off sz rule: stream_loop.induct)
  case (1 buf is_dir off sz)
  obtain r where r: "parse_stream buf is_dir off sz = Some r" "\<forall>sz' nx. r = Inr (sz', nx) \<longrightarrow> is_dir \<longrightarrow> sz' = None"
    using returns_parse_stream[OF 1(2), of buf off] by (auto simp: returns_def)
  show ?case
  proof (cases r)
    case (Inr p)
    obtain sz' nx where p: "p = (sz', nx)" by (cases p)
    show ?thesis
    proof (cases "nx = 0 \<or> (\<exists>e. follow_offset buf off nx STREAM_ENTRY_LEN ''STREAM_LAYOUT_ENTRY.NextStreamOffset'' = Inl e)")
      case True
      then show ?thesis using r Inr p by (subst stream_loop.simps) auto
    next
      case False
      then obtain o' where o': "nx \<noteq> 0" "follow_offset buf off nx STREAM_ENTRY_LEN ''STREAM_LAYOUT_ENTRY.NextStreamOffset'' = Inr o'"
        by (metis sum.exhaust)
      have "returns (\<lambda>sz'. is_dir \<longrightarrow> sz' = None) (stream_loop buf is_dir o' sz')"
        using 1(1)[OF r(1) Inr p[symmetric] o'] r(2) Inr p by simp
      then show ?thesis using r(1) Inr p o' by (subst stream_loop.simps) simp
    qed
  qed (use r in \<open>subst stream_loop.simps, simp\<close>)
qed

definition layout_file_ok :: "layout_file \<Rightarrow> bool" where
  "layout_file_ok f \<longleftrightarrow>
    list_all layout_name_ok (lf_names f) \<and> (lf_attributes f AND FILE_ATTRIBUTE_DIRECTORY \<noteq> 0 \<longrightarrow> lf_size f = None)"

lemma returns_parse_file: "returns layout_file_ok (parse_file buf off entry)"
proof -
  have names: "returns (list_all layout_name_ok) (parse_names buf off entry)"
    by (auto simp: parse_names_def intro!: returns_bind[OF returns_follow] returns_name_loop)
  have mtime: "returns (\<lambda>_. True) (parse_mtime buf off entry)"
    by (auto simp: parse_mtime_def Let_def intro!: returns_bind[OF returns_follow] returns_bind[OF returns_read_struct])
  have sz: "returns (\<lambda>sz. is_dir \<longrightarrow> sz = None) (parse_data_size buf is_dir off entry)" for is_dir
    by (auto simp: parse_data_size_def intro!: returns_bind[OF returns_follow] returns_stream_loop)
  show ?thesis
    unfolding parse_file_def Let_def
    by (intro returns_bind[OF names] returns_bind[OF mtime] returns_bind[OF sz]) (auto simp: layout_file_ok_def)
qed

lemma returns_parse_entry:
  "returns (\<lambda>(f, nx). layout_file_ok f \<and> off + FILE_ENTRY_LEN \<le> length buf) (parse_entry buf off)"
  unfolding parse_entry_def
  by (intro returns_bind[OF returns_read_struct] returns_bind[OF returns_parse_file]) (auto simp: FILE_ENTRY_LEN_def)

definition layout_files_ok :: "u8 list \<Rightarrow> layout_file list \<Rightarrow> bool" where
  "layout_files_ok buf fs \<longleftrightarrow>
    list_all layout_file_ok fs \<and> (\<Sum>f\<leftarrow>fs. length (lf_names f)) \<le> length buf div NAME_ENTRY_LEN"

lemma returns_file_loop:
  "layout_files_ok buf files \<Longrightarrow> names = (\<Sum>f\<leftarrow>files. length (lf_names f)) \<Longrightarrow> length files * FILE_ENTRY_LEN \<le> off \<Longrightarrow>
    returns (\<lambda>fs. layout_files_ok buf fs \<and> length fs * FILE_ENTRY_LEN \<le> length buf) (file_loop buf off names files)"
proof (induction buf off names files rule: file_loop.induct)
  case (1 buf off names files)
  obtain r where r: "parse_entry buf off = Some r"
    "\<forall>f nx. r = Inr (f, nx) \<longrightarrow> layout_file_ok f \<and> off + FILE_ENTRY_LEN \<le> length buf"
    using returns_parse_entry[of off buf] by (auto simp: returns_def)
  show ?case
  proof (cases r)
    case (Inr p)
    obtain f nx where p: "p = (f, nx)" by (cases p)
    let ?names = "names + length (lf_names f)"
    show ?thesis
    proof (cases "length buf div NAME_ENTRY_LEN < ?names")
      case True
      then show ?thesis using r(1) Inr p by (subst file_loop.simps) (simp add: Let_def)
    next
      case False
      have ok: "layout_files_ok buf (files @ [f])" "?names = (\<Sum>f\<leftarrow>files @ [f]. length (lf_names f))"
        "length (files @ [f]) * FILE_ENTRY_LEN \<le> off + FILE_ENTRY_LEN" "off + FILE_ENTRY_LEN \<le> length buf"
        using 1(2,3,4) r(2) Inr p False by (simp_all add: layout_files_ok_def)
      show ?thesis
      proof (cases "nx = 0 \<or> (\<exists>e. follow_offset buf off nx FILE_ENTRY_LEN ''FILE_LAYOUT_ENTRY.NextFileOffset'' = Inl e)")
        case True
        then show ?thesis using r(1) Inr p ok False by (subst file_loop.simps) (auto simp: Let_def)
      next
        case nx: False
        then obtain o' where o': "nx \<noteq> 0" "follow_offset buf off nx FILE_ENTRY_LEN ''FILE_LAYOUT_ENTRY.NextFileOffset'' = Inr o'"
          by (metis sum.exhaust)
        have "length (files @ [f]) * FILE_ENTRY_LEN \<le> o'" using ok(3) follow_offset_advances[OF o'(2)] by simp
        from 1(1)[OF r(1) Inr p[symmetric] refl refl False o' ok(1,2) this]
        show ?thesis using r(1) Inr p o' False by (subst file_loop.simps) (simp add: Let_def)
      qed
    qed
  qed (use r in \<open>subst file_loop.simps, simp\<close>)
qed

text \<open>
  C25. No bytes make the layout walk panic or loop. When it returns files, there are at most one
  per 40 bytes of the buffer and together they carry at most one name per 24 bytes, every name is
  the WTF-8 form of at most 255 code units, and no directory has a size.
\<close>

theorem walk_layout_total:
  "\<exists>r. walk_layout_buffer buf = Some r \<and>
    (case r of Inl _ \<Rightarrow> True
     | Inr fs \<Rightarrow> list_all layout_file_ok fs \<and> (\<Sum>f\<leftarrow>fs. length (lf_names f)) * 24 \<le> length buf \<and> length fs * 40 \<le> length buf)"
proof -
  have "layout_files_ok buf []" by (simp add: layout_files_ok_def)
  then have loop: "returns (\<lambda>fs. layout_files_ok buf fs \<and> length fs * FILE_ENTRY_LEN \<le> length buf) (file_loop buf off 0 [])" for off
    by (intro returns_file_loop) simp_all
  have "returns (\<lambda>fs. layout_files_ok buf fs \<and> length fs * FILE_ENTRY_LEN \<le> length buf) (walk_layout_buffer buf)"
    unfolding walk_layout_buffer_def
    by (auto simp: layout_files_ok_def[of _ "[]"] intro!: returns_bind[OF returns_read_struct] returns_bind[OF returns_follow] loop)
  then obtain r where r: "walk_layout_buffer buf = Some r"
    "\<forall>fs. r = Inr fs \<longrightarrow> layout_files_ok buf fs \<and> length fs * FILE_ENTRY_LEN \<le> length buf"
    by (auto simp: returns_def)
  have "n * 24 \<le> length buf" if "n \<le> length buf div NAME_ENTRY_LEN" for n :: nat
    using that div_times_less_eq_dividend[of "length buf" 24] by (simp add: NAME_ENTRY_LEN_def)
  with r show ?thesis by (cases r) (auto simp: layout_files_ok_def FILE_ENTRY_LEN_def)
qed

end
