(* ===== verification/Frn_Map.thy ===== *)
theory Frn_Map
  imports Types "HOL-Library.AList"
begin

text \<open>
  \<open>FrnMap\<close> of \<open>goz-core/src/index/store.rs\<close>: the map from MFT record numbers to entry
  indices, backed by a vector or a hash map, with its switches between the two. The hash map is an
  association list; its allocated capacity, which only the decision to switch reads, is an
  argument.
\<close>

section \<open>The interface\<close>

text \<open>What the index relies on of the map from record numbers to entries.\<close>

locale record_map =
  fixes ok :: "'m \<Rightarrow> bool"
    and get :: "'m \<Rightarrow> u64 \<Rightarrow> entry_idx option"
    and set_rec :: "u64 \<Rightarrow> entry_idx \<Rightarrow> 'm \<Rightarrow> 'm"
    and remove_rec :: "u64 \<Rightarrow> 'm \<Rightarrow> 'm"
  assumes set_ok: "ok m \<Longrightarrow> i \<noteq> NIL \<Longrightarrow> ok (set_rec r i m)"
    and remove_ok: "ok m \<Longrightarrow> ok (remove_rec r m)"
    and get_set: "ok m \<Longrightarrow> i \<noteq> NIL \<Longrightarrow> get (set_rec r i m) = (get m)(r \<mapsto> i)"
    and get_remove: "ok m \<Longrightarrow> get (remove_rec r m) = (get m)(r := None)"
begin

lemma replace:
  assumes "ok m" "i \<noteq> NIL"
  shows "get (set_rec r i (remove_rec r m)) = get (set_rec r i m)"
  using assms by (simp add: get_set get_remove remove_ok)

lemma get_set_list:
  assumes "ok m" "\<forall>(r, i) \<in> set rs. i \<noteq> NIL"
  shows "ok (fold (\<lambda>(r, i). set_rec r i) rs m) \<and>
    get (fold (\<lambda>(r, i). set_rec r i) rs m) = get m ++ map_of (rev rs)"
  using assms
proof (induction rs arbitrary: m)
  case (Cons p rs)
  obtain r i where p: "p = (r, i)" by (cases p)
  have "ok (set_rec r i m)" using Cons.prems p set_ok by auto
  with Cons.IH [of "set_rec r i m"] Cons.prems p show ?case
    by (auto simp: get_set map_add_def fun_eq_iff split: option.splits)
qed simp

end

section \<open>Model\<close>

datatype frn_map = Dense "entry_idx list" | Sparse "(u64 \<times> entry_idx) list"

definition DENSE_GROWTH_SLACK :: nat where "DENSE_GROWTH_SLACK = 65536"

definition frn_map_sparse :: frn_map where "frn_map_sparse = Sparse []"

definition frn_map_dense :: "nat \<Rightarrow> frn_map" where
  "frn_map_dense cap = Dense (replicate cap NIL)"

fun frn_get :: "frn_map \<Rightarrow> u64 \<Rightarrow> entry_idx option" where
  "frn_get (Dense v) r = (if unat r < length v \<and> v ! unat r \<noteq> NIL then Some (v ! unat r) else None)"
| "frn_get (Sparse m) r = map_of m r"

text \<open>The records of a dense map, in record order.\<close>

definition dense_records :: "entry_idx list \<Rightarrow> (u64 \<times> entry_idx) list" where
  "dense_records v =
     map (\<lambda>(r, i). (word_of_nat r, i)) (filter (\<lambda>(r, i). i \<noteq> NIL) (enumerate 0 v))"

text \<open>The hash map collected from a sequence of pairs.\<close>

definition collect_map :: "(u64 \<times> entry_idx) list \<Rightarrow> (u64 \<times> entry_idx) list" where
  "collect_map ps = fold (\<lambda>(r, i). AList.update r i) ps []"

definition frn_set :: "u64 \<Rightarrow> entry_idx \<Rightarrow> frn_map \<Rightarrow> frn_map" where
  "frn_set r i m =
    (let m = (case m of
                Dense v \<Rightarrow>
                  if length v * 2 + DENSE_GROWTH_SLACK < unat r
                  then Sparse (collect_map (dense_records v)) else m
              | Sparse _ \<Rightarrow> m) in
     case m of
       Dense v \<Rightarrow>
         (let v = (if length v \<le> unat r then v @ replicate (unat r + 1 - length v) NIL else v)
          in Dense (v[unat r := i]))
     | Sparse s \<Rightarrow> Sparse (AList.update r i s))"

fun frn_remove :: "u64 \<Rightarrow> frn_map \<Rightarrow> frn_map" where
  "frn_remove r (Dense v) = (if unat r < length v then Dense (v[unat r := NIL]) else Dense v)"
| "frn_remove r (Sparse m) = Sparse (AList.delete r m)"

text \<open>A bucket is a padded pair and a control byte, 17 bytes; an index is 4 bytes.\<close>

definition densify_if_smaller :: "nat \<Rightarrow> frn_map \<Rightarrow> frn_map" where
  "densify_if_smaller cap m =
    (case m of
       Dense _ \<Rightarrow> m
     | Sparse s \<Rightarrow>
        if s = [] then m
        else
          (let mx = Max (set (map (unat \<circ> fst) s));
               buckets = next_power_of_two (cap * 8 div 7)
           in if (mx + 1) * 4 < buckets * 17
              then Dense (fold (\<lambda>(r, i) v. v[unat r := i]) s (replicate (mx + 1) NIL))
              else m))"

definition frn_map_kind :: "frn_map \<Rightarrow> string" where
  "frn_map_kind m = (case m of Dense _ \<Rightarrow> ''dense'' | Sparse _ \<Rightarrow> ''sparse'')"

section \<open>Both backings are the same map\<close>

definition frn_map_ok :: "frn_map \<Rightarrow> bool" where
  "frn_map_ok m \<longleftrightarrow>
    (case m of Dense _ \<Rightarrow> True
     | Sparse s \<Rightarrow> distinct (map fst s) \<and> (\<forall>r. map_of s r \<noteq> Some NIL))"

lemma unat_eq_iff: "unat a = unat b \<longleftrightarrow> a = b" for a b :: "'a::len word"
  by (simp only: word_unat_eq_iff)

lemma map_of_collect: "map_of (collect_map ps) = map_of (rev ps)"
proof -
  have "map_of (fold (\<lambda>(r, i). AList.update r i) ps m) = map_of m ++ map_of (rev ps)" for m :: "(u64 \<times> nat) list"
    by (induction ps arbitrary: m) (auto simp: update_conv' map_add_def fun_eq_iff split: option.splits)
  then show ?thesis by (simp add: collect_map_def)
qed

lemma sparse_update_ok:
  assumes "frn_map_ok (Sparse m)" "i \<noteq> NIL"
  shows "frn_map_ok (Sparse (AList.update r i m))"
  using assms
  by (auto simp: frn_map_ok_def distinct_update update_conv')

lemma collect_ok:
  "\<forall>(r, i) \<in> set ps. i \<noteq> NIL \<Longrightarrow> frn_map_ok (Sparse (collect_map ps))"
proof -
  have *: "frn_map_ok (Sparse m) \<Longrightarrow> \<forall>(r, i) \<in> set ps. i \<noteq> NIL \<Longrightarrow>
      frn_map_ok (Sparse (fold (\<lambda>(r, i). AList.update r i) ps m))" for m
  proof (induction ps arbitrary: m)
    case (Cons p ps)
    obtain r i where p: "p = (r, i)" by (cases p)
    have "frn_map_ok (Sparse (AList.update r i m))"
      using Cons.prems p sparse_update_ok by simp
    with Cons p show ?case by simp
  qed simp
  then show "\<forall>(r, i) \<in> set ps. i \<noteq> NIL \<Longrightarrow> frn_map_ok (Sparse (collect_map ps))"
    using * [of "[]"] by (simp add: collect_map_def frn_map_ok_def)
qed

lemma dense_records_mem:
  assumes "length v \<le> 2 ^ 64"
  shows "(r, i) \<in> set (dense_records v) \<longleftrightarrow> unat r < length v \<and> v ! unat r = i \<and> i \<noteq> NIL"
proof -
  have *: "unat (word_of_nat k :: u64) = k" if "k < length v" for k
    using that assms by (simp add: unat_of_nat)
  have "(r, i) \<in> set (dense_records v) \<longleftrightarrow> (\<exists>k < length v. r = word_of_nat k \<and> i = v ! k \<and> i \<noteq> NIL)"
    by (auto simp: dense_records_def in_set_enumerate_eq image_iff)
  also have "\<dots> \<longleftrightarrow> unat r < length v \<and> v ! unat r = i \<and> i \<noteq> NIL"
    using * by (auto intro!: exI [of _ "unat r"])
  finally show ?thesis .
qed

lemma dense_records_keys:
  assumes "length v \<le> 2 ^ 64"
  shows "distinct (map fst (dense_records v))"
proof -
  have inj: "inj_on (word_of_nat :: nat \<Rightarrow> u64) {..<length v}"
  proof (rule inj_onI)
    fix a b assume ab: "a \<in> {..<length v}" "b \<in> {..<length v}" "(word_of_nat a :: u64) = word_of_nat b"
    have "unat (word_of_nat a :: u64) = a" "unat (word_of_nat b :: u64) = b"
      using ab(1,2) assms by (simp_all add: unat_of_nat)
    with ab(3) show "a = b" by metis
  qed
  define ks where "ks = map fst (filter (\<lambda>(r, i). i \<noteq> NIL) (enumerate 0 v))"
  have "map fst (dense_records v) = map word_of_nat ks"
    by (simp add: dense_records_def ks_def split_beta)
  moreover have "distinct ks" unfolding ks_def by (rule distinct_map_filter) simp
  moreover have "set ks \<subseteq> {..<length v}" by (auto simp: ks_def in_set_enumerate_eq)
  ultimately show ?thesis using inj by (simp add: distinct_map inj_on_subset)
qed

lemma map_of_dense_records:
  assumes "length v \<le> 2 ^ 64"
  shows "map_of (rev (dense_records v)) r = frn_get (Dense v) r"
proof -
  have d: "distinct (map fst (rev (dense_records v)))"
    using dense_records_keys [OF assms] by (simp add: rev_map [symmetric])
  show ?thesis
  proof (cases "frn_get (Dense v) r")
    case None
    then have "r \<notin> fst ` set (dense_records v)"
      using dense_records_mem [OF assms] by (force split: if_splits)
    then show ?thesis using None by (simp add: map_of_eq_None_iff)
  next
    case (Some i)
    then have "(r, i) \<in> set (rev (dense_records v))"
      using dense_records_mem [OF assms, of r i] by (auto split: if_splits)
    then show ?thesis using Some d by simp
  qed
qed

lemma frn_get_set:
  assumes "i \<noteq> NIL"
  shows "frn_get (frn_set r i m) = (frn_get m)(r \<mapsto> i)"
proof (cases m)
  case (Sparse s)
  then show ?thesis by (auto simp: frn_set_def update_conv')
next
  case (Dense v)
  show ?thesis
  proof (cases "length v * 2 + DENSE_GROWTH_SLACK < unat r")
    case True
    moreover have "length v \<le> 2 ^ 64"
      using True unsigned_less [of r, where 'a = nat] by (simp add: DENSE_GROWTH_SLACK_def)
    ultimately show ?thesis
      using Dense by (auto simp: frn_set_def update_conv' map_of_collect map_of_dense_records fun_eq_iff)
  next
    case False
    then show ?thesis
      using Dense assms
      by (auto simp: frn_set_def fun_eq_iff nth_list_update nth_append unat_eq_iff)
  qed
qed

lemma frn_set_ok: "frn_map_ok m \<Longrightarrow> i \<noteq> NIL \<Longrightarrow> frn_map_ok (frn_set r i m)"
proof -
  assume m: "frn_map_ok m" "i \<noteq> NIL"
  have "frn_map_ok (Sparse (collect_map (dense_records v)))" for v
    by (rule collect_ok) (auto simp: dense_records_def)
  with m show ?thesis
    using sparse_update_ok [OF _ m(2)]
    by (auto simp: frn_set_def frn_map_ok_def [of "Dense _"] Let_def split: frn_map.splits)
qed

lemma frn_get_remove: "frn_get (frn_remove r m) = (frn_get m)(r := None)"
  by (cases m) (auto simp: fun_eq_iff nth_list_update delete_conv' unat_eq_iff)

lemma frn_remove_ok: "frn_map_ok m \<Longrightarrow> frn_map_ok (frn_remove r m)"
  by (cases m) (auto simp: frn_map_ok_def distinct_delete delete_conv')

interpretation frn: record_map frn_map_ok frn_get frn_set frn_remove
  by unfold_locales (simp_all add: frn_set_ok frn_remove_ok frn_get_set frn_get_remove)

lemma frn_get_densify_fold:
  assumes "distinct (map fst s)" "\<forall>(r, i) \<in> set s. unat r < length v"
  shows "length (fold (\<lambda>(r, i) v. v[unat r := i]) s v) = length v"
    and "unat r < length v \<Longrightarrow>
      fold (\<lambda>(r, i) v. v[unat r := i]) s v ! unat r = (case map_of s r of Some i \<Rightarrow> i | None \<Rightarrow> v ! unat r)"
  using assms
proof (induction s arbitrary: v)
  case (Cons p s)
  obtain q i where p: "p = (q, i)" by (cases p)
  {
    case 1
    then show ?case using Cons.IH(1) [of "v[unat q := i]"] p by auto
  next
    case 2
    then have "map_of s q = None" using p by (simp add: map_of_eq_None_iff)
    with 2 show ?case
      using Cons.IH(2) [of "v[unat q := i]"] p
      by (auto simp: nth_list_update unat_eq_iff split: option.splits)
  }
qed simp_all

lemma frn_densify:
  assumes "frn_map_ok m"
  shows "frn_get (densify_if_smaller cap m) = frn_get m \<and> frn_map_ok (densify_if_smaller cap m)"
proof (cases m)
  case (Sparse s)
  define mx where "mx = Max (set (map (unat \<circ> fst) s))"
  have d: "densify_if_smaller cap m =
      (if s = [] then m else if (mx + 1) * 4 < next_power_of_two (cap * 8 div 7) * 17
       then Dense (fold (\<lambda>(r, i) v. v[unat r := i]) s (replicate (mx + 1) NIL)) else m)"
    by (simp only: densify_if_smaller_def Sparse frn_map.case mx_def Let_def)
  show ?thesis
  proof (cases "s \<noteq> [] \<and> (mx + 1) * 4 < next_power_of_two (cap * 8 div 7) * 17")
    case True
    let ?v = "fold (\<lambda>(r, i) v. v[unat r := i]) s (replicate (mx + 1) NIL)"
    have le: "\<forall>(r, i) \<in> set s. unat r < mx + 1"
      unfolding mx_def by (auto intro!: Max_ge simp: less_Suc_eq_le rev_image_eqI)
    have s: "distinct (map fst s)" "\<forall>r. map_of s r \<noteq> Some NIL"
      using assms Sparse by (simp_all add: frn_map_ok_def)
    have out: "map_of s r = None" if "\<not> unat r < mx + 1" for r
      using that le by (force simp: map_of_eq_None_iff)
    have len: "length ?v = mx + 1"
      using frn_get_densify_fold(1) [OF s(1), where v = "replicate (mx + 1) NIL"] le by simp
    have "frn_get (Dense ?v) r = map_of s r" for r
    proof (cases "unat r < mx + 1")
      case True
      have "?v ! unat r = (case map_of s r of Some i \<Rightarrow> i | None \<Rightarrow> NIL)"
        using frn_get_densify_fold(2) [OF s(1), where v = "replicate (mx + 1) NIL"] le True
        by (simp del: replicate_Suc add: nth_replicate split: option.split)
      with True len s(2) [rule_format, of r] show ?thesis by (auto split: option.splits simp del: replicate_Suc)
    next
      case False
      with len out show ?thesis by simp
    qed
    moreover have "densify_if_smaller cap m = Dense ?v" using True d by simp
    ultimately show ?thesis using Sparse by (simp add: frn_map_ok_def fun_eq_iff)
  next
    case False
    with d assms show ?thesis by auto
  qed
qed (simp add: densify_if_smaller_def frn_map_ok_def)

text \<open>
  C28. Changing the backing of the record map never changes the map: whatever capacity the hash
  map happens to have, switching to the dense backing keeps every lookup, and the dense map
  answers like the sparse one after every later insertion and removal, also when a far record
  number sends it back to the sparse backing.
\<close>

theorem frn_map_backings_agree:
  assumes "frn_map_ok m"
  shows "frn_get (densify_if_smaller cap m) = frn_get m \<and> frn_map_ok (densify_if_smaller cap m) \<and>
    (i \<noteq> NIL \<longrightarrow> frn_get (frn_set r i (densify_if_smaller cap m)) = (frn_get m)(r \<mapsto> i)) \<and>
    frn_get (frn_remove r (densify_if_smaller cap m)) = (frn_get m)(r := None)"
proof -
  have "frn_get (densify_if_smaller cap m) = frn_get m \<and> frn_map_ok (densify_if_smaller cap m)"
    using frn_densify assms by blast
  then show ?thesis by (simp add: frn_get_set frn_get_remove)
qed

theorem frn_map_backings_agree_witness:
  "let m = Sparse [(5, 0), (7, 1)] in
    frn_get (densify_if_smaller 14 m) = frn_get m \<and> frn_map_ok (densify_if_smaller 14 m) \<and>
    frn_get (frn_set 300000 9 (densify_if_smaller 14 m)) = (frn_get m)(300000 \<mapsto> 9) \<and>
    frn_get (frn_remove 300000 (densify_if_smaller 14 m)) = (frn_get m)(300000 := None)"
  using frn_map_backings_agree [of "Sparse [(5, 0), (7, 1)]" 14 9 300000]
  by (simp add: Let_def NIL_def frn_map_ok_def)

end
