(* ===== verification/Entry_Table.thy ===== *)
theory Entry_Table
  imports Types
begin

text \<open>
  \<open>EntryTable\<close> and \<open>EntryFlags\<close> of \<open>goz-core/src/index/store.rs\<close>: the columns of the
  index, one slot per link name, with the free list of dead slots. A read or write outside a
  column panics in Rust and is \<^const>\<open>None\<close> here. The growth policy of the vectors
  (\<open>settled\<close>, \<open>room_for\<close>) has no effect on their contents and is left out.
\<close>

section \<open>Flags\<close>

type_synonym entry_flags = u8

definition DIR :: entry_flags where "DIR = push_bit 0 1"
definition TOMBSTONE :: entry_flags where "TOMBSTONE = push_bit 1 1"
definition LOST_FOUND :: entry_flags where "LOST_FOUND = push_bit 2 1"
definition PLACEHOLDER :: entry_flags where "PLACEHOLDER = push_bit 3 1"
definition NON_UNICODE_NAME :: entry_flags where "NON_UNICODE_NAME = push_bit 4 1"
definition EMPTY :: entry_flags where "EMPTY = 0"

definition contains :: "entry_flags \<Rightarrow> entry_flags \<Rightarrow> bool" where
  "contains f g \<longleftrightarrow> f AND g = g"

definition with_flag :: "entry_flags \<Rightarrow> entry_flags \<Rightarrow> bool \<Rightarrow> entry_flags" where
  "with_flag f g on = (if on then f OR g else f AND NOT g)"

definition SIZE_UNKNOWN :: u64 where "SIZE_UNKNOWN = - 1"
definition MTIME_UNKNOWN :: i64 where "MTIME_UNKNOWN = I64_MIN"

section \<open>The table\<close>

record entry_table =
  et_frn :: "frn list"
  et_parent :: "entry_idx list"
  et_name_id :: "name_id list"
  et_flags :: "entry_flags list"
  et_size :: "u64 list"
  et_mtime :: "i64 list"
  et_next_link :: "entry_idx list"
  et_next_same :: "entry_idx list"
  et_prev_same :: "entry_idx list"
  et_first_child :: "entry_idx list"
  et_next_child :: "entry_idx list"
  et_prev_child :: "entry_idx list"
  et_free :: "entry_idx list"
  et_live :: nat

definition table_new :: entry_table where
  "table_new =
    \<lparr>et_frn = [], et_parent = [], et_name_id = [], et_flags = [], et_size = [], et_mtime = [],
     et_next_link = [], et_next_same = [], et_prev_same = [], et_first_child = [],
     et_next_child = [], et_prev_child = [], et_free = [], et_live = 0\<rparr>"

definition alloc_reuse ::
  "entry_idx \<Rightarrow> frn \<Rightarrow> entry_idx \<Rightarrow> name_id \<Rightarrow> entry_flags \<Rightarrow> u64 \<Rightarrow> i64 \<Rightarrow> entry_idx \<Rightarrow>
    entry_table \<Rightarrow> entry_table option" where
  "alloc_reuse i f p nid fl sz mt nl t =
    do {
      c1 \<leftarrow> upd (et_frn t) i f;
      c2 \<leftarrow> upd (et_parent t) i p;
      c3 \<leftarrow> upd (et_name_id t) i nid;
      c4 \<leftarrow> upd (et_flags t) i fl;
      c5 \<leftarrow> upd (et_size t) i sz;
      c6 \<leftarrow> upd (et_mtime t) i mt;
      c7 \<leftarrow> upd (et_next_link t) i nl;
      c8 \<leftarrow> upd (et_next_same t) i NIL;
      c9 \<leftarrow> upd (et_prev_same t) i NIL;
      c10 \<leftarrow> upd (et_first_child t) i NIL;
      c11 \<leftarrow> upd (et_next_child t) i NIL;
      c12 \<leftarrow> upd (et_prev_child t) i NIL;
      Some (t\<lparr>et_frn := c1, et_parent := c2, et_name_id := c3, et_flags := c4, et_size := c5,
              et_mtime := c6, et_next_link := c7, et_next_same := c8, et_prev_same := c9,
              et_first_child := c10, et_next_child := c11, et_prev_child := c12\<rparr>)
    }"

definition alloc ::
  "frn \<Rightarrow> entry_idx \<Rightarrow> name_id \<Rightarrow> entry_flags \<Rightarrow> u64 \<Rightarrow> i64 \<Rightarrow> entry_idx \<Rightarrow>
    entry_table \<Rightarrow> (entry_idx \<times> entry_table) option" where
  "alloc f p nid fl sz mt nl t =
    (let t = t\<lparr>et_live := et_live t + 1\<rparr> in
     if et_free t \<noteq> [] then
       (let i = last (et_free t); t = t\<lparr>et_free := butlast (et_free t)\<rparr>
        in do { t \<leftarrow> alloc_reuse i f p nid fl sz mt nl t; Some (i, t) })
     else
       Some (as_u32 (length (et_frn t)),
         t\<lparr>et_frn := et_frn t @ [f], et_parent := et_parent t @ [p], et_name_id := et_name_id t @ [nid],
           et_flags := et_flags t @ [fl], et_size := et_size t @ [sz], et_mtime := et_mtime t @ [mt],
           et_next_link := et_next_link t @ [nl], et_next_same := et_next_same t @ [NIL],
           et_prev_same := et_prev_same t @ [NIL], et_first_child := et_first_child t @ [NIL],
           et_next_child := et_next_child t @ [NIL], et_prev_child := et_prev_child t @ [NIL]\<rparr>))"

definition tombstone :: "entry_idx \<Rightarrow> entry_table \<Rightarrow> entry_table option" where
  "tombstone i t =
    do {
      c4 \<leftarrow> upd (et_flags t) i TOMBSTONE;
      c2 \<leftarrow> upd (et_parent t) i NIL;
      c3 \<leftarrow> upd (et_name_id t) i NIL;
      c7 \<leftarrow> upd (et_next_link t) i NIL;
      c8 \<leftarrow> upd (et_next_same t) i NIL;
      c9 \<leftarrow> upd (et_prev_same t) i NIL;
      c10 \<leftarrow> upd (et_first_child t) i NIL;
      c11 \<leftarrow> upd (et_next_child t) i NIL;
      c12 \<leftarrow> upd (et_prev_child t) i NIL;
      Some (t\<lparr>et_flags := c4, et_parent := c2, et_name_id := c3, et_next_link := c7,
              et_next_same := c8, et_prev_same := c9, et_first_child := c10, et_next_child := c11,
              et_prev_child := c12, et_free := et_free t @ [i], et_live := et_live t - 1\<rparr>)
    }"

definition is_tombstone :: "entry_table \<Rightarrow> entry_idx \<Rightarrow> bool option" where
  "is_tombstone t i = do { f \<leftarrow> idx (et_flags t) i; Some (contains f TOMBSTONE) }"

definition table_capacity :: "entry_table \<Rightarrow> nat" where
  "table_capacity t = length (et_frn t)"

subsection \<open>Reading and writing columns\<close>

definition t_frn :: "entry_table \<Rightarrow> entry_idx \<Rightarrow> frn option" where "t_frn t i = idx (et_frn t) i"
definition t_parent :: "entry_table \<Rightarrow> entry_idx \<Rightarrow> entry_idx option" where "t_parent t i = idx (et_parent t) i"
definition t_name_id :: "entry_table \<Rightarrow> entry_idx \<Rightarrow> name_id option" where "t_name_id t i = idx (et_name_id t) i"
definition t_flags :: "entry_table \<Rightarrow> entry_idx \<Rightarrow> entry_flags option" where "t_flags t i = idx (et_flags t) i"
definition t_size :: "entry_table \<Rightarrow> entry_idx \<Rightarrow> u64 option" where "t_size t i = idx (et_size t) i"
definition t_mtime :: "entry_table \<Rightarrow> entry_idx \<Rightarrow> i64 option" where "t_mtime t i = idx (et_mtime t) i"
definition t_next_link :: "entry_table \<Rightarrow> entry_idx \<Rightarrow> entry_idx option" where "t_next_link t i = idx (et_next_link t) i"
definition t_next_same :: "entry_table \<Rightarrow> entry_idx \<Rightarrow> entry_idx option" where "t_next_same t i = idx (et_next_same t) i"
definition t_prev_same :: "entry_table \<Rightarrow> entry_idx \<Rightarrow> entry_idx option" where "t_prev_same t i = idx (et_prev_same t) i"
definition t_first_child :: "entry_table \<Rightarrow> entry_idx \<Rightarrow> entry_idx option" where "t_first_child t i = idx (et_first_child t) i"
definition t_next_child :: "entry_table \<Rightarrow> entry_idx \<Rightarrow> entry_idx option" where "t_next_child t i = idx (et_next_child t) i"
definition t_prev_child :: "entry_table \<Rightarrow> entry_idx \<Rightarrow> entry_idx option" where "t_prev_child t i = idx (et_prev_child t) i"

definition t_set_parent :: "entry_idx \<Rightarrow> entry_idx \<Rightarrow> entry_table \<Rightarrow> entry_table option" where
  "t_set_parent i v t = map_option (\<lambda>c. t\<lparr>et_parent := c\<rparr>) (upd (et_parent t) i v)"
definition t_set_name_id :: "entry_idx \<Rightarrow> name_id \<Rightarrow> entry_table \<Rightarrow> entry_table option" where
  "t_set_name_id i v t = map_option (\<lambda>c. t\<lparr>et_name_id := c\<rparr>) (upd (et_name_id t) i v)"
definition t_set_flags :: "entry_idx \<Rightarrow> entry_flags \<Rightarrow> entry_table \<Rightarrow> entry_table option" where
  "t_set_flags i v t = map_option (\<lambda>c. t\<lparr>et_flags := c\<rparr>) (upd (et_flags t) i v)"
definition t_set_size :: "entry_idx \<Rightarrow> u64 \<Rightarrow> entry_table \<Rightarrow> entry_table option" where
  "t_set_size i v t = map_option (\<lambda>c. t\<lparr>et_size := c\<rparr>) (upd (et_size t) i v)"
definition t_set_mtime :: "entry_idx \<Rightarrow> i64 \<Rightarrow> entry_table \<Rightarrow> entry_table option" where
  "t_set_mtime i v t = map_option (\<lambda>c. t\<lparr>et_mtime := c\<rparr>) (upd (et_mtime t) i v)"
definition t_set_next_link :: "entry_idx \<Rightarrow> entry_idx \<Rightarrow> entry_table \<Rightarrow> entry_table option" where
  "t_set_next_link i v t = map_option (\<lambda>c. t\<lparr>et_next_link := c\<rparr>) (upd (et_next_link t) i v)"
definition t_set_next_same :: "entry_idx \<Rightarrow> entry_idx \<Rightarrow> entry_table \<Rightarrow> entry_table option" where
  "t_set_next_same i v t = map_option (\<lambda>c. t\<lparr>et_next_same := c\<rparr>) (upd (et_next_same t) i v)"
definition t_set_prev_same :: "entry_idx \<Rightarrow> entry_idx \<Rightarrow> entry_table \<Rightarrow> entry_table option" where
  "t_set_prev_same i v t = map_option (\<lambda>c. t\<lparr>et_prev_same := c\<rparr>) (upd (et_prev_same t) i v)"
definition t_set_first_child :: "entry_idx \<Rightarrow> entry_idx \<Rightarrow> entry_table \<Rightarrow> entry_table option" where
  "t_set_first_child i v t = map_option (\<lambda>c. t\<lparr>et_first_child := c\<rparr>) (upd (et_first_child t) i v)"
definition t_set_next_child :: "entry_idx \<Rightarrow> entry_idx \<Rightarrow> entry_table \<Rightarrow> entry_table option" where
  "t_set_next_child i v t = map_option (\<lambda>c. t\<lparr>et_next_child := c\<rparr>) (upd (et_next_child t) i v)"
definition t_set_prev_child :: "entry_idx \<Rightarrow> entry_idx \<Rightarrow> entry_table \<Rightarrow> entry_table option" where
  "t_set_prev_child i v t = map_option (\<lambda>c. t\<lparr>et_prev_child := c\<rparr>) (upd (et_prev_child t) i v)"

definition iter_live :: "entry_table \<Rightarrow> entry_idx list" where
  "iter_live t = filter (\<lambda>i. is_tombstone t i = Some False) [0..<as_u32 (length (et_frn t))]"

lemmas t_defs = t_frn_def t_parent_def t_name_id_def t_flags_def t_size_def t_mtime_def t_next_link_def t_next_same_def t_prev_same_def t_first_child_def t_next_child_def t_prev_child_def
  t_set_parent_def t_set_name_id_def t_set_flags_def t_set_size_def t_set_mtime_def t_set_next_link_def t_set_next_same_def t_set_prev_same_def t_set_first_child_def t_set_next_child_def t_set_prev_child_def

section \<open>What a table keeps\<close>

text \<open>The live slots of a flag column.\<close>

definition live_of :: "entry_flags list \<Rightarrow> entry_idx set" where
  "live_of fs = {i. i < length fs \<and> \<not> contains (fs ! i) TOMBSTONE}"

definition cols_ok :: "entry_table \<Rightarrow> bool" where
  "cols_ok t \<longleftrightarrow>
    (let n = length (et_flags t) in n \<le> NIL \<and>
      length (et_frn t) = n \<and> length (et_parent t) = n \<and> length (et_name_id t) = n \<and>
      length (et_size t) = n \<and> length (et_mtime t) = n \<and> length (et_next_link t) = n \<and>
      length (et_next_same t) = n \<and> length (et_prev_same t) = n \<and> length (et_first_child t) = n \<and>
      length (et_next_child t) = n \<and> length (et_prev_child t) = n)"

definition free_ok :: "entry_table \<Rightarrow> bool" where
  "free_ok t \<longleftrightarrow>
    distinct (et_free t) \<and>
    set (et_free t) = {..<length (et_flags t)} - live_of (et_flags t) \<and>
    et_live t = card (live_of (et_flags t))"

definition table_ok :: "entry_table \<Rightarrow> bool" where
  "table_ok t \<longleftrightarrow> cols_ok t \<and> free_ok t"

definition table_room :: "nat \<Rightarrow> entry_table \<Rightarrow> bool" where
  "table_room k t \<longleftrightarrow> length (et_flags t) + k \<le> NIL"

text \<open>Writing a slot of a column, or appending it.\<close>

definition put :: "'a list \<Rightarrow> nat \<Rightarrow> 'a \<Rightarrow> 'a list" where
  "put xs i v = (if i < length xs then xs[i := v] else xs @ [v])"

lemma nth_put: "i \<le> length xs \<Longrightarrow> j < length (put xs i v) \<Longrightarrow> put xs i v ! j = (if j = i then v else xs ! j)"
  by (auto simp: put_def nth_append nth_list_update split: if_splits)

lemma length_put: "length (put xs i v) = (if i < length xs then length xs else Suc (length xs))"
  by (simp add: put_def)

lemma put_length_cong: "length xs = length ys \<Longrightarrow> length (put xs i v) = length (put ys i w)"
  by (simp add: put_def)

lemma live_of_finite [simp]: "finite (live_of fs)"
  by (simp add: live_of_def)

lemma live_of_less: "i \<in> live_of fs \<Longrightarrow> i < length fs"
  by (simp add: live_of_def)

lemma live_of_put:
  assumes "i \<le> length fs" "\<not> contains v TOMBSTONE"
  shows "live_of (put fs i v) = insert i (live_of fs)"
  using assms by (auto simp: live_of_def put_def nth_append nth_list_update split: if_splits)

lemma contains_tombstone_self [simp]: "contains TOMBSTONE TOMBSTONE"
  by (simp add: contains_def)

lemma live_of_kill: "live_of (fs[i := TOMBSTONE]) = live_of fs - {i}"
  by (cases "i < length fs") (auto simp: live_of_def nth_list_update)

definition alloced ::
  "entry_idx \<Rightarrow> frn \<Rightarrow> entry_idx \<Rightarrow> name_id \<Rightarrow> entry_flags \<Rightarrow> u64 \<Rightarrow> i64 \<Rightarrow> entry_idx \<Rightarrow>
    entry_table \<Rightarrow> entry_table" where
  "alloced i f p nid fl sz mt nl t =
    t\<lparr>et_frn := put (et_frn t) i f, et_parent := put (et_parent t) i p,
      et_name_id := put (et_name_id t) i nid, et_flags := put (et_flags t) i fl,
      et_size := put (et_size t) i sz, et_mtime := put (et_mtime t) i mt,
      et_next_link := put (et_next_link t) i nl, et_next_same := put (et_next_same t) i NIL,
      et_prev_same := put (et_prev_same t) i NIL, et_first_child := put (et_first_child t) i NIL,
      et_next_child := put (et_next_child t) i NIL, et_prev_child := put (et_prev_child t) i NIL,
      et_free := butlast (et_free t), et_live := et_live t + 1\<rparr>"

lemma alloc_spec:
  assumes ok: "table_ok t" and room: "table_room 1 t" and fl: "\<not> contains fl TOMBSTONE"
  shows "\<exists>i. alloc f p nid fl sz mt nl t = Some (i, alloced i f p nid fl sz mt nl t) \<and>
    i \<le> length (et_flags t) \<and> i \<notin> live_of (et_flags t) \<and> i < NIL \<and>
    table_ok (alloced i f p nid fl sz mt nl t)"
proof (cases "et_free t = []")
  case True
  let ?n = "length (et_flags t)"
  have n: "?n < NIL" using room by (simp add: table_room_def)
  then have "as_u32 ?n = ?n" by (simp add: as_u32_def NIL_def)
  have all: "live_of (et_flags t) = {..<?n}"
    using ok True by (auto simp: table_ok_def free_ok_def live_of_def)
  have "table_ok (alloced ?n f p nid fl sz mt nl t)"
    using ok n True live_of_put [of ?n "et_flags t" fl] fl all
    by (auto simp: table_ok_def cols_ok_def free_ok_def alloced_def Let_def length_put
        lessThan_Suc)
  moreover have "alloc f p nid fl sz mt nl t = Some (?n, alloced ?n f p nid fl sz mt nl t)"
    using True ok \<open>as_u32 ?n = ?n\<close>
    by (simp add: alloc_def alloced_def put_def table_ok_def cols_ok_def Let_def)
  ultimately show ?thesis using n all by auto
next
  case False
  let ?i = "last (et_free t)"
  have mem: "?i \<in> set (et_free t)" using False by simp
  then have i: "?i < length (et_flags t)" "?i \<notin> live_of (et_flags t)"
    using ok by (auto simp: table_ok_def free_ok_def)
  have split: "et_free t = butlast (et_free t) @ [?i]" using False by simp
  have bl: "set (butlast (et_free t)) = set (et_free t) - {?i}" "distinct (butlast (et_free t))"
  proof -
    have "distinct (butlast (et_free t) @ [?i])"
      using ok split by (simp add: table_ok_def free_ok_def del: append_butlast_last_id)
    then show "distinct (butlast (et_free t))" by simp
    moreover have "set (et_free t) = insert ?i (set (butlast (et_free t)))"
      by (subst split) simp
    ultimately show "set (butlast (et_free t)) = set (et_free t) - {?i}"
      using \<open>distinct (butlast (et_free t) @ [?i])\<close> by auto
  qed
  have "table_ok (alloced ?i f p nid fl sz mt nl t)"
    using ok i bl live_of_put [of ?i "et_flags t" fl] fl
    by (auto simp: table_ok_def cols_ok_def free_ok_def alloced_def Let_def length_put)
  moreover have "alloc f p nid fl sz mt nl t = Some (?i, alloced ?i f p nid fl sz mt nl t)"
    using False ok i
    by (simp add: alloc_def alloc_reuse_def alloced_def put_def table_ok_def cols_ok_def Let_def)
  moreover have "?i < NIL" using i(1) ok by (simp add: table_ok_def cols_ok_def Let_def)
  ultimately show ?thesis using i by auto
qed

definition tombstoned :: "entry_idx \<Rightarrow> entry_table \<Rightarrow> entry_table" where
  "tombstoned i t =
    t\<lparr>et_flags := (et_flags t)[i := TOMBSTONE], et_parent := (et_parent t)[i := NIL],
      et_name_id := (et_name_id t)[i := NIL], et_next_link := (et_next_link t)[i := NIL],
      et_next_same := (et_next_same t)[i := NIL], et_prev_same := (et_prev_same t)[i := NIL],
      et_first_child := (et_first_child t)[i := NIL], et_next_child := (et_next_child t)[i := NIL],
      et_prev_child := (et_prev_child t)[i := NIL],
      et_free := et_free t @ [i], et_live := et_live t - 1\<rparr>"

lemma tombstone_spec:
  assumes ok: "table_ok t" and i: "i \<in> live_of (et_flags t)"
  shows "tombstone i t = Some (tombstoned i t)" "table_ok (tombstoned i t)"
proof -
  show "tombstone i t = Some (tombstoned i t)"
    using ok live_of_less [OF i]
    by (simp add: tombstone_def tombstoned_def table_ok_def cols_ok_def Let_def)
  show "table_ok (tombstoned i t)"
    using ok i live_of_less [OF i]
    by (auto simp: tombstoned_def table_ok_def cols_ok_def free_ok_def Let_def live_of_kill)
qed

subsection \<open>Flag bits\<close>

lemma bit_flag: "bit (push_bit k (1 :: u8)) j \<longleftrightarrow> k < 8 \<and> j = k"
  unfolding bit_push_bit_iff bit_1_iff by auto

lemma contains_bit:
  assumes "k < 8"
  shows "contains f (push_bit k 1) \<longleftrightarrow> bit f k"
proof
  assume "contains f (push_bit k 1)"
  then have "f AND push_bit k 1 = push_bit k 1" unfolding contains_def .
  then have "bit (f AND push_bit k 1) k" using assms bit_flag[of k k] by (simp only: simp_thms)
  then show "bit f k" unfolding bit_and_iff by simp
next
  assume b: "bit f k"
  have "f AND push_bit k 1 = push_bit k 1"
    by (rule bit_word_eqI) (use b in \<open>auto simp only: bit_and_iff bit_flag\<close>)
  then show "contains f (push_bit k 1)" unfolding contains_def .
qed

lemma bit_with_flag:
  assumes "k < 8" "j < 8"
  shows "bit (with_flag f (push_bit k 1) b) j \<longleftrightarrow> (if j = k then b else bit f j)"
proof -
  have j: "j < LENGTH(8)" using assms by simp
  show ?thesis
    unfolding with_flag_def using assms(1)
    by (auto simp only: bit_or_iff bit_and_iff bit_not_iff bit_flag possible_bit_word j simp_thms split: if_splits)
qed

lemma contains_bits:
  "contains f DIR \<longleftrightarrow> bit f 0"
  "contains f TOMBSTONE \<longleftrightarrow> bit f 1"
  "contains f LOST_FOUND \<longleftrightarrow> bit f 2"
  "contains f PLACEHOLDER \<longleftrightarrow> bit f 3"
  "contains f NON_UNICODE_NAME \<longleftrightarrow> bit f 4"
  unfolding DIR_def TOMBSTONE_def LOST_FOUND_def PLACEHOLDER_def NON_UNICODE_NAME_def by (rule contains_bit, simp)+

lemma with_flag_bits:
  assumes "j < 8"
  shows "bit (with_flag f DIR b) j \<longleftrightarrow> (if j = 0 then b else bit f j)"
    "bit (with_flag f TOMBSTONE b) j \<longleftrightarrow> (if j = 1 then b else bit f j)"
    "bit (with_flag f LOST_FOUND b) j \<longleftrightarrow> (if j = 2 then b else bit f j)"
    "bit (with_flag f PLACEHOLDER b) j \<longleftrightarrow> (if j = 3 then b else bit f j)"
    "bit (with_flag f NON_UNICODE_NAME b) j \<longleftrightarrow> (if j = 4 then b else bit f j)"
  unfolding DIR_def TOMBSTONE_def LOST_FOUND_def PLACEHOLDER_def NON_UNICODE_NAME_def by (rule bit_with_flag[OF _ assms], simp)+

lemma contains_with_flag [simp]:
  "contains (with_flag f DIR b) TOMBSTONE \<longleftrightarrow> contains f TOMBSTONE"
  "contains (with_flag f PLACEHOLDER b) TOMBSTONE \<longleftrightarrow> contains f TOMBSTONE"
  "contains (with_flag f NON_UNICODE_NAME b) TOMBSTONE \<longleftrightarrow> contains f TOMBSTONE"
  "contains (with_flag f LOST_FOUND b) TOMBSTONE \<longleftrightarrow> contains f TOMBSTONE"
  "contains (with_flag f DIR b) DIR \<longleftrightarrow> b"
  "contains (with_flag f PLACEHOLDER b) PLACEHOLDER \<longleftrightarrow> b"
  "contains (with_flag f PLACEHOLDER b) DIR \<longleftrightarrow> contains f DIR"
  "contains (with_flag f NON_UNICODE_NAME b) DIR \<longleftrightarrow> contains f DIR"
  "contains (with_flag f NON_UNICODE_NAME b) PLACEHOLDER \<longleftrightarrow> contains f PLACEHOLDER"
  "contains (with_flag f DIR b) PLACEHOLDER \<longleftrightarrow> contains f PLACEHOLDER"
  by (simp_all add: contains_bits with_flag_bits)

lemma contains_EMPTY [simp]:
  "\<not> contains EMPTY TOMBSTONE" "\<not> contains EMPTY DIR" "\<not> contains EMPTY PLACEHOLDER"
  by (simp_all add: contains_bits EMPTY_def)

lemma contains_DIR [simp]: "\<not> contains DIR TOMBSTONE" "contains DIR DIR" "\<not> contains DIR PLACEHOLDER"
  unfolding contains_bits unfolding DIR_def bit_flag by simp_all

end
