(* ===== verification/Chains.thy ===== *)
theory Chains
  imports Types
begin

text \<open>
  Doubly-linked chains threaded through the columns of a table, as the index keeps them twice:
  the entries of one name (heads in the name store) and the entries of one folder (heads in
  the entry table). A family of chains has a head column, a next and a previous column, a key
  per entry and the set of entries that are linked; it is exact when the chain of each key
  visits exactly the linked entries of that key, each once.
\<close>

section \<open>Segments\<close>

fun seg :: "entry_idx list \<Rightarrow> entry_idx list \<Rightarrow> entry_idx \<Rightarrow> entry_idx \<Rightarrow> entry_idx \<Rightarrow> entry_idx list \<Rightarrow> bool" where
  "seg nx pv p h e [] \<longleftrightarrow> h = e"
| "seg nx pv p h e (x # xs) \<longleftrightarrow>
    h = x \<and> x \<noteq> NIL \<and> x < length nx \<and> x < length pv \<and> pv ! x = p \<and> seg nx pv x (nx ! x) e xs"

definition chains_ok ::
  "entry_idx list \<Rightarrow> entry_idx list \<Rightarrow> entry_idx list \<Rightarrow> (entry_idx \<Rightarrow> nat) \<Rightarrow> entry_idx set \<Rightarrow> bool" where
  "chains_ok hds nx pv key S \<longleftrightarrow>
    length nx \<le> NIL \<and> length pv = length nx \<and> S \<subseteq> {..<length nx} \<and> (\<forall>i \<in> S. key i < length hds) \<and>
    (\<forall>k < length hds. \<exists>xs. seg nx pv NIL (hds ! k) NIL xs \<and> distinct xs \<and> set xs = {i \<in> S. key i = k})"

text \<open>The column updates of a push to the front and of an unlink.\<close>

definition push_next :: "entry_idx list \<Rightarrow> entry_idx list \<Rightarrow> nat \<Rightarrow> entry_idx \<Rightarrow> entry_idx list" where
  "push_next hds nx k x = nx[x := hds ! k]"

definition push_prev :: "entry_idx list \<Rightarrow> entry_idx list \<Rightarrow> nat \<Rightarrow> entry_idx \<Rightarrow> entry_idx list" where
  "push_prev hds pv k x = (let q = pv[x := NIL] in if hds ! k = NIL then q else q[hds ! k := x])"

definition unlink_head :: "entry_idx list \<Rightarrow> entry_idx list \<Rightarrow> entry_idx list \<Rightarrow> nat \<Rightarrow> entry_idx \<Rightarrow> entry_idx list" where
  "unlink_head hds nx pv k x = (if pv ! x = NIL then hds[k := nx ! x] else hds)"

definition unlink_next :: "entry_idx list \<Rightarrow> entry_idx list \<Rightarrow> entry_idx \<Rightarrow> entry_idx list" where
  "unlink_next nx pv x = (if pv ! x = NIL then nx else nx[pv ! x := nx ! x])[x := NIL]"

definition unlink_prev :: "entry_idx list \<Rightarrow> entry_idx list \<Rightarrow> entry_idx \<Rightarrow> entry_idx list" where
  "unlink_prev nx pv x = (if nx ! x = NIL then pv else pv[nx ! x := pv ! x])[x := NIL]"

lemma push_lengths [simp]:
  "length (push_next hds nx k x) = length nx" "length (push_prev hds pv k x) = length pv"
  by (simp_all add: push_next_def push_prev_def Let_def)

lemma unlink_lengths [simp]:
  "length (unlink_head hds nx pv k x) = length hds" "length (unlink_next nx pv x) = length nx"
  "length (unlink_prev nx pv x) = length pv"
  by (simp_all add: unlink_head_def unlink_next_def unlink_prev_def)

lemma seg_append:
  "seg nx pv p h e (xs @ ys) \<longleftrightarrow> (\<exists>m. seg nx pv p h m xs \<and> seg nx pv (last (p # xs)) m e ys)"
  by (induction xs arbitrary: p h) auto

lemma seg_frame:
  assumes "seg nx pv p h e xs" "length nx \<le> length nx'" "length pv \<le> length pv'"
    and "\<And>i. i \<in> set xs \<Longrightarrow> nx' ! i = nx ! i \<and> pv' ! i = pv ! i"
  shows "seg nx' pv' p h e xs"
  using assms by (induction xs arbitrary: p h) auto

lemma seg_mem: "seg nx pv p h e xs \<Longrightarrow> x \<in> set xs \<Longrightarrow> x \<noteq> NIL \<and> x < length nx \<and> x < length pv"
  by (induction xs arbitrary: p h) auto

lemma seg_unique: "seg nx pv p h NIL xs \<Longrightarrow> seg nx pv p' h NIL ys \<Longrightarrow> xs = ys"
proof (induction xs arbitrary: p p' h ys)
  case Nil
  then show ?case by (cases ys) auto
next
  case (Cons x xs)
  then show ?case by (cases ys) auto
qed

lemma seg_push:
  assumes "seg nx pv NIL h NIL xs" "x \<notin> set xs" "x \<noteq> NIL" "x < length nx" "x < length pv"
    and "distinct xs" "hds ! k = h"
  shows "seg (push_next hds nx k x) (push_prev hds pv k x) NIL x NIL (x # xs)"
proof -
  have "seg (push_next hds nx k x) (push_prev hds pv k x) x h NIL xs"
  proof (cases xs)
    case Nil
    then show ?thesis using assms by simp
  next
    case (Cons y ys)
    then have y: "y = h" and h: "h \<noteq> NIL" "h < length nx" "h < length pv" "h \<noteq> x" "h \<notin> set ys" "x \<notin> set ys"
      and ys: "seg nx pv h (nx ! h) NIL ys"
      using assms(1,2,6) by auto
    have ne: "x \<noteq> i" "h \<noteq> i" if "i \<in> set ys" for i using h that by auto
    have "seg (push_next hds nx k x) (push_prev hds pv k x) h (nx ! h) NIL ys"
      by (rule seg_frame [OF ys]) (simp_all add: push_next_def push_prev_def Let_def assms(7) ne)
    with Cons y h assms(7) show ?thesis
      by (auto simp: push_next_def push_prev_def Let_def nth_list_update)
  qed
  moreover have "h \<noteq> x" using assms(1,2,3) by (cases xs) auto
  ultimately show ?thesis
    using assms(3,4,5,7) by (auto simp: push_next_def push_prev_def Let_def nth_list_update)
qed

lemma seg_unlink:
  assumes "seg nx pv NIL h NIL (as @ x # bs)" "distinct (as @ x # bs)"
  shows "seg (unlink_next nx pv x) (unlink_prev nx pv x) NIL (if pv ! x = NIL then nx ! x else h) NIL (as @ bs)"
    and "pv ! x = NIL \<longleftrightarrow> as = []"
proof -
  have x: "seg nx pv NIL h x as" "x \<noteq> NIL" "x < length nx" "x < length pv" "pv ! x = last (NIL # as)"
    "seg nx pv x (nx ! x) NIL bs"
    using assms(1) by (auto simp: seg_append)
  have asN: "a \<noteq> NIL \<and> a < length nx \<and> a < length pv" if "a \<in> set as" for a
    using seg_mem [OF x(1) that] .
  then show as: "pv ! x = NIL \<longleftrightarrow> as = []"
    using x(5) last_in_set [of as] by (cases as) auto
  let ?nx = "unlink_next nx pv x" and ?pv = "unlink_prev nx pv x"
  have bs: "seg ?nx ?pv (last (NIL # as)) (nx ! x) NIL bs"
  proof (cases bs)
    case Nil
    then show ?thesis using x by simp
  next
    case (Cons b cs)
    have b: "nx ! x = b" "b \<noteq> NIL" "b < length nx" "b < length pv" "b \<noteq> x" "b \<notin> set cs"
      using x(6) Cons assms(2) by auto
    have la: "last as \<noteq> b" "last as \<notin> set cs" if "as \<noteq> []"
      using assms(2) Cons last_in_set [OF that] by auto
    have ne: "x \<noteq> i" "b \<noteq> i" "as \<noteq> [] \<Longrightarrow> last as \<noteq> i" if "i \<in> set cs" for i
      using that assms(2) Cons b la by auto
    have cs: "seg nx pv b (nx ! b) NIL cs" using x(6) Cons b(1) by simp
    have "seg ?nx ?pv b (nx ! b) NIL cs"
      by (rule seg_frame [OF cs])
        (auto simp: unlink_next_def unlink_prev_def as x(5) b(1) ne)
    then show ?thesis
      using Cons b x(2-5) as la
      by (auto simp: unlink_next_def unlink_prev_def nth_list_update)
  qed
  show "seg ?nx ?pv NIL (if pv ! x = NIL then nx ! x else h) NIL (as @ bs)"
  proof (cases "as = []")
    case True
    then show ?thesis using bs as by simp
  next
    case False
    then obtain cs a where ca: "as = cs @ [a]" by (cases as rule: rev_cases) auto
    have a: "a \<noteq> NIL" "a < length nx" "a < length pv" "a \<noteq> x" "a \<notin> set cs" "nx ! a = x" "pv ! a = last (NIL # cs)"
      "pv ! x = a" and cs: "seg nx pv NIL h a cs"
      using x(1,5) asN [of a] assms(2) ca by (auto simp: seg_append)
    have nxx: "nx ! x \<notin> set as" "nx ! x \<noteq> x" if "nx ! x \<noteq> NIL"
      using x(6) that assms(2) by (cases bs; auto)+
    have ne: "x \<noteq> i" "a \<noteq> i" "nx ! x \<noteq> NIL \<Longrightarrow> nx ! x \<noteq> i" if "i \<in> set cs" for i
      using that assms(2) ca nxx by auto
    have "seg ?nx ?pv NIL h a cs"
      by (rule seg_frame [OF cs]) (auto simp: unlink_next_def unlink_prev_def a(8) ne)
    moreover have "?nx ! a = nx ! x" "?pv ! a = pv ! a"
      using a(1-4,8) nxx ca by (auto simp: unlink_next_def unlink_prev_def nth_list_update)
    ultimately have "seg ?nx ?pv NIL h (nx ! x) as"
      using a ca by (auto simp: seg_append)
    with bs False as show ?thesis by (auto simp: seg_append)
  qed
qed

lemma seg_neighbours:
  assumes "seg nx pv NIL h NIL (as @ x # bs)"
  shows "pv ! x = NIL \<or> pv ! x \<in> set as" "nx ! x = NIL \<or> nx ! x \<in> set bs"
proof -
  have x: "pv ! x = last (NIL # as)" "seg nx pv x (nx ! x) NIL bs"
    using assms by (auto simp: seg_append)
  show "pv ! x = NIL \<or> pv ! x \<in> set as" using x(1) by (cases as) auto
  show "nx ! x = NIL \<or> nx ! x \<in> set bs" using x(2) by (cases bs) auto
qed

section \<open>Families of chains\<close>

lemma chains_ok_chain:
  assumes "chains_ok hds nx pv key S" "k < length hds"
  obtains xs where "seg nx pv NIL (hds ! k) NIL xs" "distinct xs" "set xs = {i \<in> S. key i = k}"
  using assms unfolding chains_ok_def by blast

lemma chains_ok_cong:
  assumes "chains_ok hds nx pv key S" "\<And>i. i \<in> S \<Longrightarrow> key' i = key i"
  shows "chains_ok hds nx pv key' S"
proof -
  have "{i \<in> S. key' i = k} = {i \<in> S. key i = k}" for k using assms(2) by auto
  with assms show ?thesis by (simp add: chains_ok_def)
qed

lemma chains_ok_push:
  assumes ok: "chains_ok hds nx pv key S" and x: "x \<notin> S" "x < length nx" "key x = k" "k < length hds"
  shows "chains_ok (hds[k := x]) (push_next hds nx k x) (push_prev hds pv k x) key (insert x S)"
proof -
  have len: "length nx \<le> NIL" "length pv = length nx" "S \<subseteq> {..<length nx}" "\<forall>i \<in> S. key i < length hds"
    using ok by (simp_all add: chains_ok_def)
  have "x \<noteq> NIL" using x(2) len(1) by simp
  have "\<exists>xs. seg (push_next hds nx k x) (push_prev hds pv k x) NIL (hds[k := x] ! j) NIL xs \<and>
      distinct xs \<and> set xs = {i \<in> insert x S. key i = j}" if j: "j < length hds" for j
  proof -
    obtain xs where xs: "seg nx pv NIL (hds ! j) NIL xs" "distinct xs" "set xs = {i \<in> S. key i = j}"
      using chains_ok_chain [OF ok j] .
    obtain ys where ys: "seg nx pv NIL (hds ! k) NIL ys" "distinct ys" "set ys = {i \<in> S. key i = k}"
      using chains_ok_chain [OF ok x(4)] .
    show ?thesis
    proof (cases "j = k")
      case True
      have "x \<notin> set ys" using ys(3) x(1) by simp
      then have "seg (push_next hds nx k x) (push_prev hds pv k x) NIL x NIL (x # ys)"
        using seg_push [OF ys(1) _ \<open>x \<noteq> NIL\<close>] x(2) len(2) ys(2) by simp
      then show ?thesis
        using True \<open>x \<notin> set ys\<close> ys(2,3) x(3,4) by (intro exI [of _ "x # ys"]) auto
    next
      case False
      have "hds ! k = NIL \<or> hds ! k \<in> set ys" using ys(1) by (cases ys) auto
      then have ne: "x \<noteq> i" "hds ! k \<noteq> NIL \<Longrightarrow> hds ! k \<noteq> i" if "i \<in> set xs" for i
        using that xs(3) ys(3) x(1) False by auto
      have "seg (push_next hds nx k x) (push_prev hds pv k x) NIL (hds ! j) NIL xs"
        by (rule seg_frame [OF xs(1)]) (auto simp: push_next_def push_prev_def Let_def ne)
      then show ?thesis using False xs(2,3) x(3) by (intro exI [of _ xs]) auto
    qed
  qed
  with len x show ?thesis unfolding chains_ok_def by auto
qed

lemma chains_ok_unlink:
  assumes ok: "chains_ok hds nx pv key S" and x: "x \<in> S" "key x = k"
  shows "chains_ok (unlink_head hds nx pv k x) (unlink_next nx pv x) (unlink_prev nx pv x) key (S - {x})"
proof -
  have len: "length nx \<le> NIL" "length pv = length nx" "S \<subseteq> {..<length nx}" "\<forall>i \<in> S. key i < length hds"
    using ok by (simp_all add: chains_ok_def)
  have k: "k < length hds" using x len(4) by auto
  obtain ys where ys: "seg nx pv NIL (hds ! k) NIL ys" "distinct ys" "set ys = {i \<in> S. key i = k}"
    using chains_ok_chain [OF ok k] .
  obtain as bs where ab: "ys = as @ x # bs" using ys(3) x by (metis (mono_tags) mem_Collect_eq split_list)
  note un = seg_unlink [OF ys(1) [unfolded ab] ys(2) [unfolded ab]]
  have "\<exists>xs. seg (unlink_next nx pv x) (unlink_prev nx pv x) NIL (unlink_head hds nx pv k x ! j) NIL xs \<and>
      distinct xs \<and> set xs = {i \<in> S - {x}. key i = j}" if j: "j < length hds" for j
  proof (cases "j = k")
    case True
    have "set (as @ bs) = {i \<in> S - {x}. key i = k}"
      using ys(2,3) ab by auto
    moreover have "seg (unlink_next nx pv x) (unlink_prev nx pv x) NIL (unlink_head hds nx pv k x ! k) NIL (as @ bs)"
      using un(1) k by (auto simp: unlink_head_def split: if_splits)
    moreover have "distinct (as @ bs)" using ys(2) ab by simp
    ultimately show ?thesis using True by blast
  next
    case False
    obtain xs where xs: "seg nx pv NIL (hds ! j) NIL xs" "distinct xs" "set xs = {i \<in> S. key i = j}"
      using chains_ok_chain [OF ok j] .
    have "pv ! x = NIL \<or> pv ! x \<in> set ys" "nx ! x = NIL \<or> nx ! x \<in> set ys"
      using seg_neighbours [OF ys(1) [unfolded ab]] ab by auto
    then have ne: "x \<noteq> i" "pv ! x \<noteq> NIL \<Longrightarrow> pv ! x \<noteq> i" "nx ! x \<noteq> NIL \<Longrightarrow> nx ! x \<noteq> i" if "i \<in> set xs" for i
      using that xs(3) ys(3) x False by auto
    have "seg (unlink_next nx pv x) (unlink_prev nx pv x) NIL (hds ! j) NIL xs"
      by (rule seg_frame [OF xs(1)]) (auto simp: unlink_next_def unlink_prev_def ne)
    then show ?thesis
      using False xs(2,3) x(2) by (intro exI [of _ xs]) (auto simp: unlink_head_def)
  qed
  with len show ?thesis unfolding chains_ok_def by auto
qed

lemma chains_ok_new_head:
  assumes "chains_ok hds nx pv key S"
  shows "chains_ok (hds @ [NIL]) nx pv key S"
proof -
  have "\<exists>xs. seg nx pv NIL ((hds @ [NIL]) ! k) NIL xs \<and> distinct xs \<and> set xs = {i \<in> S. key i = k}"
    if "k < Suc (length hds)" for k
  proof (cases "k < length hds")
    case True
    then show ?thesis using assms by (auto simp: chains_ok_def nth_append)
  next
    case False
    then have "{i \<in> S. key i = k} = {}" using assms by (auto simp: chains_ok_def)
    then show ?thesis using False that by (intro exI [of _ "[]"]) (simp add: nth_append)
  qed
  with assms show ?thesis by (auto simp: chains_ok_def less_SucI)
qed

lemma chains_ok_new_node:
  assumes "chains_ok hds nx pv key S" "length nx < NIL"
  shows "chains_ok hds (nx @ [a]) (pv @ [b]) key S"
proof -
  have "seg (nx @ [a]) (pv @ [b]) NIL h NIL xs" if "seg nx pv NIL h NIL xs" for h xs
    by (rule seg_frame [OF that]) (use seg_mem [OF that] in \<open>auto simp: nth_append\<close>)
  moreover have "S \<subseteq> {..<length (nx @ [a])}" using assms(1) by (auto simp: chains_ok_def)
  ultimately show ?thesis using assms unfolding chains_ok_def by (simp add: Suc_le_eq) blast
qed

lemma chains_ok_neighbours:
  assumes ok: "chains_ok hds nx pv key S" and x: "x \<in> S"
  shows "nx ! x = NIL \<or> nx ! x \<in> S \<and> key (nx ! x) = key x"
    and "pv ! x = NIL \<or> pv ! x \<in> S \<and> key (pv ! x) = key x"
    and "x < length nx" "key x < length hds"
proof -
  show k: "x < length nx" "key x < length hds" using ok x by (auto simp: chains_ok_def)
  obtain ys where ys: "seg nx pv NIL (hds ! key x) NIL ys" "distinct ys" "set ys = {i \<in> S. key i = key x}"
    using chains_ok_chain [OF ok k(2)] .
  obtain as bs where ab: "ys = as @ x # bs" using ys(3) x by (metis (mono_tags) mem_Collect_eq split_list)
  have "nx ! x = NIL \<or> nx ! x \<in> set ys"
    using seg_neighbours(2) [OF ys(1) [unfolded ab]] ab by auto
  then show "nx ! x = NIL \<or> nx ! x \<in> S \<and> key (nx ! x) = key x" using ys(3) by auto
  have "pv ! x = NIL \<or> pv ! x \<in> set ys"
    using seg_neighbours(1) [OF ys(1) [unfolded ab]] ab by auto
  then show "pv ! x = NIL \<or> pv ! x \<in> S \<and> key (pv ! x) = key x" using ys(3) by auto
qed

lemma chains_ok_head:
  assumes ok: "chains_ok hds nx pv key S" and k: "k < length hds"
  shows "hds ! k = NIL \<or> hds ! k \<in> S \<and> key (hds ! k) = k"
    and "hds ! k = NIL \<longleftrightarrow> (\<forall>i \<in> S. key i \<noteq> k)"
proof -
  obtain ys where ys: "seg nx pv NIL (hds ! k) NIL ys" "distinct ys" "set ys = {i \<in> S. key i = k}"
    using chains_ok_chain [OF ok k] .
  show "hds ! k = NIL \<or> hds ! k \<in> S \<and> key (hds ! k) = k" using ys(1,3) by (cases ys) auto
  show "hds ! k = NIL \<longleftrightarrow> (\<forall>i \<in> S. key i \<noteq> k)" using ys(1,3) by (cases ys) auto
qed

end
