(* ===== verification/Fold.thy ===== *)
theory Fold
  imports Wtf8
begin

text \<open>
  \<open>goz-core/src/fold.rs\<close>: case folding of WTF-8 names. The Unicode tables are parameters:
  \<open>uni_decompose\<close> is \<open>decompose_canonical\<close> and \<open>uni_nfc\<close> the composition of the
  \<open>unicode_normalization\<close> crate, \<open>uni_to_lowercase\<close> the full lowercase mapping of \<open>char\<close>.
\<close>

record unicode =
  uni_decompose :: "u32 \<Rightarrow> u32 list"
  uni_to_lowercase :: "u32 \<Rightarrow> u32 list"
  uni_nfc :: "u32 list \<Rightarrow> u32 list"

definition is_ascii :: "u8 list \<Rightarrow> bool" where
  "is_ascii bs \<longleftrightarrow> list_all (\<lambda>b. b < 0x80) bs"

definition to_ascii_lowercase :: "u8 \<Rightarrow> u8" where
  "to_ascii_lowercase b = (if 0x41 \<le> b \<and> b \<le> 0x5A then b + 0x20 else b)"

definition lower_char :: "unicode \<Rightarrow> u32 \<Rightarrow> u32" where
  "lower_char U c = (case uni_to_lowercase U c of [] \<Rightarrow> c | d # _ \<Rightarrow> d)"

definition encode :: "u32 \<Rightarrow> u8 list \<Rightarrow> u8 list" where
  "encode cp out =
    (if cp < 0x80 then out @ [ucast cp]
     else if cp < 0x800 then
       out @ [0xC0 OR ucast (drop_bit 6 cp), 0x80 OR ucast (cp AND 0x3F)]
     else if cp < 0x10000 then
       out @ [0xE0 OR ucast (drop_bit 12 cp),
              0x80 OR ucast (drop_bit 6 cp AND 0x3F),
              0x80 OR ucast (cp AND 0x3F)]
     else
       out @ [0xF0 OR ucast (drop_bit 18 cp),
              0x80 OR ucast (drop_bit 12 cp AND 0x3F),
              0x80 OR ucast (drop_bit 6 cp AND 0x3F),
              0x80 OR ucast (cp AND 0x3F)])"

definition compose_into :: "unicode \<Rightarrow> u32 list \<Rightarrow> u8 list \<Rightarrow> u32 list \<times> u8 list" where
  "compose_into U run out = (if run = [] then (run, out) else ([], fold encode (uni_nfc U run) out))"

definition fold_code_point :: "unicode \<Rightarrow> u32 \<Rightarrow> u32 list \<times> u8 list \<Rightarrow> u32 list \<times> u8 list" where
  "fold_code_point U cp st =
    (case st of (run, out) \<Rightarrow>
      if is_surrogate cp \<or> 0x10FFFF < cp
      then (let (run, out) = compose_into U run out in (run, encode cp out))
      else (run @ map (lower_char U) (uni_decompose U cp), out))"

definition fold_non_ascii :: "unicode \<Rightarrow> u8 list \<Rightarrow> u8 list \<Rightarrow> u8 list" where
  "fold_non_ascii U bytes out =
    (let (run, out) = fold (fold_code_point U) (code_points bytes) ([], out)
     in snd (compose_into U run out))"

definition fold_into :: "unicode \<Rightarrow> u8 list \<Rightarrow> u8 list \<Rightarrow> u8 list" where
  "fold_into U bytes out =
    (if is_ascii bytes then out @ map to_ascii_lowercase bytes else fold_non_ascii U bytes out)"

definition fold_name :: "unicode \<Rightarrow> u8 list \<Rightarrow> u8 list" where
  "fold_name U bytes = fold_into U bytes []"

section \<open>The fast path\<close>

text \<open>What the Unicode tables say of the first 128 code points.\<close>

definition ascii_tables :: "unicode \<Rightarrow> bool" where
  "ascii_tables U \<longleftrightarrow>
    (\<forall>c < 0x80. uni_decompose U c = [c]) \<and>
    (\<forall>c < 0x80. lower_char U c = (if 0x41 \<le> c \<and> c \<le> 0x5A then c + 0x20 else c)) \<and>
    (\<forall>cs. (\<forall>c \<in> set cs. c < 0x80) \<longrightarrow> uni_nfc U cs = cs)"

lemma encode_eq: "encode = encode_code_point"
  by (intro ext) (simp add: encode_def encode_code_point_def)

lemma unat_ucast_8_32 [simp]: "unat (ucast (b :: u8) :: u32) = unat b"
  using unsigned_less [of b, where 'a = nat] by (intro unat_ucast_small) (simp add: less_trans)

lemma code_points_ascii: "is_ascii bs \<Longrightarrow> code_points bs = map ucast bs"
proof (induction bs)
  case (Cons b bs)
  then have "unat b < 128" by (simp add: is_ascii_def word_less_nat_alt)
  then have "code_points_next (b # bs) 0 = Some (ucast b, 1)"
    by (intro code_points_next_1) simp_all
  then have "code_points (b # bs) = ucast b # code_points bs"
    by (subst code_points_unfold) simp
  with Cons show ?case by (simp add: is_ascii_def)
qed simp

lemma fold_ascii_run:
  assumes "ascii_tables U" "\<forall>c \<in> set cs. c < 0x80"
  shows "fold (fold_code_point U) cs (run, out) = (run @ map (lower_char U) cs, out)"
  using assms(2)
proof (induction cs arbitrary: run)
  case (Cons c cs)
  have "\<not> is_surrogate c" "\<not> 0x10FFFF < c" "uni_decompose U c = [c]"
    using Cons.prems assms(1)
    by (auto simp: is_surrogate_def ascii_tables_def word_less_nat_alt word_le_nat_alt)
  then have "fold_code_point U c (run, out) = (run @ [lower_char U c], out)"
    by (simp add: fold_code_point_def)
  then show ?case using Cons by simp
qed simp

lemma lower_ascii_ucast:
  assumes "ascii_tables U" "b < 0x80"
  shows "lower_char U (ucast b) = ucast (to_ascii_lowercase b)" "to_ascii_lowercase b < 0x80"
proof -
  have b: "(ucast b :: u32) < 0x80" using assms(2) by (simp add: word_less_nat_alt)
  have "unat (b + 0x20) = unat b + 0x20" if "b \<le> 0x5A"
    using that by (subst unat_add_lem [THEN iffD1]) (simp_all add: word_le_nat_alt)
  moreover have "unat (ucast b + 0x20 :: u32) = unat b + 0x20" if "b \<le> 0x5A"
    using that by (subst unat_add_lem [THEN iffD1]) (simp_all add: word_le_nat_alt)
  ultimately show "lower_char U (ucast b) = ucast (to_ascii_lowercase b)"
    using assms(1) b
    by (auto simp: ascii_tables_def to_ascii_lowercase_def word_le_nat_alt word_unat_eq_iff)
  show "to_ascii_lowercase b < 0x80"
    using assms(2) \<open>b \<le> 0x5A \<Longrightarrow> unat (b + 0x20) = unat b + 0x20\<close>
    by (auto simp: to_ascii_lowercase_def word_less_nat_alt word_le_nat_alt)
qed

lemma encode_ascii: "\<forall>b \<in> set bs. b < 0x80 \<Longrightarrow> fold encode (map ucast bs) out = out @ bs"
proof (induction bs arbitrary: out)
  case (Cons b bs)
  then have "(ucast b :: u32) < 0x80" by (simp add: word_less_nat_alt)
  moreover have "(ucast (ucast b :: u32) :: u8) = b"
    using Cons.prems by (simp add: word_unat_eq_iff unat_ucast_small word_less_nat_alt)
  ultimately have "encode (ucast b) out = out @ [b]"
    by (simp add: encode_def)
  with Cons show ?case by simp
qed simp

text \<open>
  The ASCII fast path of the folding is an optimisation and nothing else: on an all-ASCII
  name it produces exactly what decomposing, lowercasing and recomposing would, provided the
  Unicode tables leave ASCII alone apart from the case of letters.
\<close>

theorem fold_fast_path:
  assumes "ascii_tables U" "is_ascii bytes"
  shows "fold_into U bytes out = fold_non_ascii U bytes out"
proof -
  have b: "\<forall>b \<in> set bytes. b < 0x80" using assms(2) by (simp add: is_ascii_def list_all_iff)
  let ?low = "map to_ascii_lowercase bytes"
  have low: "\<forall>b \<in> set ?low. b < 0x80" using lower_ascii_ucast(2) [OF assms(1)] b by auto
  have cs: "\<forall>c \<in> set (map ucast bytes :: u32 list). c < 0x80"
    using b by (auto simp: word_less_nat_alt)
  have run: "map (lower_char U) (map ucast bytes) = (map ucast ?low :: u32 list)"
    using lower_ascii_ucast(1) [OF assms(1)] b by simp
  have "fold (fold_code_point U) (code_points bytes) ([], out) = (map ucast ?low, out)"
    using fold_ascii_run [OF assms(1) cs, of "[]" out] code_points_ascii [OF assms(2)] run by simp
  moreover have "uni_nfc U (map ucast ?low) = map ucast ?low"
    using assms(1) low by (auto simp: ascii_tables_def word_less_nat_alt)
  ultimately show ?thesis
    using assms(2) encode_ascii [OF low, of out]
    by (auto simp: fold_into_def fold_non_ascii_def compose_into_def)
qed

definition ascii_unicode :: unicode where
  "ascii_unicode =
    \<lparr>uni_decompose = (\<lambda>c. [c]),
     uni_to_lowercase = (\<lambda>c. [if 0x41 \<le> c \<and> c \<le> 0x5A then c + 0x20 else c]),
     uni_nfc = (\<lambda>cs. cs)\<rparr>"

theorem fold_fast_path_witness:
  "fold_into ascii_unicode [0x52, 0x45, 0x61] [] = fold_non_ascii ascii_unicode [0x52, 0x45, 0x61] []
   \<and> fold_into ascii_unicode [0x52, 0x45, 0x61] [] = [0x72, 0x65, 0x61]"
  using fold_fast_path [of ascii_unicode "[0x52, 0x45, 0x61]" "[]"]
  by (simp add: ascii_tables_def ascii_unicode_def lower_char_def is_ascii_def fold_into_def
      to_ascii_lowercase_def)

end
