(* ===== verification/Name_Store.thy ===== *)
theory Name_Store
  imports Types Fold "HOL-Library.List_Lexorder" "HOL-Library.Product_Lexorder"
begin

text \<open>
  \<open>NameStore\<close> of \<open>goz-core/src/index/store.rs\<close>: every distinct name once, in two byte
  arenas, with reference counts, the heads of the same-name chains, the intern table and the
  name order. The intern table of \<open>hashbrown\<close> is the list of its (hash, id) slots; the hash
  function and the Unicode tables come from the environment. A \<open>u32\<close> counter is a natural
  number with the wrap-around written out.
\<close>

section \<open>Model\<close>

record env =
  e_unicode :: unicode
  e_hash :: "u8 list \<Rightarrow> u64"

definition e_fold :: "env \<Rightarrow> u8 list \<Rightarrow> u8 list" where
  "e_fold E = fold_name (e_unicode E)"

record name_ref =
  nr_off :: u32
  nr_len :: u16

definition RAW_IN_FOLDED :: u32 where "RAW_IN_FOLDED = push_bit 31 1"
definition UNRANKED :: nat where "UNRANKED = 4294967295"

record name_pair =
  np_raw :: name_ref
  np_folded :: name_ref

record name_store =
  ns_raw :: "u8 list"
  ns_folded :: "u8 list"
  ns_pairs :: "name_pair list"
  ns_refcount :: "nat list"
  ns_head :: "entry_idx list"
  ns_by_bytes :: "(u64 \<times> name_id) list"
  ns_garbage :: nat
  ns_order :: "name_id list"
  ns_rank_of :: "nat list"
  ns_unranked :: "name_id list"
  ns_dead_ranked :: nat

definition names_new :: name_store where
  "names_new =
    \<lparr>ns_raw = [], ns_folded = [], ns_pairs = [], ns_refcount = [], ns_head = [], ns_by_bytes = [],
     ns_garbage = 0, ns_order = [], ns_rank_of = [], ns_unranked = [], ns_dead_ranked = 0\<rparr>"

subsection \<open>The intern table\<close>

fun ht_find :: "u64 \<Rightarrow> (name_id \<Rightarrow> bool option) \<Rightarrow> (u64 \<times> name_id) list \<Rightarrow> name_id option option" where
  "ht_find h P [] = Some None"
| "ht_find h P ((h', i) # slots) =
    (if h' = h then do { b \<leftarrow> P i; if b then Some (Some i) else ht_find h P slots }
     else ht_find h P slots)"

definition ht_insert :: "u64 \<Rightarrow> name_id \<Rightarrow> (u64 \<times> name_id) list \<Rightarrow> (u64 \<times> name_id) list" where
  "ht_insert h i slots = slots @ [(h, i)]"

definition ht_remove :: "u64 \<Rightarrow> name_id \<Rightarrow> (u64 \<times> name_id) list \<Rightarrow> (u64 \<times> name_id) list" where
  "ht_remove h i slots = remove1 (h, i) slots"

subsection \<open>Bytes of a name\<close>

definition names_push :: "u8 list \<Rightarrow> u8 list \<Rightarrow> name_ref \<times> u8 list" where
  "names_push buf bytes =
    (\<lparr>nr_off = word_of_nat (length buf), nr_len = word_of_nat (length bytes)\<rparr>, buf @ bytes @ [0])"

definition raw_bytes_of :: "name_store \<Rightarrow> name_pair \<Rightarrow> u8 list option" where
  "raw_bytes_of nm pair =
    (let r = np_raw pair;
         buf = (if nr_off r AND RAW_IN_FOLDED \<noteq> 0 then ns_folded nm else ns_raw nm);
         off = unat (nr_off r AND NOT RAW_IN_FOLDED)
     in slice buf off (off + unat (nr_len r)))"

definition raw_bytes :: "name_store \<Rightarrow> name_id \<Rightarrow> u8 list option" where
  "raw_bytes nm i = do { p \<leftarrow> idx (ns_pairs nm) i; raw_bytes_of nm p }"

definition folded_bytes_of :: "name_store \<Rightarrow> name_id \<Rightarrow> u8 list option" where
  "folded_bytes_of nm i =
    do {
      p \<leftarrow> idx (ns_pairs nm) i;
      (let r = np_folded p in slice (ns_folded nm) (unat (nr_off r)) (unat (nr_off r) + unat (nr_len r)))
    }"

subsection \<open>Interning and releasing\<close>

definition intern_new :: "env \<Rightarrow> u8 list \<Rightarrow> name_store \<Rightarrow> name_id \<times> name_store" where
  "intern_new E name nm =
    (let fb = e_fold E name;
         (fr, fbuf) = names_push (ns_folded nm) fb;
         (rr, rbuf) = (if fb = name
           then (\<lparr>nr_off = nr_off fr OR RAW_IN_FOLDED, nr_len = nr_len fr\<rparr>, ns_raw nm)
           else names_push (ns_raw nm) name);
         i = as_u32 (length (ns_pairs nm))
     in (i, nm\<lparr>ns_raw := rbuf, ns_folded := fbuf,
              ns_pairs := ns_pairs nm @ [\<lparr>np_raw = rr, np_folded = fr\<rparr>],
              ns_refcount := ns_refcount nm @ [1], ns_head := ns_head nm @ [NIL],
              ns_rank_of := ns_rank_of nm @ [UNRANKED], ns_unranked := ns_unranked nm @ [i],
              ns_by_bytes := ht_insert (e_hash E name) i (ns_by_bytes nm)\<rparr>))"

definition intern :: "env \<Rightarrow> u8 list \<Rightarrow> name_store \<Rightarrow> (name_id \<times> name_store) option" where
  "intern E name nm =
    do {
      found \<leftarrow> ht_find (e_hash E name)
        (\<lambda>i. do { p \<leftarrow> idx (ns_pairs nm) i; b \<leftarrow> raw_bytes_of nm p; Some (b = name) }) (ns_by_bytes nm);
      (case found of
         Some i \<Rightarrow> do {
           rc \<leftarrow> idx (ns_refcount nm) i;
           rcs \<leftarrow> upd (ns_refcount nm) i (as_u32 (rc + 1));
           Some (i, nm\<lparr>ns_refcount := rcs\<rparr>) }
       | None \<Rightarrow> Some (intern_new E name nm))
    }"

text \<open>Overwriting a range of a buffer with zeros.\<close>

definition zero_fill :: "u8 list \<Rightarrow> nat \<Rightarrow> nat \<Rightarrow> u8 list option" where
  "zero_fill buf off len =
    (if off + len \<le> length buf then Some (take off buf @ replicate len 0 @ drop (off + len) buf) else None)"

definition release_last :: "env \<Rightarrow> name_id \<Rightarrow> name_store \<Rightarrow> name_store option" where
  "release_last E i nm =
    do {
      pair \<leftarrow> idx (ns_pairs nm) i;
      b \<leftarrow> raw_bytes_of nm pair;
      let nm = nm\<lparr>ns_by_bytes := ht_remove (e_hash E b) i (ns_by_bytes nm)\<rparr>;
      rk \<leftarrow> idx (ns_rank_of nm) i;
      let nm = (if rk \<noteq> UNRANKED then nm\<lparr>ns_dead_ranked := ns_dead_ranked nm + 1\<rparr> else nm);
      let f = np_folded pair;
      fbuf \<leftarrow> zero_fill (ns_folded nm) (unat (nr_off f)) (unat (nr_len f));
      let nm = nm\<lparr>ns_folded := fbuf, ns_garbage := ns_garbage nm + unat (nr_len f) + 1\<rparr>;
      let r = np_raw pair;
      if nr_off r AND RAW_IN_FOLDED = 0 then do {
        rbuf \<leftarrow> zero_fill (ns_raw nm) (unat (nr_off r)) (unat (nr_len r));
        Some (nm\<lparr>ns_raw := rbuf, ns_garbage := ns_garbage nm + unat (nr_len r) + 1\<rparr>)
      }
      else Some nm
    }"

definition release :: "env \<Rightarrow> name_id \<Rightarrow> name_store \<Rightarrow> name_store option" where
  "release E i nm =
    do {
      rc \<leftarrow> idx (ns_refcount nm) i;
      let rc' = as_u32 (rc + (2 ^ 32 - 1));
      rcs \<leftarrow> upd (ns_refcount nm) i rc';
      let nm = nm\<lparr>ns_refcount := rcs\<rparr>;
      if 0 < rc' then Some nm else release_last E i nm
    }"

definition chain_head :: "name_store \<Rightarrow> name_id \<Rightarrow> entry_idx option" where
  "chain_head nm i = idx (ns_head nm) i"

definition set_chain_head :: "name_id \<Rightarrow> entry_idx \<Rightarrow> name_store \<Rightarrow> name_store option" where
  "set_chain_head i e nm = do { hs \<leftarrow> upd (ns_head nm) i e; Some (nm\<lparr>ns_head := hs\<rparr>) }"

definition should_compact :: "name_store \<Rightarrow> bool" where
  "should_compact nm \<longleftrightarrow>
    (let tot = length (ns_raw nm) + length (ns_folded nm) in 8192 < tot \<and> tot < ns_garbage nm * 4)"

subsection \<open>The name order\<close>

text \<open>The sort key of an id is its folded bytes, then the id: no two ids compare equal, so an
  unstable sort has one possible result. A list of fewer than two ids is never compared.\<close>

definition key_of :: "name_store \<Rightarrow> name_id \<Rightarrow> (u8 list \<times> name_id) option" where
  "key_of nm i = do { f \<leftarrow> folded_bytes_of nm i; Some (f, i) }"

definition sort_ids :: "name_store \<Rightarrow> name_id list \<Rightarrow> name_id list option" where
  "sort_ids nm ids =
    (if length ids < 2 then Some ids
     else do { ks \<leftarrow> those (map (key_of nm) ids); Some (map snd (sort ks)) })"

fun filter_live :: "name_store \<Rightarrow> name_id list \<Rightarrow> name_id list option" where
  "filter_live nm [] = Some []"
| "filter_live nm (i # ids) =
    do {
      rc \<leftarrow> idx (ns_refcount nm) i;
      rest \<leftarrow> filter_live nm ids;
      Some (if 0 < rc then i # rest else rest)
    }"

fun rerank_loop :: "name_store \<Rightarrow> nat \<Rightarrow> nat \<Rightarrow> u8 list option \<Rightarrow> nat list \<Rightarrow> name_id list \<Rightarrow> nat list option" where
  "rerank_loop nm pos group_start prev_live ranks [] = Some ranks"
| "rerank_loop nm pos group_start prev_live ranks (i # ids) =
    do {
      rc \<leftarrow> idx (ns_refcount nm) i;
      if rc = 0 then rerank_loop nm (pos + 1) group_start prev_live ranks ids
      else do {
        f \<leftarrow> folded_bytes_of nm i;
        let start = (if prev_live \<noteq> Some f then pos else group_start);
        ranks \<leftarrow> upd ranks i (as_u32 start);
        rerank_loop nm (pos + 1) start (Some f) ranks ids
      }
    }"

definition rerank :: "name_store \<Rightarrow> name_store option" where
  "rerank nm =
    do {
      ranks \<leftarrow> rerank_loop nm 0 0 None (map (\<lambda>_. UNRANKED) (ns_rank_of nm)) (ns_order nm);
      Some (nm\<lparr>ns_rank_of := ranks\<rparr>)
    }"

definition build_order :: "name_store \<Rightarrow> name_store option" where
  "build_order nm =
    do {
      ids \<leftarrow> filter_live nm [0..<as_u32 (length (ns_pairs nm))];
      ord \<leftarrow> sort_ids nm ids;
      rerank (nm\<lparr>ns_order := ord, ns_unranked := [], ns_dead_ranked := 0\<rparr>)
    }"

definition wants_merge :: "name_store \<Rightarrow> bool" where
  "wants_merge nm \<longleftrightarrow>
    (let limit = max 1024 (length (ns_order nm) div 1000)
     in limit < length (ns_unranked nm) \<or> limit < ns_dead_ranked nm)"

fun merge_loop :: "name_store \<Rightarrow> name_id list \<Rightarrow> name_id list \<Rightarrow> name_id list option" where
  "merge_loop nm (p # old) (n # new) =
    do {
      kn \<leftarrow> key_of nm n;
      kp \<leftarrow> key_of nm p;
      if kn < kp then do { rest \<leftarrow> merge_loop nm (p # old) new; Some (n # rest) }
      else do { rest \<leftarrow> merge_loop nm old (n # new); Some (p # rest) }
    }"
| "merge_loop nm old new = Some (old @ new)"

definition merge_unranked :: "name_store \<Rightarrow> name_store option" where
  "merge_unranked nm =
    (if ns_order nm = [] then build_order nm
     else do {
       new \<leftarrow> filter_live nm (ns_unranked nm);
       new \<leftarrow> sort_ids nm new;
       old \<leftarrow> filter_live nm (ns_order nm);
       merged \<leftarrow> merge_loop nm old new;
       rerank (nm\<lparr>ns_unranked := [], ns_order := merged, ns_dead_ranked := 0\<rparr>)
     })"

fun first_live :: "name_store \<Rightarrow> nat \<Rightarrow> name_id list \<Rightarrow> nat option option" where
  "first_live nm pos [] = Some None"
| "first_live nm pos (i # ids) =
    do {
      rc \<leftarrow> idx (ns_refcount nm) i;
      if 0 < rc then Some (Some pos) else first_live nm (pos + 1) ids
    }"

definition first_live_at :: "name_store \<Rightarrow> nat \<Rightarrow> nat option option" where
  "first_live_at nm from_pos = first_live nm from_pos (drop from_pos (ns_order nm))"

lemma first_live_ge: "first_live nm pos ids = Some (Some p) \<Longrightarrow> pos \<le> p"
  by (induction ids arbitrary: pos) (fastforce split: bind_splits if_splits)+

function (sequential) insertion_loop :: "name_store \<Rightarrow> u8 list \<Rightarrow> nat \<Rightarrow> nat \<Rightarrow> nat option" where
  "insertion_loop nm x lo hi =
    (if lo < hi then
       (let mid = lo + (hi - lo) div 2 in
        case first_live_at nm mid of
          None \<Rightarrow> None
        | Some None \<Rightarrow> insertion_loop nm x lo mid
        | Some (Some p) \<Rightarrow>
            (if p < hi then
               (case Option.bind (idx (ns_order nm) p) (folded_bytes_of nm) of
                  None \<Rightarrow> None
                | Some f \<Rightarrow> if f < x then insertion_loop nm x (p + 1) hi else insertion_loop nm x lo mid)
             else insertion_loop nm x lo mid))
     else Some lo)"
  by pat_completeness auto

termination
  by (relation "measure (\<lambda>(nm, x, lo, hi). hi - lo)")
    (auto simp: first_live_at_def dest!: first_live_ge)

declare insertion_loop.simps [simp del]

definition insertion_point :: "name_store \<Rightarrow> u8 list \<Rightarrow> nat option" where
  "insertion_point nm x = insertion_loop nm x 0 (length (ns_order nm))"

definition rank_key :: "name_store \<Rightarrow> name_id \<Rightarrow> nat option" where
  "rank_key nm i =
    do {
      r \<leftarrow> idx (ns_rank_of nm) i;
      if r \<noteq> UNRANKED then Some (2 * r + 1)
      else do {
        x \<leftarrow> folded_bytes_of nm i;
        p \<leftarrow> insertion_point nm x;
        found \<leftarrow> first_live_at nm p;
        (case found of
           Some pos \<Rightarrow> do {
             j \<leftarrow> idx (ns_order nm) pos;
             f \<leftarrow> folded_bytes_of nm j;
             if f = x then do { rj \<leftarrow> idx (ns_rank_of nm) j; Some (2 * rj + 1) }
             else Some (2 * p) }
         | None \<Rightarrow> Some (2 * p))
      }
    }"

subsection \<open>Compaction\<close>

record compacted_names =
  cn_raw :: "u8 list"
  cn_folded :: "u8 list"
  cn_pairs :: "name_pair list"
  cn_refcount :: "nat list"
  cn_head :: "entry_idx list"
  cn_remap :: "name_id list"

definition plan_step :: "name_store \<Rightarrow> nat \<Rightarrow> nat \<Rightarrow> compacted_names \<Rightarrow> compacted_names option" where
  "plan_step nm i rc c =
    do {
      pair \<leftarrow> idx (ns_pairs nm) i;
      fb \<leftarrow> folded_bytes_of nm (as_u32 i);
      let (fr, fbuf) = names_push (cn_folded c) fb;
      (rr, rbuf) \<leftarrow>
        (if nr_off (np_raw pair) AND RAW_IN_FOLDED \<noteq> 0
         then Some (\<lparr>nr_off = nr_off fr OR RAW_IN_FOLDED, nr_len = nr_len fr\<rparr>, cn_raw c)
         else do { rb \<leftarrow> raw_bytes_of nm pair; Some (names_push (cn_raw c) rb) });
      remap \<leftarrow> upd (cn_remap c) i (as_u32 (length (cn_pairs c)));
      h \<leftarrow> idx (ns_head nm) i;
      Some \<lparr>cn_raw = rbuf, cn_folded = fbuf, cn_pairs = cn_pairs c @ [\<lparr>np_raw = rr, np_folded = fr\<rparr>],
            cn_refcount = cn_refcount c @ [rc], cn_head = cn_head c @ [h], cn_remap = remap\<rparr>
    }"

fun plan_loop :: "name_store \<Rightarrow> nat \<Rightarrow> nat list \<Rightarrow> compacted_names \<Rightarrow> compacted_names option" where
  "plan_loop nm i [] c = Some c"
| "plan_loop nm i (rc # rcs) c =
    (if rc = 0 then plan_loop nm (i + 1) rcs c
     else do { c \<leftarrow> plan_step nm i rc c; plan_loop nm (i + 1) rcs c })"

definition plan_compact :: "name_store \<Rightarrow> compacted_names option" where
  "plan_compact nm =
    plan_loop nm 0 (ns_refcount nm)
      \<lparr>cn_raw = [], cn_folded = [], cn_pairs = [], cn_refcount = [], cn_head = [],
       cn_remap = replicate (length (ns_pairs nm)) NIL\<rparr>"

fun renumber :: "name_id list \<Rightarrow> name_id list \<Rightarrow> name_id list option" where
  "renumber remap [] = Some []"
| "renumber remap (i # ids) =
    do {
      n \<leftarrow> idx remap i;
      rest \<leftarrow> renumber remap ids;
      Some (if n \<noteq> NIL then n # rest else rest)
    }"

fun rebuild_table :: "env \<Rightarrow> name_store \<Rightarrow> name_id list \<Rightarrow> (u64 \<times> name_id) list \<Rightarrow> (u64 \<times> name_id) list option" where
  "rebuild_table E nm [] slots = Some slots"
| "rebuild_table E nm (i # ids) slots =
    do { b \<leftarrow> raw_bytes nm i; rebuild_table E nm ids (ht_insert (e_hash E b) i slots) }"

definition install_compacted :: "env \<Rightarrow> compacted_names \<Rightarrow> name_store \<Rightarrow> (name_id list \<times> name_store) option" where
  "install_compacted E c nm =
    do {
      ord \<leftarrow> renumber (cn_remap c) (ns_order nm);
      unr \<leftarrow> renumber (cn_remap c) (ns_unranked nm);
      let nm = nm\<lparr>ns_order := ord, ns_unranked := unr, ns_raw := cn_raw c, ns_folded := cn_folded c,
                  ns_pairs := cn_pairs c, ns_refcount := cn_refcount c, ns_head := cn_head c, ns_garbage := 0\<rparr>;
      table \<leftarrow> rebuild_table E nm [0..<as_u32 (length (ns_pairs nm))] [];
      nm \<leftarrow> rerank (nm\<lparr>ns_by_bytes := table,
                        ns_rank_of := replicate (length (ns_pairs nm)) UNRANKED, ns_dead_ranked := 0\<rparr>);
      Some (cn_remap c, nm)
    }"

section \<open>What a store keeps\<close>

abbreviation (input) "f_off p \<equiv> unat (nr_off (np_folded p))"
abbreviation (input) "f_len p \<equiv> unat (nr_len (np_folded p))"
abbreviation (input) "r_off p \<equiv> unat (nr_off (np_raw p))"
abbreviation (input) "r_len p \<equiv> unat (nr_len (np_raw p))"

definition shared :: "name_pair \<Rightarrow> bool" where
  "shared p \<longleftrightarrow> nr_off (np_raw p) AND RAW_IN_FOLDED \<noteq> 0"

definition sub :: "u8 list \<Rightarrow> nat \<Rightarrow> nat \<Rightarrow> u8 list" where
  "sub buf off len = take len (drop off buf)"

definition folded_at :: "u8 list \<Rightarrow> name_pair \<Rightarrow> u8 list" where
  "folded_at fbuf p = sub fbuf (f_off p) (f_len p)"

definition raw_at :: "u8 list \<Rightarrow> u8 list \<Rightarrow> name_pair \<Rightarrow> u8 list" where
  "raw_at rbuf fbuf p = (if shared p then folded_at fbuf p else sub rbuf (r_off p) (r_len p))"

definition raw_of :: "name_store \<Rightarrow> name_id \<Rightarrow> u8 list" where
  "raw_of nm i = raw_at (ns_raw nm) (ns_folded nm) (ns_pairs nm ! i)"

definition folded_of :: "name_store \<Rightarrow> name_id \<Rightarrow> u8 list" where
  "folded_of nm i = folded_at (ns_folded nm) (ns_pairs nm ! i)"

definition names_live :: "name_store \<Rightarrow> name_id set" where
  "names_live nm = {i. i < length (ns_refcount nm) \<and> 0 < ns_refcount nm ! i}"

end
