(* ===== verification/Name_Inv.thy ===== *)
theory Name_Inv
  imports Name_Store "HOL-Library.Multiset"
begin

text \<open>
  What the interned name store promises: the two arenas hold every name between separators, live
  names are distinct and found through the intern table, dead names are zeroed. Interning and
  releasing keep this and implement a multiset of names.
\<close>

section \<open>References\<close>

lemma u32_eq_iff: "(x :: u32) = y \<longleftrightarrow> (\<forall>n<32. bit x n = bit y n)"
  using bit_word_eqI[of x y] by auto

lemma bit_RAW_IN_FOLDED [simp]: "bit RAW_IN_FOLDED n \<longleftrightarrow> n = 31"
  unfolding RAW_IN_FOLDED_def bit_push_bit_iff by (auto simp: bit_simps)

lemma low_no_bit: "unat (x :: u32) < 2 ^ 31 \<Longrightarrow> \<not> bit x 31"
  using bit_imp_le_unat[of x 31] by auto

lemma and_RAW_iff: "(x :: u32) AND RAW_IN_FOLDED \<noteq> 0 \<longleftrightarrow> bit x 31"
proof -
  have "(x AND RAW_IN_FOLDED = 0) \<longleftrightarrow> (\<forall>n<32. \<not> (bit x n \<and> n = 31))"
    by (simp add: u32_eq_iff bit_and_iff)
  then show ?thesis by auto
qed

lemma low_ref [simp]:
  assumes "unat (x :: u32) < 2 ^ 31"
  shows "(x OR RAW_IN_FOLDED) AND NOT RAW_IN_FOLDED = x"
  using low_no_bit[OF assms] by (auto simp: u32_eq_iff bit_and_iff bit_or_iff bit_not_iff)

lemma unshared_ref: "\<not> bit (x :: u32) 31 \<Longrightarrow> x AND NOT RAW_IN_FOLDED = x"
  by (auto simp: u32_eq_iff bit_and_iff bit_not_iff)

lemma shared_iff: "shared p \<longleftrightarrow> bit (nr_off (np_raw p)) 31"
  unfolding shared_def by (rule and_RAW_iff)

lemma shared_ref_bit [simp]: "bit (x OR RAW_IN_FOLDED) 31"
  by (simp add: bit_or_iff)

section \<open>Arenas\<close>

text \<open>The folded segments follow each other, one separator apart, in the order of the ids.\<close>

fun lay_out :: "nat \<Rightarrow> name_pair list \<Rightarrow> nat \<Rightarrow> bool" where
  "lay_out a [] b \<longleftrightarrow> a = b"
| "lay_out a (p # ps) b \<longleftrightarrow> f_off p = a \<and> lay_out (a + f_len p + 1) ps b"

lemma lay_out_append: "lay_out a (ps @ qs) c \<longleftrightarrow> (\<exists>b. lay_out a ps b \<and> lay_out b qs c)"
  by (induction ps arbitrary: a) auto

lemma lay_out_le: "lay_out a ps b \<Longrightarrow> a + length ps \<le> b"
  by (induction ps arbitrary: a) fastforce+

lemma lay_out_nth:
  "lay_out a ps b \<Longrightarrow> i < length ps \<Longrightarrow> a \<le> f_off (ps ! i) \<and> f_off (ps ! i) + f_len (ps ! i) < b"
proof (induction ps arbitrary: a i)
  case (Cons p ps)
  show ?case
  proof (cases i)
    case 0
    then show ?thesis using Cons.prems lay_out_le[of "a + f_len p + 1" ps b] by auto
  next
    case (Suc j)
    then show ?thesis using Cons.IH[of "a + f_len p + 1" j] Cons.prems by auto
  qed
qed simp

lemma lay_out_ascending:
  "lay_out a ps b \<Longrightarrow> i < j \<Longrightarrow> j < length ps \<Longrightarrow> f_off (ps ! i) + f_len (ps ! i) < f_off (ps ! j)"
proof (induction ps arbitrary: a i j)
  case (Cons p ps)
  then obtain k where j: "j = Suc k" by (cases j) auto
  show ?case
  proof (cases i)
    case 0
    then show ?thesis using Cons.prems j lay_out_nth[of "a + f_len p + 1" ps b k] by auto
  next
    case (Suc l)
    then show ?thesis using Cons.IH[of "a + f_len p + 1" l k] Cons.prems j by auto
  qed
qed simp

definition arena :: "u8 list \<Rightarrow> u8 list \<Rightarrow> name_pair list \<Rightarrow> bool" where
  "arena raw folded ps \<longleftrightarrow>
    length raw \<le> 2 ^ 31 \<and> length folded \<le> 2 ^ 31 \<and> lay_out 0 ps (length folded) \<and>
    (\<forall>p \<in> set ps.
       (shared p \<longrightarrow> np_raw p = \<lparr>nr_off = nr_off (np_folded p) OR RAW_IN_FOLDED, nr_len = nr_len (np_folded p)\<rparr>) \<and>
       (\<not> shared p \<longrightarrow> r_off p + r_len p < length raw) \<and>
       folded ! (f_off p + f_len p) = 0) \<and>
    sorted_wrt (\<lambda>p q. \<not> shared p \<longrightarrow> \<not> shared q \<longrightarrow> r_off p + r_len p < r_off q) ps"

abbreviation arena_ok :: "name_store \<Rightarrow> bool" where
  "arena_ok nm \<equiv> arena (ns_raw nm) (ns_folded nm) (ns_pairs nm)"

lemma arena_folded_range:
  assumes "arena raw folded ps" "p \<in> set ps"
  shows "f_off p + f_len p < length folded"
  using assms lay_out_nth[of 0 ps] unfolding arena_def in_set_conv_nth by auto

lemma arena_raw_range:
  "arena raw folded ps \<Longrightarrow> p \<in> set ps \<Longrightarrow> \<not> shared p \<Longrightarrow> r_off p + r_len p < length raw"
  by (simp add: arena_def)

lemma slice_sub: "off + len \<le> length buf \<Longrightarrow> slice buf off (off + len) = Some (sub buf off len)"
  by (simp add: slice_def sub_def)

lemma sub_append [simp]: "off + len \<le> length buf \<Longrightarrow> sub (buf @ x) off len = sub buf off len"
  by (simp add: sub_def)

lemma sub_end [simp]: "off = length buf \<Longrightarrow> len = length x \<Longrightarrow> sub (buf @ x @ y) off len = x"
  by (simp add: sub_def)

lemma raw_bytes_of_at:
  assumes ok: "arena_ok nm" and p: "p \<in> set (ns_pairs nm)"
  shows "raw_bytes_of nm p = Some (raw_at (ns_raw nm) (ns_folded nm) p)"
proof (cases "shared p")
  case True
  have f: "f_off p + f_len p < length (ns_folded nm)" by (rule arena_folded_range[OF ok p])
  have small: "f_off p < 2 ^ 31" using f ok by (auto simp: arena_def)
  have eq: "np_raw p = \<lparr>nr_off = nr_off (np_folded p) OR RAW_IN_FOLDED, nr_len = nr_len (np_folded p)\<rparr>"
    using ok p True by (auto simp: arena_def)
  show ?thesis
    using True f small
    by (simp add: raw_bytes_of_def raw_at_def folded_at_def slice_sub shared_def eq)
next
  case False
  have r: "r_off p + r_len p < length (ns_raw nm)" by (rule arena_raw_range[OF ok p False])
  have b: "\<not> bit (nr_off (np_raw p)) 31" using False by (simp add: shared_iff)
  show ?thesis
    using False r b
    by (simp add: raw_bytes_of_def raw_at_def slice_sub shared_def unshared_ref Let_def)
qed

lemma folded_bytes_of_at:
  assumes "arena_ok nm" "i < length (ns_pairs nm)"
  shows "folded_bytes_of nm i = Some (folded_of nm i)"
  using assms arena_folded_range[OF assms(1), of "ns_pairs nm ! i"]
  by (simp add: folded_bytes_of_def folded_of_def folded_at_def slice_sub idx_simps Let_def)

lemma raw_bytes_at:
  assumes "arena_ok nm" "i < length (ns_pairs nm)"
  shows "raw_bytes nm i = Some (raw_of nm i)"
  using assms raw_bytes_of_at[of nm "ns_pairs nm ! i"]
  by (simp add: raw_bytes_def raw_of_def idx_simps)

subsection \<open>Appending a name\<close>

definition push_pair :: "bool \<Rightarrow> u8 list \<Rightarrow> u8 list \<Rightarrow> u8 list \<Rightarrow> u8 list \<Rightarrow> name_pair \<times> u8 list \<times> u8 list" where
  "push_pair sh rb fb raw folded =
    (let (fr, folded') = names_push folded fb;
         (rr, raw') = (if sh then (\<lparr>nr_off = nr_off fr OR RAW_IN_FOLDED, nr_len = nr_len fr\<rparr>, raw)
                       else names_push raw rb)
     in (\<lparr>np_raw = rr, np_folded = fr\<rparr>, raw', folded'))"

definition push_room :: "bool \<Rightarrow> u8 list \<Rightarrow> u8 list \<Rightarrow> nat \<Rightarrow> nat \<Rightarrow> bool" where
  "push_room sh rb fb rn fn \<longleftrightarrow>
    length fb < 2 ^ 16 \<and> length rb < 2 ^ 16 \<and> fn + length fb + 1 \<le> 2 ^ 31 \<and>
    (if sh then rb = fb else rn + length rb + 1 \<le> 2 ^ 31)"

lemma arena_push_cases:
  assumes ok: "arena raw folded ps" and room: "push_room sh rb fb (length raw) (length folded)"
    and push: "push_pair sh rb fb raw folded = (p, raw', folded')"
  shows "shared p = sh" "f_off p = length folded" "f_len p = length fb" "folded' = folded @ fb @ [0]"
    "\<not> sh \<Longrightarrow> r_off p = length raw" "\<not> sh \<Longrightarrow> r_len p = length rb"
    "raw' = (if sh then raw else raw @ rb @ [0])"
    "sh \<Longrightarrow> np_raw p = \<lparr>nr_off = nr_off (np_folded p) OR RAW_IN_FOLDED, nr_len = nr_len (np_folded p)\<rparr>"
proof -
  have "\<not> bit (word_of_nat (length raw) :: u32) 31" if "\<not> sh"
    using room that by (intro low_no_bit) (simp add: push_room_def unat_of_nat)
  then show "shared p = sh" "f_off p = length folded" "f_len p = length fb" "folded' = folded @ fb @ [0]"
    "\<not> sh \<Longrightarrow> r_off p = length raw" "\<not> sh \<Longrightarrow> r_len p = length rb"
    "raw' = (if sh then raw else raw @ rb @ [0])"
    "sh \<Longrightarrow> np_raw p = \<lparr>nr_off = nr_off (np_folded p) OR RAW_IN_FOLDED, nr_len = nr_len (np_folded p)\<rparr>"
    using room push
    by (auto simp: push_pair_def names_push_def push_room_def shared_iff unat_of_nat split: if_splits)
qed

lemma arena_push:
  assumes ok: "arena raw folded ps" and room: "push_room sh rb fb (length raw) (length folded)"
    and push: "push_pair sh rb fb raw folded = (p, raw', folded')"
  shows "arena raw' folded' (ps @ [p])"
    "raw_at raw' folded' p = rb" "folded_at folded' p = fb"
    "\<And>q. q \<in> set ps \<Longrightarrow> raw_at raw' folded' q = raw_at raw folded q"
    "\<And>q. q \<in> set ps \<Longrightarrow> folded_at folded' q = folded_at folded q"
proof -
  note new = arena_push_cases[OF ok room push]
  note fr = arena_folded_range[OF ok] and rr = arena_raw_range[OF ok]
  show "folded_at folded' p = fb" by (simp add: folded_at_def new)
  then show "raw_at raw' folded' p = rb"
    using room new by (simp add: raw_at_def push_room_def)
  show fq: "\<And>q. q \<in> set ps \<Longrightarrow> folded_at folded' q = folded_at folded q"
    using fr by (simp add: folded_at_def new less_imp_le)
  then show "\<And>q. q \<in> set ps \<Longrightarrow> raw_at raw' folded' q = raw_at raw folded q"
    using rr by (simp add: raw_at_def new less_imp_le)
  have lens: "length raw' \<le> 2 ^ 31" "length folded' \<le> 2 ^ 31"
    using room ok by (auto simp: new push_room_def arena_def split: if_splits)
  have lay: "lay_out 0 (ps @ [p]) (length folded')"
    using ok by (auto simp: arena_def lay_out_append new)
  have old: "(shared q \<longrightarrow> np_raw q = \<lparr>nr_off = nr_off (np_folded q) OR RAW_IN_FOLDED, nr_len = nr_len (np_folded q)\<rparr>) \<and>
       (\<not> shared q \<longrightarrow> r_off q + r_len q < length raw') \<and> folded' ! (f_off q + f_len q) = 0" if "q \<in> set ps" for q
    using that ok fr[OF that] by (auto simp: arena_def new nth_append split: if_splits)
  have fresh: "(shared p \<longrightarrow> np_raw p = \<lparr>nr_off = nr_off (np_folded p) OR RAW_IN_FOLDED, nr_len = nr_len (np_folded p)\<rparr>) \<and>
       (\<not> shared p \<longrightarrow> r_off p + r_len p < length raw') \<and> folded' ! (f_off p + f_len p) = 0"
    using new by (auto simp: nth_append split: if_splits)
  have srt: "sorted_wrt (\<lambda>p q. \<not> shared p \<longrightarrow> \<not> shared q \<longrightarrow> r_off p + r_len p < r_off q) (ps @ [p])"
    using ok rr by (auto simp: arena_def sorted_wrt_append new)
  show "arena raw' folded' (ps @ [p])"
    unfolding arena_def using lens lay old fresh srt by (simp del: One_nat_def)
qed

subsection \<open>Overwriting a name\<close>

lemma zero_fill_in:
  assumes "off + len \<le> length buf"
  shows "\<exists>buf'. zero_fill buf off len = Some buf' \<and> length buf' = length buf \<and>
    (\<forall>k < length buf. buf' ! k = (if off \<le> k \<and> k < off + len then 0 else buf ! k))"
  using assms
  by (auto simp: zero_fill_def nth_append min_def not_less less_imp_le intro!: arg_cong[where f="nth buf"])

lemma sub_nth_cong:
  assumes "length buf' = length buf" "off + len \<le> length buf"
    "\<And>k. off \<le> k \<Longrightarrow> k < off + len \<Longrightarrow> buf' ! k = buf ! k"
  shows "sub buf' off len = sub buf off len"
  using assms by (intro nth_equalityI) (auto simp: sub_def)

lemma zero_fill_apart:
  assumes "zero_fill buf off len = Some buf'" "o' + l' \<le> length buf" "o' + l' \<le> off \<or> off + len \<le> o'"
  shows "sub buf' o' l' = sub buf o' l'"
proof -
  have "off + len \<le> length buf" using assms(1) by (auto simp: zero_fill_def split: if_splits)
  from zero_fill_in[OF this] assms(1) have l: "length buf' = length buf"
    and b: "\<forall>k < length buf. buf' ! k = (if off \<le> k \<and> k < off + len then 0 else buf ! k)" by auto
  show ?thesis using assms(2,3) b l by (intro sub_nth_cong) auto
qed

lemma zero_fill_sub:
  assumes "zero_fill buf off len = Some buf'"
  shows "sub buf' off len = replicate len 0"
  using assms by (auto simp: zero_fill_def sub_def split: if_splits)

lemma zero_fill_length: "zero_fill buf off len = Some buf' \<Longrightarrow> length buf' = length buf"
  by (auto simp: zero_fill_def split: if_splits)

lemma zero_fill_nth:
  "zero_fill buf off len = Some buf' \<Longrightarrow> k < length buf \<Longrightarrow> k < off \<or> off + len \<le> k \<Longrightarrow> buf' ! k = buf ! k"
  using zero_fill_in[of off len buf] by (auto simp: zero_fill_def split: if_splits)

lemma arena_apart:
  assumes ok: "arena raw folded ps" and ij: "i < length ps" "j < length ps" "i \<noteq> j"
  shows "f_off (ps ! i) + f_len (ps ! i) < f_off (ps ! j) \<or> f_off (ps ! j) + f_len (ps ! j) < f_off (ps ! i)"
    "\<not> shared (ps ! i) \<Longrightarrow> \<not> shared (ps ! j) \<Longrightarrow>
      r_off (ps ! i) + r_len (ps ! i) < r_off (ps ! j) \<or> r_off (ps ! j) + r_len (ps ! j) < r_off (ps ! i)"
proof -
  consider "i < j" | "j < i" using ij(3) by linarith
  then show "f_off (ps ! i) + f_len (ps ! i) < f_off (ps ! j) \<or> f_off (ps ! j) + f_len (ps ! j) < f_off (ps ! i)"
    by cases (use ok ij lay_out_ascending[of 0 ps] in \<open>auto simp: arena_def\<close>)
  assume "\<not> shared (ps ! i)" "\<not> shared (ps ! j)"
  then show "r_off (ps ! i) + r_len (ps ! i) < r_off (ps ! j) \<or> r_off (ps ! j) + r_len (ps ! j) < r_off (ps ! i)"
    using ok ij by (cases "i < j") (auto simp: arena_def sorted_wrt_iff_nth_less)
qed

lemma arena_kill:
  assumes ok: "arena raw folded ps" and i: "i < length ps" and p: "p = ps ! i"
  shows "\<exists>folded'. zero_fill folded (f_off p) (f_len p) = Some folded' \<and>
    (\<exists>raw'. (if shared p then raw' = raw else zero_fill raw (r_off p) (r_len p) = Some raw') \<and>
       arena raw' folded' ps \<and> folded_at folded' p = replicate (f_len p) 0 \<and>
       (\<forall>j < length ps. j \<noteq> i \<longrightarrow> raw_at raw' folded' (ps ! j) = raw_at raw folded (ps ! j) \<and>
          folded_at folded' (ps ! j) = folded_at folded (ps ! j)))"
proof -
  have pm: "p \<in> set ps" using i p by simp
  note fr = arena_folded_range[OF ok] and rr = arena_raw_range[OF ok]
  obtain folded' where f': "zero_fill folded (f_off p) (f_len p) = Some folded'"
    using zero_fill_in[of "f_off p" "f_len p" folded] fr[OF pm] by auto
  obtain raw' where r': "if shared p then raw' = raw else zero_fill raw (r_off p) (r_len p) = Some raw'"
    using zero_fill_in[of "r_off p" "r_len p" raw] rr[OF pm] by (cases "shared p") auto
  have len: "length folded' = length folded" "length raw' = length raw"
    using zero_fill_length f' r' by (auto split: if_splits)
  have fq: "folded_at folded' (ps ! j) = folded_at folded (ps ! j)" if "j < length ps" "j \<noteq> i" for j
    unfolding folded_at_def using arena_apart(1)[OF ok that(1) i that(2)] fr[of "ps ! j"] that p
    by (intro zero_fill_apart[OF f']) auto
  have rq: "raw_at raw' folded' (ps ! j) = raw_at raw folded (ps ! j)" if "j < length ps" "j \<noteq> i" for j
  proof (cases "shared (ps ! j) \<or> shared p")
    case True
    then show ?thesis using fq[OF that] r' by (auto simp: raw_at_def split: if_splits)
  next
    case False
    then have z: "zero_fill raw (r_off p) (r_len p) = Some raw'" using r' by simp
    show ?thesis unfolding raw_at_def
      using False arena_apart(2)[OF ok that(1) i that(2)] rr[of "ps ! j"] that p
      by (auto intro!: zero_fill_apart[OF z])
  qed
  have sep: "folded' ! (f_off q + f_len q) = 0" if "q \<in> set ps" for q
  proof -
    obtain j where j: "j < length ps" "q = ps ! j" using \<open>q \<in> set ps\<close> by (metis in_set_conv_nth)
    have "folded ! (f_off q + f_len q) = 0" using ok that by (simp add: arena_def)
    moreover have "folded' ! (f_off q + f_len q) = folded ! (f_off q + f_len q)"
      using j p arena_apart(1)[OF ok j(1) i] fr[OF that]
      by (intro zero_fill_nth[OF f']) (cases "j = i"; auto)+
    ultimately show ?thesis by simp
  qed
  have "arena raw' folded' ps" using ok sep len by (auto simp: arena_def)
  moreover have "folded_at folded' p = replicate (f_len p) 0"
    unfolding folded_at_def by (rule zero_fill_sub[OF f'])
  ultimately show ?thesis using f' r' fq rq by blast
qed

section \<open>The invariant of the store\<close>

definition names_ok :: "env \<Rightarrow> name_store \<Rightarrow> bool" where
  "names_ok E nm \<longleftrightarrow>
    arena_ok nm \<and>
    length (ns_pairs nm) \<le> NIL \<and> length (ns_refcount nm) = length (ns_pairs nm) \<and>
    length (ns_head nm) = length (ns_pairs nm) \<and> length (ns_rank_of nm) = length (ns_pairs nm) \<and>
    (\<forall>rc \<in> set (ns_refcount nm). rc < 2 ^ 32) \<and>
    (\<forall>i \<in> names_live nm. folded_of nm i = e_fold E (raw_of nm i)) \<and>
    (\<forall>i < length (ns_pairs nm). i \<notin> names_live nm \<longrightarrow> set (folded_of nm i) \<subseteq> {0}) \<and>
    inj_on (raw_of nm) (names_live nm) \<and>
    distinct (ns_by_bytes nm) \<and>
    set (ns_by_bytes nm) = (\<lambda>i. (e_hash E (raw_of nm i), i)) ` names_live nm"

definition intern_room :: "env \<Rightarrow> u8 list \<Rightarrow> name_store \<Rightarrow> bool" where
  "intern_room E name nm \<longleftrightarrow>
    length (ns_pairs nm) < NIL \<and> (\<forall>rc \<in> set (ns_refcount nm). rc < 2 ^ 32 - 1) \<and>
    length name < 2 ^ 16 \<and> length (e_fold E name) < 2 ^ 16 \<and>
    length (ns_raw nm) + length name + 1 \<le> 2 ^ 31 \<and>
    length (ns_folded nm) + length (e_fold E name) + 1 \<le> 2 ^ 31"

lemma names_new_ok: "names_ok E names_new"
  by (simp add: names_ok_def names_new_def arena_def names_live_def)

lemma live_less: "names_ok E nm \<Longrightarrow> i \<in> names_live nm \<Longrightarrow> i < length (ns_pairs nm)"
  by (simp add: names_ok_def names_live_def)

lemma names_raw_bytes: "names_ok E nm \<Longrightarrow> i < length (ns_pairs nm) \<Longrightarrow> raw_bytes nm i = Some (raw_of nm i)"
  by (rule raw_bytes_at) (simp_all add: names_ok_def)

lemma names_folded_bytes:
  "names_ok E nm \<Longrightarrow> i < length (ns_pairs nm) \<Longrightarrow> folded_bytes_of nm i = Some (folded_of nm i)"
  by (rule folded_bytes_of_at) (simp_all add: names_ok_def)

subsection \<open>The intern table\<close>

lemma ht_find_find:
  assumes "\<forall>s \<in> set slots. P (snd s) = Some (Q (snd s))"
  shows "ht_find h P slots = Some (map_option snd (find (\<lambda>(h', i). h' = h \<and> Q i) slots))"
  using assms
proof (induction slots)
  case (Cons s slots)
  then show ?case by (cases s) simp
qed simp

lemma ht_find_raw:
  assumes ok: "names_ok E nm"
  shows "ht_find (e_hash E name)
      (\<lambda>i. do { p \<leftarrow> idx (ns_pairs nm) i; b \<leftarrow> raw_bytes_of nm p; Some (b = name) }) (ns_by_bytes nm) =
    Some (map_option snd (find (\<lambda>(h, i). h = e_hash E name \<and> raw_of nm i = name) (ns_by_bytes nm)))"
proof (rule ht_find_find, rule ballI)
  fix s assume "s \<in> set (ns_by_bytes nm)"
  moreover define i where "i = snd s"
  ultimately have "i \<in> names_live nm" using ok by (auto simp: names_ok_def)
  from names_raw_bytes[OF ok live_less[OF ok this]]
  show "do { p \<leftarrow> idx (ns_pairs nm) (snd s); b \<leftarrow> raw_bytes_of nm p; Some (b = name) } = Some (raw_of nm (snd s) = name)"
    unfolding i_def[symmetric] by (auto simp: raw_bytes_def split: bind_splits)
qed

lemma intern_cases:
  assumes ok: "names_ok E nm"
  obtains (found) i where "i \<in> names_live nm" "raw_of nm i = name"
      "intern E name nm = Some (i, nm\<lparr>ns_refcount := (ns_refcount nm)[i := as_u32 (ns_refcount nm ! i + 1)]\<rparr>)"
  | (fresh) "\<And>i. i \<in> names_live nm \<Longrightarrow> raw_of nm i \<noteq> name" "intern E name nm = Some (intern_new E name nm)"
proof (cases "find (\<lambda>(h, i). h = e_hash E name \<and> raw_of nm i = name) (ns_by_bytes nm)")
  case None
  then have "raw_of nm i \<noteq> name" if "i \<in> names_live nm" for i
    using that ok by (force simp: find_None_iff names_ok_def)
  then show ?thesis using None ht_find_raw[OF ok, of name] by (intro fresh) (simp_all add: intern_def)
next
  case (Some slot)
  then obtain i where i: "slot = (e_hash E name, i)" "raw_of nm i = name" "slot \<in> set (ns_by_bytes nm)"
    by (auto simp: find_Some_iff) (metis nth_mem)
  then have "i \<in> names_live nm" using ok by (auto simp: names_ok_def)
  then show ?thesis
    using found[of i] i Some ht_find_raw[OF ok, of name] by (simp add: intern_def names_live_def)
qed

subsection \<open>Interning\<close>

lemma intern_new_push:
  "push_pair (e_fold E name = name) name (e_fold E name) (ns_raw nm) (ns_folded nm) = (p, raw', folded') \<Longrightarrow>
   intern_new E name nm = (as_u32 (length (ns_pairs nm)),
     nm\<lparr>ns_raw := raw', ns_folded := folded', ns_pairs := ns_pairs nm @ [p],
        ns_refcount := ns_refcount nm @ [1], ns_head := ns_head nm @ [NIL],
        ns_rank_of := ns_rank_of nm @ [UNRANKED],
        ns_unranked := ns_unranked nm @ [as_u32 (length (ns_pairs nm))],
        ns_by_bytes := ns_by_bytes nm @ [(e_hash E name, as_u32 (length (ns_pairs nm)))]\<rparr>)"
  by (auto simp: intern_new_def push_pair_def ht_insert_def Let_def split: prod.splits if_splits)

lemma intern_new_ok:
  assumes ok: "names_ok E nm" and room: "intern_room E name nm"
    and none: "\<And>i. i \<in> names_live nm \<Longrightarrow> raw_of nm i \<noteq> name"
    and new: "intern_new E name nm = (i, nm')"
  shows "i = length (ns_pairs nm)" "names_ok E nm'" "names_live nm' = insert i (names_live nm)"
    "raw_of nm' i = name" "folded_of nm' i = e_fold E name"
    "\<And>j. j < length (ns_pairs nm) \<Longrightarrow> raw_of nm' j = raw_of nm j"
    "\<And>j. j < length (ns_pairs nm) \<Longrightarrow> folded_of nm' j = folded_of nm j"
    "ns_refcount nm' = ns_refcount nm @ [1]" "ns_head nm' = ns_head nm @ [NIL]"
proof -
  let ?m = "length (ns_pairs nm)"
  obtain p raw' folded' where
    push: "push_pair (e_fold E name = name) name (e_fold E name) (ns_raw nm) (ns_folded nm) = (p, raw', folded')"
    by (metis prod_cases3)
  have ar: "arena_ok nm" and lens: "length (ns_refcount nm) = ?m" "length (ns_head nm) = ?m" "length (ns_rank_of nm) = ?m"
    using ok by (simp_all add: names_ok_def)
  have pr: "push_room (e_fold E name = name) name (e_fold E name) (length (ns_raw nm)) (length (ns_folded nm))"
    using room by (simp add: push_room_def intern_room_def)
  note ap = arena_push[OF ar pr push]
  have m: "as_u32 ?m = ?m" using room by (simp add: intern_room_def as_u32_def NIL_def)
  note st = intern_new_push[OF push, unfolded m] new
  show i: "i = ?m" and rc: "ns_refcount nm' = ns_refcount nm @ [1]" and "ns_head nm' = ns_head nm @ [NIL]"
    using st by auto
  show live: "names_live nm' = insert i (names_live nm)"
    using lens i by (auto simp: names_live_def rc nth_append)
  show ri: "raw_of nm' i = name" and fi: "folded_of nm' i = e_fold E name"
    using st i ap(2,3) by (auto simp: raw_of_def folded_of_def)
  show rj: "\<And>j. j < ?m \<Longrightarrow> raw_of nm' j = raw_of nm j" and fj: "\<And>j. j < ?m \<Longrightarrow> folded_of nm' j = folded_of nm j"
    using st ap(4,5) by (auto simp: raw_of_def folded_of_def nth_append)
  have im: "i \<notin> names_live nm" using i lens by (simp add: names_live_def)
  have ll: "\<And>j. j \<in> names_live nm \<Longrightarrow> j < ?m" using live_less[OF ok] .
  have "arena_ok nm'" using st ap(1) by auto
  moreover have "length (ns_pairs nm') \<le> NIL" using st room by (auto simp: intern_room_def)
  moreover have "length (ns_refcount nm') = length (ns_pairs nm')" "length (ns_head nm') = length (ns_pairs nm')"
    "length (ns_rank_of nm') = length (ns_pairs nm')" using st lens by auto
  moreover have "\<forall>rc \<in> set (ns_refcount nm'). rc < 2 ^ 32" using rc ok by (auto simp: names_ok_def)
  moreover have "\<forall>j \<in> names_live nm'. folded_of nm' j = e_fold E (raw_of nm' j)"
    using ok ri fi rj fj ll by (auto simp: live names_ok_def)
  moreover have "\<forall>j < length (ns_pairs nm'). j \<notin> names_live nm' \<longrightarrow> set (folded_of nm' j) \<subseteq> {0}"
  proof -
    have "length (ns_pairs nm') = Suc ?m" using st by auto
    moreover have "\<forall>j < ?m. j \<notin> names_live nm \<longrightarrow> set (folded_of nm j) \<subseteq> {0}"
      using ok by (simp add: names_ok_def)
    ultimately show ?thesis using i fj by (simp add: live less_Suc_eq)
  qed
  moreover have "inj_on (raw_of nm') (names_live nm')"
  proof -
    have "raw_of nm' j = raw_of nm j" if "j \<in> names_live nm" for j using rj ll that by simp
    then have "inj_on (raw_of nm') (names_live nm)" "name \<notin> raw_of nm' ` names_live nm"
      using ok none by (auto simp: names_ok_def inj_on_def)
    then show ?thesis using ri im by (simp add: live)
  qed
  moreover have "distinct (ns_by_bytes nm')"
    using st ok im i by (auto simp: names_ok_def)
  moreover have "set (ns_by_bytes nm') = (\<lambda>j. (e_hash E (raw_of nm' j), j)) ` names_live nm'"
  proof -
    have "set (ns_by_bytes nm') = insert (e_hash E name, i) (set (ns_by_bytes nm))" using st by auto
    also have "set (ns_by_bytes nm) = (\<lambda>j. (e_hash E (raw_of nm' j), j)) ` names_live nm"
      using ok rj ll by (auto simp: names_ok_def)
    finally show ?thesis by (simp add: live ri)
  qed
  ultimately show "names_ok E nm'" unfolding names_ok_def by blast
qed

text \<open>Changing only the counts of live names keeps the invariant.\<close>

lemma refcount_ok:
  assumes ok: "names_ok E nm" and i: "i \<in> names_live nm" and n: "0 < n" "n < 2 ^ 32"
  shows "names_ok E (nm\<lparr>ns_refcount := (ns_refcount nm)[i := n]\<rparr>)"
    "names_live (nm\<lparr>ns_refcount := (ns_refcount nm)[i := n]\<rparr>) = names_live nm"
proof -
  let ?nm = "nm\<lparr>ns_refcount := (ns_refcount nm)[i := n]\<rparr>"
  have li: "i < length (ns_refcount nm)" using i by (simp add: names_live_def)
  show live: "names_live ?nm = names_live nm"
    using i n li by (auto simp: names_live_def nth_list_update)
  have same: "raw_of ?nm = raw_of nm" "folded_of ?nm = folded_of nm"
    by (simp_all add: raw_of_def folded_of_def fun_eq_iff)
  have "\<forall>rc \<in> set ((ns_refcount nm)[i := n]). rc < 2 ^ 32"
    using ok n set_update_subset_insert[of "ns_refcount nm" i n] by (auto simp: names_ok_def)
  then show "names_ok E ?nm" using ok by (simp add: names_ok_def live same)
qed

lemma intern_spec:
  assumes ok: "names_ok E nm" and room: "intern_room E name nm"
  obtains i nm' where "intern E name nm = Some (i, nm')" "names_ok E nm'"
    "i \<in> names_live nm'" "raw_of nm' i = name" "folded_of nm' i = e_fold E name"
    "\<And>j. j < length (ns_pairs nm) \<Longrightarrow> raw_of nm' j = raw_of nm j"
    "\<And>j. j < length (ns_pairs nm) \<Longrightarrow> folded_of nm' j = folded_of nm j"
    "(i \<in> names_live nm \<and> ns_refcount nm' = (ns_refcount nm)[i := ns_refcount nm ! i + 1] \<and>
       ns_head nm' = ns_head nm \<and> ns_pairs nm' = ns_pairs nm) \<or>
     (i = length (ns_pairs nm) \<and> (\<forall>j \<in> names_live nm. raw_of nm j \<noteq> name) \<and>
       ns_refcount nm' = ns_refcount nm @ [1] \<and> ns_head nm' = ns_head nm @ [NIL] \<and>
       length (ns_pairs nm') = Suc (length (ns_pairs nm)))"
proof (cases rule: intern_cases[OF ok, of name])
  case (1 i)
  let ?n = "ns_refcount nm ! i + 1"
  let ?nm = "nm\<lparr>ns_refcount := (ns_refcount nm)[i := ?n]\<rparr>"
  have "ns_refcount nm ! i \<in> set (ns_refcount nm)" using 1(1) by (simp add: names_live_def)
  then have n: "?n < 2 ^ 32" using room by (auto simp: intern_room_def)
  then have "as_u32 ?n = ?n" by (simp add: as_u32_def)
  then have "intern E name nm = Some (i, ?nm)" using 1(3) by simp
  moreover have "raw_of ?nm = raw_of nm" "folded_of ?nm = folded_of nm"
    by (simp_all add: raw_of_def folded_of_def fun_eq_iff)
  ultimately show ?thesis
    using that[of i ?nm] refcount_ok[OF ok 1(1) _ n] 1(1,2) ok by (simp add: names_ok_def)
next
  case 2
  obtain i nm' where new: "intern_new E name nm = (i, nm')" by fastforce
  note new_ok = intern_new_ok[OF ok room 2(1) new]
  have "length (ns_pairs nm') = Suc (length (ns_pairs nm))"
    using new_ok(2,8) ok by (simp add: names_ok_def)
  then show ?thesis
    using that[of i nm'] 2 new new_ok by simp
qed

subsection \<open>Releasing\<close>

lemma release_last_ok:
  assumes ok: "names_ok E nm" and i: "i < length (ns_pairs nm)" and one: "i \<in> names_live nm"
  shows "\<exists>nm'. release_last E i (nm\<lparr>ns_refcount := (ns_refcount nm)[i := 0]\<rparr>) = Some nm' \<and>
    names_ok E nm' \<and> ns_refcount nm' = (ns_refcount nm)[i := 0] \<and> ns_head nm' = ns_head nm \<and>
    ns_pairs nm' = ns_pairs nm \<and>
    (\<forall>j < length (ns_pairs nm). j \<noteq> i \<longrightarrow> raw_of nm' j = raw_of nm j \<and> folded_of nm' j = folded_of nm j)"
proof -
  let ?p = "ns_pairs nm ! i" and ?nm0 = "nm\<lparr>ns_refcount := (ns_refcount nm)[i := 0]\<rparr>"
  have ar: "arena_ok nm" and li: "i < length (ns_refcount nm)" "i < length (ns_rank_of nm)"
    using ok i by (simp_all add: names_ok_def)
  obtain folded' raw' where f': "zero_fill (ns_folded nm) (f_off ?p) (f_len ?p) = Some folded'"
    and r': "if shared ?p then raw' = ns_raw nm else zero_fill (ns_raw nm) (r_off ?p) (r_len ?p) = Some raw'"
    and ar': "arena raw' folded' (ns_pairs nm)" and z: "folded_at folded' ?p = replicate (f_len ?p) 0"
    and oth: "\<forall>j < length (ns_pairs nm). j \<noteq> i \<longrightarrow>
        raw_at raw' folded' (ns_pairs nm ! j) = raw_at (ns_raw nm) (ns_folded nm) (ns_pairs nm ! j) \<and>
        folded_at folded' (ns_pairs nm ! j) = folded_at (ns_folded nm) (ns_pairs nm ! j)"
    using arena_kill[OF ar i refl] by blast
  have hb: "raw_bytes_of ?nm0 ?p = Some (raw_of nm i)"
    using raw_bytes_of_at[of ?nm0 ?p] ar i by (simp add: raw_of_def)
  define d where "d = ns_dead_ranked nm + (if ns_rank_of nm ! i \<noteq> UNRANKED then 1 else 0)"
  define g where "g = ns_garbage nm + f_len ?p + 1 + (if shared ?p then 0 else r_len ?p + 1)"
  have res: "release_last E i ?nm0 = Some (?nm0\<lparr>
      ns_by_bytes := remove1 (e_hash E (raw_of nm i), i) (ns_by_bytes nm),
      ns_dead_ranked := d, ns_folded := folded', ns_garbage := g, ns_raw := raw'\<rparr>)"
    using i li hb f' r' unfolding d_def g_def
    by (cases "shared ?p"; cases "ns_rank_of nm ! i = UNRANKED")
      (simp_all add: release_last_def shared_def ht_remove_def Let_def)
  define nm' where "nm' = ?nm0\<lparr>
      ns_by_bytes := remove1 (e_hash E (raw_of nm i), i) (ns_by_bytes nm),
      ns_dead_ranked := d, ns_folded := folded', ns_garbage := g, ns_raw := raw'\<rparr>"
  have others: "raw_of nm' j = raw_of nm j \<and> folded_of nm' j = folded_of nm j"
    if "j < length (ns_pairs nm)" "j \<noteq> i" for j
    using oth that by (simp add: nm'_def raw_of_def folded_of_def)
  have live: "names_live nm' = names_live nm - {i}"
    using li by (auto simp: nm'_def names_live_def nth_list_update)
  have ll: "j < length (ns_pairs nm)" if "j \<in> names_live nm" for j using live_less[OF ok that] .
  have pairs: "ns_pairs nm' = ns_pairs nm" and
    bb: "ns_by_bytes nm' = remove1 (e_hash E (raw_of nm i), i) (ns_by_bytes nm)" by (simp_all add: nm'_def)
  have "names_ok E nm'"
    unfolding names_ok_def
  proof (intro conjI)
    show "\<forall>rc \<in> set (ns_refcount nm'). rc < 2 ^ 32"
      using ok set_update_subset_insert[of "ns_refcount nm" i 0] by (auto simp: nm'_def names_ok_def)
    show "\<forall>j \<in> names_live nm'. folded_of nm' j = e_fold E (raw_of nm' j)"
      using ok others ll by (simp add: live names_ok_def)
    show "\<forall>j < length (ns_pairs nm'). j \<notin> names_live nm' \<longrightarrow> set (folded_of nm' j) \<subseteq> {0}"
    proof (intro allI impI)
      fix j assume j: "j < length (ns_pairs nm')" "j \<notin> names_live nm'"
      show "set (folded_of nm' j) \<subseteq> {0}"
      proof (cases "j = i")
        case True
        then show ?thesis using z by (auto simp: nm'_def folded_of_def)
      next
        case False
        then show ?thesis using j others[of j] ok by (simp add: live names_ok_def pairs)
      qed
    qed
    show "inj_on (raw_of nm') (names_live nm')"
      using ok others ll by (simp add: live names_ok_def inj_on_def)
    show "set (ns_by_bytes nm') = (\<lambda>j. (e_hash E (raw_of nm' j), j)) ` names_live nm'"
      using ok others ll by (auto simp: bb live names_ok_def set_remove1_eq)
  qed (use ok ar' in \<open>simp_all add: nm'_def names_ok_def\<close>)
  moreover have "ns_refcount nm' = (ns_refcount nm)[i := 0]" "ns_head nm' = ns_head nm" by (simp_all add: nm'_def)
  ultimately show ?thesis using res others pairs unfolding nm'_def[symmetric] by blast
qed

lemma release_spec:
  assumes ok: "names_ok E nm" and i: "i \<in> names_live nm"
  obtains nm' where "release E i nm = Some nm'" "names_ok E nm'"
    "ns_refcount nm' = (ns_refcount nm)[i := ns_refcount nm ! i - 1]" "ns_head nm' = ns_head nm"
    "ns_pairs nm' = ns_pairs nm"
    "\<And>j. j < length (ns_pairs nm) \<Longrightarrow> j \<noteq> i \<or> 1 < ns_refcount nm ! i \<Longrightarrow> raw_of nm' j = raw_of nm j"
    "\<And>j. j < length (ns_pairs nm) \<Longrightarrow> j \<noteq> i \<or> 1 < ns_refcount nm ! i \<Longrightarrow> folded_of nm' j = folded_of nm j"
proof -
  let ?n = "ns_refcount nm ! i"
  have li: "i < length (ns_refcount nm)" and pos: "0 < ?n" using i by (simp_all add: names_live_def)
  have "?n < 2 ^ 32" using ok li by (simp add: names_ok_def)
  have "?n + (2 ^ 32 - 1) = (?n - 1) + 2 ^ 32" using pos by simp
  then have sum: "as_u32 (?n + (2 ^ 32 - 1)) = as_u32 ((?n - 1) + 2 ^ 32)" by (rule arg_cong)
  from \<open>?n < 2 ^ 32\<close> have dec: "as_u32 (?n + (2 ^ 32 - 1)) = ?n - 1"
    unfolding sum by (simp add: as_u32_def)
  show ?thesis
  proof (cases "1 < ?n")
    case True
    let ?nm = "nm\<lparr>ns_refcount := (ns_refcount nm)[i := ?n - 1]\<rparr>"
    have "release E i nm = Some ?nm" using True li dec by (simp add: release_def Let_def)
    moreover have "raw_of ?nm = raw_of nm" "folded_of ?nm = folded_of nm"
      by (simp_all add: raw_of_def folded_of_def fun_eq_iff)
    ultimately show ?thesis
      using that[of ?nm] refcount_ok(1)[OF ok i, of "?n - 1"] True \<open>?n < 2 ^ 32\<close> by simp
  next
    case False
    then have one: "?n = 1" using pos by simp
    have "release E i nm = release_last E i (nm\<lparr>ns_refcount := (ns_refcount nm)[i := 0]\<rparr>)"
      using dec li one by (simp add: release_def Let_def)
    then show ?thesis
      using release_last_ok[OF ok live_less[OF ok i] i] one that by auto
  qed
qed

section \<open>The store as a multiset of names\<close>

definition names_mset :: "name_store \<Rightarrow> u8 list multiset" where
  "names_mset nm = (\<Sum>i<length (ns_refcount nm). replicate_mset (ns_refcount nm ! i) (raw_of nm i))"

lemma names_mset_new: "names_mset names_new = {#}"
  by (simp add: names_mset_def names_new_def)

lemma names_mset_update:
  assumes i: "i < length (ns_refcount nm)" and rc: "ns_refcount nm' = (ns_refcount nm)[i := n]"
    and raw: "\<And>j. j < length (ns_refcount nm) \<Longrightarrow> j \<noteq> i \<or> 0 < n \<Longrightarrow> raw_of nm' j = raw_of nm j"
  shows "names_mset nm' + replicate_mset (ns_refcount nm ! i) (raw_of nm i) =
    names_mset nm + replicate_mset n (raw_of nm i)"
proof -
  let ?I = "{..<length (ns_refcount nm)}"
  let ?f = "\<lambda>i. replicate_mset (ns_refcount nm ! i) (raw_of nm i)"
  let ?g = "\<lambda>i. replicate_mset (ns_refcount nm' ! i) (raw_of nm' i)"
  have "sum ?g (?I - {i}) = sum ?f (?I - {i})"
    by (rule sum.cong) (auto simp: rc raw)
  moreover have "?g i = replicate_mset n (raw_of nm i)"
    using i raw[of i] by (cases "n = 0") (simp_all add: rc)
  moreover have "names_mset nm = ?f i + sum ?f (?I - {i})"
    unfolding names_mset_def using i by (simp add: sum.remove)
  moreover have "names_mset nm' = ?g i + sum ?g (?I - {i})"
  proof -
    have "names_mset nm' = sum ?g ?I" by (simp add: names_mset_def rc)
    then show ?thesis using i by (simp add: sum.remove del: sum.lessThan_Suc)
  qed
  ultimately show ?thesis by simp
qed

lemma names_mset_intern:
  assumes ok: "names_ok E nm" and "i \<in> names_live nm \<and> ns_refcount nm' = (ns_refcount nm)[i := ns_refcount nm ! i + 1] \<or>
      i = length (ns_pairs nm) \<and> ns_refcount nm' = ns_refcount nm @ [1]"
    and "raw_of nm' i = name" "\<And>j. j < length (ns_pairs nm) \<Longrightarrow> raw_of nm' j = raw_of nm j"
  shows "names_mset nm' = add_mset name (names_mset nm)"
  using assms(2)
proof
  have len: "length (ns_refcount nm) = length (ns_pairs nm)" using ok by (simp add: names_ok_def)
  assume a: "i \<in> names_live nm \<and> ns_refcount nm' = (ns_refcount nm)[i := ns_refcount nm ! i + 1]"
  then have i: "i < length (ns_refcount nm)" by (simp add: names_live_def)
  show ?thesis
    using names_mset_update[OF i a[THEN conjunct2]] assms(3,4) i len by simp
next
  have len: "length (ns_refcount nm) = length (ns_pairs nm)" using ok by (simp add: names_ok_def)
  assume a: "i = length (ns_pairs nm) \<and> ns_refcount nm' = ns_refcount nm @ [1]"
  then have "(\<Sum>j<length (ns_refcount nm). replicate_mset (ns_refcount nm' ! j) (raw_of nm' j)) = names_mset nm"
    unfolding names_mset_def using assms(4) len by (intro sum.cong) (auto simp: nth_append)
  then show ?thesis using a len assms(3) by (simp add: names_mset_def nth_append)
qed

text \<open>
  C14. Interning a name never panics and keeps the store well formed while ids, arenas and counts
  fit their widths. The id it returns reads back as exactly the name and as its fold; it is an id
  already in use exactly when that id carried the same name; no other live id changes its name;
  and the store, read as a multiset of names, gains that name once.
\<close>

theorem intern_adds_name:
  assumes "names_ok E nm" "intern_room E name nm"
  shows "\<exists>i nm'. intern E name nm = Some (i, nm') \<and> names_ok E nm' \<and>
    raw_bytes nm' i = Some name \<and> folded_bytes_of nm' i = Some (e_fold E name) \<and>
    (\<forall>j \<in> names_live nm. (i = j \<longleftrightarrow> raw_bytes nm j = Some name) \<and> raw_bytes nm' j = raw_bytes nm j) \<and>
    names_mset nm' = add_mset name (names_mset nm)"
proof -
  obtain i nm' where int: "intern E name nm = Some (i, nm')" and ok': "names_ok E nm'"
    and i: "i \<in> names_live nm'" "raw_of nm' i = name" "folded_of nm' i = e_fold E name"
    and oth: "\<And>j. j < length (ns_pairs nm) \<Longrightarrow> raw_of nm' j = raw_of nm j"
    and cs: "(i \<in> names_live nm \<and> ns_refcount nm' = (ns_refcount nm)[i := ns_refcount nm ! i + 1] \<and>
       ns_head nm' = ns_head nm \<and> ns_pairs nm' = ns_pairs nm) \<or>
     (i = length (ns_pairs nm) \<and> (\<forall>j \<in> names_live nm. raw_of nm j \<noteq> name) \<and>
       ns_refcount nm' = ns_refcount nm @ [1] \<and> ns_head nm' = ns_head nm @ [NIL] \<and>
       length (ns_pairs nm') = Suc (length (ns_pairs nm)))"
    by (rule intern_spec[OF assms]) (rule that; assumption)
  have ll: "j < length (ns_pairs nm)" if "j \<in> names_live nm" for j by (rule live_less[OF assms(1) that])
  have le: "length (ns_pairs nm) \<le> length (ns_pairs nm')" using cs by auto
  have rd: "raw_bytes nm j = Some (raw_of nm j)" "raw_bytes nm' j = Some (raw_of nm j)" if "j \<in> names_live nm" for j
    using names_raw_bytes[OF assms(1) ll[OF that]] names_raw_bytes[OF ok', of j] ll[OF that] le oth by auto
  have id: "i = j \<longleftrightarrow> raw_of nm j = name" if "j \<in> names_live nm" for j
    using cs
  proof
    assume a: "i \<in> names_live nm \<and> ns_refcount nm' = (ns_refcount nm)[i := ns_refcount nm ! i + 1] \<and>
       ns_head nm' = ns_head nm \<and> ns_pairs nm' = ns_pairs nm"
    then have "raw_of nm i = name" using i(2) oth ll by auto
    then show ?thesis using a that assms(1) by (auto simp: names_ok_def inj_on_def)
  qed (use that ll in auto)
  have "names_mset nm' = add_mset name (names_mset nm)"
    by (rule names_mset_intern[OF assms(1) _ i(2) oth]) (use cs in auto)
  moreover have "raw_bytes nm' i = Some name" "folded_bytes_of nm' i = Some (e_fold E name)"
    using names_raw_bytes[OF ok' live_less[OF ok' i(1)]] names_folded_bytes[OF ok' live_less[OF ok' i(1)]] i by auto
  ultimately show ?thesis using int ok' rd id by auto
qed


definition sample_env :: env where
  "sample_env = \<lparr>e_unicode = ascii_unicode, e_hash = (\<lambda>_. 0)\<rparr>"

definition sample_names :: name_store where
  "sample_names = snd (the (intern sample_env [65, 98] names_new))"

lemma sample_fold: "e_fold sample_env [65, 98] = [97, 98]"
  by (simp add: e_fold_def sample_env_def fold_name_def fold_into_def is_ascii_def to_ascii_lowercase_def)

lemma sample_room: "intern_room sample_env [65, 98] names_new"
  by (simp add: intern_room_def sample_fold names_new_def NIL_def)

lemma sample_names_ok: "names_ok sample_env sample_names" "0 \<in> names_live sample_names"
proof -
  have new: "intern sample_env [65, 98] names_new = Some (intern_new sample_env [65, 98] names_new)"
    by (simp add: intern_def names_new_def)
  obtain i nm' where eq: "intern_new sample_env [65, 98] names_new = (i, nm')" by fastforce
  have "names_ok sample_env nm'" "names_live nm' = insert 0 (names_live names_new)"
    using intern_new_ok(1-3)[OF names_new_ok sample_room _ eq] by (auto simp: names_live_def names_new_def)
  then show "names_ok sample_env sample_names" "0 \<in> names_live sample_names"
    using new eq by (simp_all add: sample_names_def)
qed

theorem intern_adds_name_witness:
  "\<exists>i nm'. intern sample_env [65, 98] names_new = Some (i, nm') \<and> raw_bytes nm' i = Some [65, 98] \<and>
    folded_bytes_of nm' i = Some [97, 98] \<and> names_mset nm' = {#[65, 98]#}"
  using intern_adds_name[OF names_new_ok sample_room]
  by (auto simp: sample_fold names_mset_new)


end
