(* ===== verification/Name_Order.thy ===== *)
theory Name_Order
  imports Name_Inv
begin

text \<open>
  The name order of \<open>NameStore\<close>: ids sorted by folded name, the ranks read from it, and the key a
  name-sorted query compares. Merging the waiting names gives exactly the order a full sort gives,
  and the keys order ranked and waiting names by their folded bytes.
\<close>

section \<open>The invariant of the order\<close>

definition name_key :: "name_store \<Rightarrow> name_id \<Rightarrow> u8 list \<times> name_id" where
  "name_key nm i = (folded_of nm i, i)"

lemma name_key_eq [simp]: "name_key nm i = name_key nm j \<longleftrightarrow> i = j"
  by (auto simp: name_key_def)

lemma snd_name_key [simp]: "snd (name_key nm i) = i"
  by (simp add: name_key_def)

lemma name_key_folded: "folded_of nm i < folded_of nm j \<Longrightarrow> name_key nm i < name_key nm j"
  "name_key nm i < name_key nm j \<Longrightarrow> folded_of nm i \<le> folded_of nm j"
  by (auto simp: name_key_def)

definition alive_at :: "name_store \<Rightarrow> nat \<Rightarrow> bool" where
  "alive_at nm p \<longleftrightarrow> p < length (ns_order nm) \<and> ns_order nm ! p \<in> names_live nm"

abbreviation folded_pos :: "name_store \<Rightarrow> nat \<Rightarrow> u8 list" where
  "folded_pos nm p \<equiv> folded_of nm (ns_order nm ! p)"

abbreviation rank_pos :: "name_store \<Rightarrow> nat \<Rightarrow> nat" where
  "rank_pos nm p \<equiv> ns_rank_of nm ! (ns_order nm ! p)"

definition order_ok :: "name_store \<Rightarrow> bool" where
  "order_ok nm \<longleftrightarrow>
    distinct (ns_order nm @ ns_unranked nm) \<and>
    set (ns_order nm @ ns_unranked nm) \<subseteq> {..<length (ns_pairs nm)} \<and>
    names_live nm \<subseteq> set (ns_order nm @ ns_unranked nm) \<and>
    sorted_wrt (\<lambda>i j. name_key nm i < name_key nm j) (filter (\<lambda>i. i \<in> names_live nm) (ns_order nm)) \<and>
    (\<forall>i < length (ns_pairs nm). i \<notin> set (ns_order nm) \<longrightarrow> ns_rank_of nm ! i = UNRANKED) \<and>
    (\<forall>p. alive_at nm p \<longrightarrow> rank_pos nm p \<le> p \<and> rank_pos nm p \<noteq> UNRANKED) \<and>
    (\<forall>p q. alive_at nm p \<longrightarrow> alive_at nm q \<longrightarrow> folded_pos nm p = folded_pos nm q \<longrightarrow> rank_pos nm p = rank_pos nm q) \<and>
    (\<forall>p q. alive_at nm p \<longrightarrow> alive_at nm q \<longrightarrow> folded_pos nm p < folded_pos nm q \<longrightarrow> p < rank_pos nm q)"

lemma order_okD:
  assumes "order_ok nm"
  shows "distinct (ns_order nm @ ns_unranked nm)" "set (ns_order nm @ ns_unranked nm) \<subseteq> {..<length (ns_pairs nm)}"
    "names_live nm \<subseteq> set (ns_order nm @ ns_unranked nm)"
    "sorted_wrt (\<lambda>i j. name_key nm i < name_key nm j) (filter (\<lambda>i. i \<in> names_live nm) (ns_order nm))"
    "\<And>i. i < length (ns_pairs nm) \<Longrightarrow> i \<notin> set (ns_order nm) \<Longrightarrow> ns_rank_of nm ! i = UNRANKED"
    "\<And>p. alive_at nm p \<Longrightarrow> rank_pos nm p \<le> p" "\<And>p. alive_at nm p \<Longrightarrow> rank_pos nm p \<noteq> UNRANKED"
    "\<And>p q. alive_at nm p \<Longrightarrow> alive_at nm q \<Longrightarrow> folded_pos nm p = folded_pos nm q \<Longrightarrow> rank_pos nm p = rank_pos nm q"
    "\<And>p q. alive_at nm p \<Longrightarrow> alive_at nm q \<Longrightarrow> folded_pos nm p < folded_pos nm q \<Longrightarrow> p < rank_pos nm q"
  using assms unfolding order_ok_def by blast+

lemma order_okI:
  assumes "distinct (ns_order nm @ ns_unranked nm)" "set (ns_order nm @ ns_unranked nm) \<subseteq> {..<length (ns_pairs nm)}"
    "names_live nm \<subseteq> set (ns_order nm @ ns_unranked nm)"
    "sorted_wrt (\<lambda>i j. name_key nm i < name_key nm j) (filter (\<lambda>i. i \<in> names_live nm) (ns_order nm))"
    "\<And>i. i < length (ns_pairs nm) \<Longrightarrow> i \<notin> set (ns_order nm) \<Longrightarrow> ns_rank_of nm ! i = UNRANKED"
    "\<And>p. alive_at nm p \<Longrightarrow> rank_pos nm p \<le> p \<and> rank_pos nm p \<noteq> UNRANKED"
    "\<And>p q. alive_at nm p \<Longrightarrow> alive_at nm q \<Longrightarrow> folded_pos nm p = folded_pos nm q \<Longrightarrow> rank_pos nm p = rank_pos nm q"
    "\<And>p q. alive_at nm p \<Longrightarrow> alive_at nm q \<Longrightarrow> folded_pos nm p < folded_pos nm q \<Longrightarrow> p < rank_pos nm q"
  shows "order_ok nm"
  using assms unfolding order_ok_def by blast

section \<open>Reading the order\<close>

lemma filter_live_eq:
  "set ids \<subseteq> {..<length (ns_refcount nm)} \<Longrightarrow> filter_live nm ids = Some (filter (\<lambda>i. i \<in> names_live nm) ids)"
  by (induction ids) (auto simp: names_live_def)

lemma key_of_eq: "names_ok E nm \<Longrightarrow> i < length (ns_pairs nm) \<Longrightarrow> key_of nm i = Some (name_key nm i)"
  by (simp add: key_of_def names_folded_bytes name_key_def)

lemma those_map: "(\<And>x. x \<in> set xs \<Longrightarrow> f x = Some (g x)) \<Longrightarrow> those (map f xs) = Some (map g xs)"
  by (induction xs) auto

lemma sort_ids_eq:
  assumes ok: "names_ok E nm" and ids: "set ids \<subseteq> {..<length (ns_pairs nm)}"
  shows "sort_ids nm ids = Some (map snd (sort (map (name_key nm) ids)))"
proof (cases "length ids < 2")
  case True
  then have "ids = [] \<or> (\<exists>x. ids = [x])"
    by (cases ids; cases "tl ids") auto
  then show ?thesis using True by (auto simp: sort_ids_def)
next
  case False
  have "those (map (key_of nm) ids) = Some (map (name_key nm) ids)"
    using ids by (intro those_map key_of_eq[OF ok]) auto
  then show ?thesis using False by (simp add: sort_ids_def)
qed

text \<open>The one list of ids in key order with a given set.\<close>

abbreviation in_order :: "name_store \<Rightarrow> name_id list \<Rightarrow> bool" where
  "in_order nm ids \<equiv> sorted_wrt (\<lambda>i j. name_key nm i < name_key nm j) ids"

lemma in_order_unique: "in_order nm xs \<Longrightarrow> in_order nm ys \<Longrightarrow> set xs = set ys \<Longrightarrow> xs = ys"
proof -
  assume "in_order nm xs" "in_order nm ys" "set xs = set ys"
  then have "map (name_key nm) xs = map (name_key nm) ys"
    by (intro strict_sorted_equal) (simp_all add: sorted_wrt_map)
  then have "map snd (map (name_key nm) xs) = map snd (map (name_key nm) ys)" by simp
  then show "xs = ys" by (simp add: comp_def)
qed

lemma in_order_distinct: "in_order nm ids \<Longrightarrow> distinct ids"
  by (induction ids) auto

lemma sort_in_order:
  assumes "distinct ids"
  shows "in_order nm (map snd (sort (map (name_key nm) ids)))" "set (map snd (sort (map (name_key nm) ids))) = set ids"
proof -
  let ?ks = "sort (map (name_key nm) ids)"
  have "distinct ?ks" using assms by (simp add: distinct_map inj_on_def)
  then have "sorted_wrt (<) ?ks" by (simp add: strict_sorted_iff)
  moreover have "map (\<lambda>i. name_key nm (snd i)) ?ks = ?ks"
    by (rule map_idI) auto
  ultimately have "sorted_wrt (<) (map (\<lambda>i. name_key nm (snd i)) ?ks)" by simp
  then show "in_order nm (map snd ?ks)" by (simp add: sorted_wrt_map)
  show "set (map snd ?ks) = set ids" by force
qed

lemma merge_in_order:
  "names_ok E nm \<Longrightarrow> set xs \<union> set ys \<subseteq> {..<length (ns_pairs nm)} \<Longrightarrow> in_order nm xs \<Longrightarrow> in_order nm ys \<Longrightarrow>
    set xs \<inter> set ys = {} \<Longrightarrow>
    \<exists>zs. merge_loop nm xs ys = Some zs \<and> in_order nm zs \<and> set zs = set xs \<union> set ys"
proof (induction nm xs ys rule: merge_loop.induct)
  case (1 nm p old n new)
  have k: "key_of nm n = Some (name_key nm n)" "key_of nm p = Some (name_key nm p)"
    using "1.prems" by (auto intro!: key_of_eq[OF "1.prems"(1)])
  show ?case
  proof (cases "name_key nm n < name_key nm p")
    case True
    then obtain zs where "merge_loop nm (p # old) new = Some zs" "in_order nm zs" "set zs = set (p # old) \<union> set new"
      using "1.IH"(1)[OF k True] "1.prems" by auto
    then show ?thesis using True "1.prems" k by (auto intro: less_trans)
  next
    case False
    moreover have "n \<noteq> p" using "1.prems"(5) by auto
    ultimately have less: "name_key nm p < name_key nm n" by (metis linorder_neqE name_key_eq)
    obtain zs where "merge_loop nm old (n # new) = Some zs" "in_order nm zs" "set zs = set old \<union> set (n # new)"
      using "1.IH"(2)[OF k False] "1.prems" by auto
    then show ?thesis using False less "1.prems" k by (auto intro: less_trans)
  qed
qed auto

section \<open>Ranking\<close>

definition group_start :: "name_store \<Rightarrow> nat \<Rightarrow> nat" where
  "group_start nm p = (LEAST q. alive_at nm q \<and> folded_pos nm q = folded_pos nm p)"

lemma sorted_wrt_filter_nth:
  "sorted_wrt P (filter Q xs) \<longleftrightarrow> (\<forall>p q. p < q \<longrightarrow> q < length xs \<longrightarrow> Q (xs ! p) \<longrightarrow> Q (xs ! q) \<longrightarrow> P (xs ! p) (xs ! q))"
proof (induction xs)
  case (Cons x xs)
  show ?case
  proof
    assume l: "sorted_wrt P (filter Q (x # xs))"
    show "\<forall>p q. p < q \<longrightarrow> q < length (x # xs) \<longrightarrow> Q ((x # xs) ! p) \<longrightarrow> Q ((x # xs) ! q) \<longrightarrow> P ((x # xs) ! p) ((x # xs) ! q)"
    proof (intro allI impI)
      fix p q assume "p < q" "q < length (x # xs)" "Q ((x # xs) ! p)" "Q ((x # xs) ! q)"
      then show "P ((x # xs) ! p) ((x # xs) ! q)"
        using l Cons.IH by (cases q; cases p) (auto split: if_splits)
    qed
  next
    assume r: "\<forall>p q. p < q \<longrightarrow> q < length (x # xs) \<longrightarrow> Q ((x # xs) ! p) \<longrightarrow> Q ((x # xs) ! q) \<longrightarrow> P ((x # xs) ! p) ((x # xs) ! q)"
    have "sorted_wrt P (filter Q xs)"
      unfolding Cons.IH using r by (metis Suc_less_eq length_Cons nth_Cons_Suc)
    moreover have "P x y" if y: "Q x" "y \<in> set xs" "Q y" for y
    proof -
      obtain q where "q < length xs" "xs ! q = y" using y(2) by (metis in_set_conv_nth)
      then show ?thesis using r[rule_format, of 0 "Suc q"] y by simp
    qed
    ultimately show "sorted_wrt P (filter Q (x # xs))" by auto
  qed
qed simp

lemma in_order_positions:
  assumes "in_order nm (filter (\<lambda>i. i \<in> names_live nm) (ns_order nm))" "alive_at nm p" "alive_at nm q"
  shows "p < q \<Longrightarrow> folded_pos nm p \<le> folded_pos nm q" "folded_pos nm p < folded_pos nm q \<Longrightarrow> p < q"
proof -
  have srt: "p < q \<Longrightarrow> folded_pos nm p \<le> folded_pos nm q" if "alive_at nm p" "alive_at nm q" for p q
    using assms(1) that name_key_folded(2) unfolding sorted_wrt_filter_nth alive_at_def by blast
  show "p < q \<Longrightarrow> folded_pos nm p \<le> folded_pos nm q" using srt assms by blast
  assume less: "folded_pos nm p < folded_pos nm q"
  then show "p < q" using srt[OF assms(3,2)] by (metis leD linorder_neqE_nat less_irrefl)
qed

lemma group_start:
  assumes "alive_at nm p"
  shows "alive_at nm (group_start nm p)" "folded_pos nm (group_start nm p) = folded_pos nm p" "group_start nm p \<le> p"
  using LeastI[of "\<lambda>q. alive_at nm q \<and> folded_pos nm q = folded_pos nm p" p]
    Least_le[of "\<lambda>q. alive_at nm q \<and> folded_pos nm q = folded_pos nm p" p] assms
  unfolding group_start_def by auto

definition rerank_inv :: "name_store \<Rightarrow> nat \<Rightarrow> nat \<Rightarrow> u8 list option \<Rightarrow> bool" where
  "rerank_inv nm pos gs prev \<longleftrightarrow>
    (prev = None \<and> (\<forall>p < pos. \<not> alive_at nm p)) \<or>
    (\<exists>l < pos. alive_at nm l \<and> (\<forall>p. l < p \<longrightarrow> p < pos \<longrightarrow> \<not> alive_at nm p) \<and>
      prev = Some (folded_pos nm l) \<and> gs = group_start nm l)"

lemma rerank_inv_dead: "rerank_inv nm pos gs prev \<Longrightarrow> \<not> alive_at nm pos \<Longrightarrow> rerank_inv nm (Suc pos) gs prev"
  unfolding rerank_inv_def by (auto simp: less_Suc_eq)

lemma rerank_inv_alive:
  assumes ord: "in_order nm (filter (\<lambda>i. i \<in> names_live nm) (ns_order nm))"
    and inv: "rerank_inv nm pos gs prev" and pos: "alive_at nm pos"
  shows "(if prev \<noteq> Some (folded_pos nm pos) then pos else gs) = group_start nm pos"
    "rerank_inv nm (Suc pos) (group_start nm pos) (Some (folded_pos nm pos))"
proof -
  show "rerank_inv nm (Suc pos) (group_start nm pos) (Some (folded_pos nm pos))"
    unfolding rerank_inv_def using pos by auto
  show "(if prev \<noteq> Some (folded_pos nm pos) then pos else gs) = group_start nm pos"
  proof (cases "prev = Some (folded_pos nm pos)")
    case True
    then show ?thesis using inv by (auto simp: rerank_inv_def group_start_def)
  next
    case False
    have "\<not> (alive_at nm q \<and> folded_pos nm q = folded_pos nm pos)" if q: "q < pos" for q
    proof
      assume a: "alive_at nm q \<and> folded_pos nm q = folded_pos nm pos"
      then obtain l where l: "l < pos" "alive_at nm l" "\<forall>p. l < p \<longrightarrow> p < pos \<longrightarrow> \<not> alive_at nm p"
        "prev = Some (folded_pos nm l)" using inv q by (auto simp: rerank_inv_def)
      then have "q \<le> l" using a q by (meson not_le)
      then have "folded_pos nm q \<le> folded_pos nm l"
        using in_order_positions(1)[OF ord, of q l] a l by (cases "q = l") auto
      moreover have "folded_pos nm l \<le> folded_pos nm pos" using in_order_positions(1)[OF ord] l pos by blast
      ultimately show False using a l False by auto
    qed
    then have "group_start nm pos = pos"
      using pos unfolding group_start_def by (intro Least_equality) (auto simp: not_less[symmetric])
    then show ?thesis using False by simp
  qed
qed

lemma rerank_loop_spec:
  assumes ok: "names_ok E nm" and dist: "distinct (ns_order nm)" and sub: "set (ns_order nm) \<subseteq> {..<length (ns_pairs nm)}"
    and ord: "in_order nm (filter (\<lambda>i. i \<in> names_live nm) (ns_order nm))"
    and ol: "length (ns_order nm) \<le> NIL"
  shows "ns_order nm = don @ rest \<Longrightarrow> rerank_inv nm (length don) gs prev \<Longrightarrow> length ranks = length (ns_pairs nm) \<Longrightarrow>
    \<exists>ranks'. rerank_loop nm (length don) gs prev ranks rest = Some ranks' \<and> length ranks' = length ranks \<and>
      (\<forall>i. i \<notin> set rest \<or> i \<notin> names_live nm \<longrightarrow> ranks' ! i = ranks ! i) \<and>
      (\<forall>p. alive_at nm p \<longrightarrow> length don \<le> p \<longrightarrow> ranks' ! (ns_order nm ! p) = group_start nm p)"
proof (induction rest arbitrary: don gs prev ranks)
  case Nil
  then show ?case by (auto simp: alive_at_def)
next
  case (Cons i rest)
  have i: "i < length (ns_pairs nm)" "ns_order nm ! length don = i" "length don < length (ns_order nm)"
    using sub by (auto simp: Cons.prems(1))
  have rc: "i < length (ns_refcount nm)" using i ok by (simp add: names_ok_def)
  have split: "ns_order nm = (don @ [i]) @ rest" using Cons.prems(1) by simp
  have nin: "i \<notin> set rest" using dist by (simp add: Cons.prems(1))
  show ?case
  proof (cases "i \<in> names_live nm")
    case False
    then have dead: "\<not> alive_at nm (length don)" by (simp add: alive_at_def i)
    have ge: "length (don @ [i]) \<le> p" if "alive_at nm p" "length don \<le> p" for p
      using that dead by (cases "p = length don") auto
    have "ns_refcount nm ! i = 0" using False rc by (simp add: names_live_def)
    then show ?thesis
      using Cons.IH[OF split, of gs prev ranks] rerank_inv_dead[OF Cons.prems(2) dead] Cons.prems(3) rc ge False by auto
  next
    case True
    then have alive: "alive_at nm (length don)" by (simp add: alive_at_def i)
    note step = rerank_inv_alive[OF ord Cons.prems(2) alive]
    let ?g = "group_start nm (length don)"
    have "?g \<le> length don" by (rule group_start(3)[OF alive])
    then have g: "as_u32 ?g = ?g" using i(3) ol by (simp add: as_u32_def NIL_def)
    have "0 < ns_refcount nm ! i" using True by (simp add: names_live_def)
    moreover obtain ranks' where r: "rerank_loop nm (length (don @ [i])) ?g (Some (folded_of nm i)) (ranks[i := ?g]) rest = Some ranks'"
      "length ranks' = length ranks"
      "\<forall>j. j \<notin> set rest \<or> j \<notin> names_live nm \<longrightarrow> ranks' ! j = ranks[i := ?g] ! j"
      "\<forall>p. alive_at nm p \<longrightarrow> length (don @ [i]) \<le> p \<longrightarrow> ranks' ! (ns_order nm ! p) = group_start nm p"
      using Cons.IH[OF split, of ?g "Some (folded_of nm i)" "ranks[i := ?g]"] step(2) Cons.prems(3) i by auto
    ultimately have "rerank_loop nm (length don) gs prev ranks (i # rest) = Some ranks'"
      using rc i step(1) g Cons.prems(3) by (simp add: names_folded_bytes[OF ok] Let_def)
    moreover have "ranks' ! (ns_order nm ! p) = group_start nm p" if "alive_at nm p" "length don \<le> p" for p
      using that r(3,4) i nin Cons.prems(3) by (cases "p = length don") auto
    moreover have "ranks' ! j = ranks ! j" if "j \<notin> set (i # rest) \<or> j \<notin> names_live nm" for j
    proof -
      have "j \<noteq> i" using that True by auto
      then show ?thesis using that r(3) by auto
    qed
    ultimately show ?thesis using r(2) by auto
  qed
qed

lemma rerank_spec:
  assumes ok: "names_ok E nm" and dist: "distinct (ns_order nm @ ns_unranked nm)"
    and sub: "set (ns_order nm @ ns_unranked nm) \<subseteq> {..<length (ns_pairs nm)}"
    and all: "names_live nm \<subseteq> set (ns_order nm @ ns_unranked nm)"
    and ord: "in_order nm (filter (\<lambda>i. i \<in> names_live nm) (ns_order nm))"
  shows "\<exists>ranks. rerank nm = Some (nm\<lparr>ns_rank_of := ranks\<rparr>) \<and> order_ok (nm\<lparr>ns_rank_of := ranks\<rparr>) \<and>
    names_ok E (nm\<lparr>ns_rank_of := ranks\<rparr>)"
proof -
  let ?u = "map (\<lambda>_. UNRANKED) (ns_rank_of nm)"
  have m: "length (ns_pairs nm) \<le> NIL" "length (ns_rank_of nm) = length (ns_pairs nm)"
    using ok by (simp_all add: names_ok_def)
  have "card (set (ns_order nm)) \<le> card {..<length (ns_pairs nm)}"
    using sub by (intro card_mono) auto
  then have ol: "length (ns_order nm) \<le> NIL" using m dist by (simp add: distinct_card)
  have d: "distinct (ns_order nm)" "set (ns_order nm) \<subseteq> {..<length (ns_pairs nm)}" using dist sub by auto
  have inv: "rerank_inv nm (length []) 0 None" by (simp add: rerank_inv_def)
  obtain ranks where r: "rerank_loop nm 0 0 None ?u (ns_order nm) = Some ranks"
    "length ranks = length (ns_rank_of nm)"
    "\<forall>i. i \<notin> set (ns_order nm) \<or> i \<notin> names_live nm \<longrightarrow> ranks ! i = ?u ! i"
    "\<forall>p. alive_at nm p \<longrightarrow> ranks ! (ns_order nm ! p) = group_start nm p"
    using rerank_loop_spec[OF ok d ord ol, of "[]" "ns_order nm" 0 None ?u] inv m by auto
  let ?nm = "nm\<lparr>ns_rank_of := ranks\<rparr>"
  have same: "folded_of ?nm = folded_of nm" "raw_of ?nm = raw_of nm" "names_live ?nm = names_live nm"
    "name_key ?nm = name_key nm"
    by (simp_all add: folded_of_def raw_of_def names_live_def name_key_def fun_eq_iff)
  have lt: "group_start nm p < NIL" if "alive_at nm p" for p
    using group_start(3)[OF that] that ol by (simp add: alive_at_def)
  have al: "alive_at ?nm = alive_at nm" by (simp add: alive_at_def fun_eq_iff same)
  have "order_ok ?nm"
    unfolding order_ok_def same al
  proof (intro conjI allI impI)
    fix p q assume p: "alive_at nm p" and q: "alive_at nm q"
    { assume "folded_of nm (ns_order ?nm ! p) < folded_of nm (ns_order ?nm ! q)"
      then show "p < rank_pos ?nm q"
        using in_order_positions(2)[OF ord p group_start(1)[OF q]] group_start(2)[OF q] r(4) q by simp }
    { assume "folded_of nm (ns_order ?nm ! p) = folded_of nm (ns_order ?nm ! q)"
      then have "group_start nm p = group_start nm q" unfolding group_start_def by simp
      then show "rank_pos ?nm p = rank_pos ?nm q" using r(4) p q by simp }
  next
    fix p assume p: "alive_at nm p"
    show "rank_pos ?nm p \<le> p" using r(4) group_start(3) p by simp
    show "rank_pos ?nm p \<noteq> UNRANKED" using r(4) p lt[OF p] by (simp add: UNRANKED_def NIL_def)
  next
    fix i assume "i < length (ns_pairs ?nm)" "i \<notin> set (ns_order ?nm)"
    then show "ns_rank_of ?nm ! i = UNRANKED" using r(3) m by simp
  qed (use dist sub all ord in auto)
  moreover have "names_ok E ?nm" using ok r(2) by (simp add: names_ok_def same)
  moreover have "rerank nm = Some ?nm" using r(1) by (simp add: rerank_def)
  ultimately show ?thesis by blast
qed

section \<open>Building and merging\<close>

definition reordered :: "name_id list \<Rightarrow> name_store \<Rightarrow> name_store" where
  "reordered ord nm = nm\<lparr>ns_order := ord, ns_unranked := [], ns_dead_ranked := 0\<rparr>"

lemma reordered_swap: "nm\<lparr>ns_unranked := [], ns_order := ord, ns_dead_ranked := 0\<rparr> = reordered ord nm"
  by (simp add: reordered_def)

lemma reordered_same:
  "names_live (reordered ord nm) = names_live nm" "folded_of (reordered ord nm) = folded_of nm"
  "raw_of (reordered ord nm) = raw_of nm" "name_key (reordered ord nm) = name_key nm"
  by (simp_all add: reordered_def names_live_def folded_of_def raw_of_def name_key_def fun_eq_iff)

lemma names_ok_reordered: "names_ok E nm \<Longrightarrow> names_ok E (reordered ord nm)"
  unfolding names_ok_def reordered_same by (simp add: reordered_def)

definition live_ids :: "name_store \<Rightarrow> name_id list" where
  "live_ids nm = filter (\<lambda>i. i \<in> names_live nm) [0..<length (ns_pairs nm)]"

definition full_order :: "name_store \<Rightarrow> name_id list" where
  "full_order nm = map snd (sort (map (name_key nm) (live_ids nm)))"

lemma set_live_ids: "names_ok E nm \<Longrightarrow> set (live_ids nm) = names_live nm"
  using live_less by (auto simp: live_ids_def)

lemma full_order_props:
  assumes ok: "names_ok E nm"
  shows "in_order nm (full_order nm)" "set (full_order nm) = names_live nm" "distinct (full_order nm)"
proof -
  have d: "distinct (live_ids nm)" by (simp add: live_ids_def)
  show o: "in_order nm (full_order nm)" and "set (full_order nm) = names_live nm"
    using sort_in_order[OF d, of nm] set_live_ids[OF ok] by (simp_all add: full_order_def)
  show "distinct (full_order nm)"
    by (rule in_order_distinct[OF o])
qed

lemma build_order_eq:
  assumes ok: "names_ok E nm"
  shows "build_order nm = rerank (reordered (full_order nm) nm)"
proof -
  have m: "as_u32 (length (ns_pairs nm)) = length (ns_pairs nm)" "length (ns_refcount nm) = length (ns_pairs nm)"
    using ok by (simp_all add: names_ok_def as_u32_def NIL_def)
  have "filter_live nm [0..<as_u32 (length (ns_pairs nm))] = Some (live_ids nm)"
    by (simp add: m live_ids_def filter_live_eq atLeast0LessThan)
  moreover have "set (live_ids nm) \<subseteq> {..<length (ns_pairs nm)}" by (auto simp: live_ids_def)
  then have "sort_ids nm (live_ids nm) = Some (full_order nm)"
    by (simp add: sort_ids_eq[OF ok] full_order_def)
  ultimately show ?thesis by (simp add: build_order_def reordered_def)
qed

lemma reordered_rerank:
  assumes ok: "names_ok E nm"
  shows "\<exists>nm'. rerank (reordered (full_order nm) nm) = Some nm' \<and> order_ok nm' \<and> names_ok E nm' \<and> ns_unranked nm' = []"
proof -
  let ?nm = "reordered (full_order nm) nm"
  have f: "ns_order ?nm = full_order nm" "ns_unranked ?nm = []" "ns_pairs ?nm = ns_pairs nm"
    by (simp_all add: reordered_def)
  note fo = full_order_props[OF ok]
  have "in_order ?nm (filter (\<lambda>i. i \<in> names_live ?nm) (ns_order ?nm))"
    using fo by (simp add: reordered_same f filter_True)
  then obtain ranks where "rerank ?nm = Some (?nm\<lparr>ns_rank_of := ranks\<rparr>)" "order_ok (?nm\<lparr>ns_rank_of := ranks\<rparr>)"
    "names_ok E (?nm\<lparr>ns_rank_of := ranks\<rparr>)"
    using rerank_spec[OF names_ok_reordered[OF ok, of "full_order nm"]] fo live_less[OF ok]
    by (auto simp: f reordered_same)
  then show ?thesis by (auto simp: f)
qed

lemma merge_unranked_eq:
  assumes ok: "names_ok E nm" and ord: "order_ok nm"
  shows "merge_unranked nm = build_order nm"
proof (cases "ns_order nm = []")
  case False
  let ?m = "length (ns_pairs nm)"
  define new where "new = filter (\<lambda>i. i \<in> names_live nm) (ns_unranked nm)"
  define old where "old = filter (\<lambda>i. i \<in> names_live nm) (ns_order nm)"
  define new' where "new' = map snd (sort (map (name_key nm) new))"
  have len: "length (ns_refcount nm) = ?m" using ok by (simp add: names_ok_def)
  have d: "distinct new" "set new \<inter> set old = {}" and sub: "set new \<subseteq> {..<?m}" "set old \<subseteq> {..<?m}"
    "set (ns_unranked nm) \<subseteq> {..<?m}" "set (ns_order nm) \<subseteq> {..<?m}"
    using ord by (auto simp: order_ok_def new_def old_def)
  have n: "in_order nm new'" "set new' = set new"
    using sort_in_order[OF d(1), of nm] by (simp_all add: new'_def)
  have o: "in_order nm old" using ord by (simp add: order_ok_def old_def)
  obtain zs where zs: "merge_loop nm old new' = Some zs" "in_order nm zs" "set zs = set old \<union> set new'"
  proof -
    have "set old \<union> set new' \<subseteq> {..<?m}" "set old \<inter> set new' = {}" using n(2) d(2) sub(1,2) by auto
    from merge_in_order[OF ok this(1) o n(1) this(2)] show ?thesis using that by blast
  qed
  have "set zs = names_live nm"
  proof -
    have "names_live nm \<subseteq> set (ns_order nm) \<union> set (ns_unranked nm)" using ord by (simp add: order_ok_def)
    then show ?thesis unfolding zs(3) n(2) new_def old_def by auto
  qed
  then have "zs = full_order nm"
    using full_order_props[OF ok] zs(2) by (intro in_order_unique) auto
  moreover have "filter_live nm (ns_unranked nm) = Some new" "filter_live nm (ns_order nm) = Some old"
    using sub len by (simp_all add: new_def old_def filter_live_eq)
  ultimately have "merge_unranked nm = rerank (reordered (full_order nm) nm)"
    using False zs(1) sort_ids_eq[OF ok sub(1)]
    by (simp add: merge_unranked_def new'_def reordered_swap)
  then show ?thesis by (simp add: build_order_eq[OF ok])
qed (simp add: merge_unranked_def)

text \<open>
  C17. Folding the waiting names into the order by the O(n) merge gives exactly the state a full
  sort of all live names gives, ranks included, without a panic; afterwards no name waits.
\<close>

theorem merge_is_rebuild:
  assumes "names_ok E nm" "order_ok nm"
  shows "merge_unranked nm = build_order nm \<and>
    (\<exists>nm'. merge_unranked nm = Some nm' \<and> order_ok nm' \<and> names_ok E nm' \<and> ns_unranked nm' = [])"
  using merge_unranked_eq[OF assms] build_order_eq[OF assms(1)] reordered_rerank[OF assms(1)] by auto

section \<open>Interning and releasing keep the order\<close>

lemma names_new_order: "order_ok names_new"
  by (simp add: order_ok_def names_new_def names_live_def alive_at_def)

lemma order_ok_intern_new:
  assumes ok: "names_ok E nm" and ord: "order_ok nm" and room: "intern_room E name nm"
    and none: "\<And>i. i \<in> names_live nm \<Longrightarrow> raw_of nm i \<noteq> name"
    and new: "intern_new E name nm = (i, nm')"
  shows "order_ok nm'"
proof -
  let ?m = "length (ns_pairs nm)"
  note spec = intern_new_ok[OF ok room none new]
  have fields: "ns_order nm' = ns_order nm" "ns_unranked nm' = ns_unranked nm @ [?m]"
    "ns_rank_of nm' = ns_rank_of nm @ [UNRANKED]" "length (ns_pairs nm') = Suc ?m"
    using new spec(1) by (auto simp: intern_new_def Let_def split: prod.splits if_splits)
  have len: "length (ns_rank_of nm) = ?m" using ok by (simp add: names_ok_def)
  have ordm: "set (ns_order nm) \<subseteq> {..<?m}" "set (ns_unranked nm) \<subseteq> {..<?m}" using ord by (simp_all add: order_ok_def)
  have lv: "j \<in> names_live nm' \<longleftrightarrow> j \<in> names_live nm" if "j < ?m" for j using that spec(1,3) by auto
  have al: "alive_at nm' = alive_at nm"
    using ordm(1) lv by (auto simp: alive_at_def fun_eq_iff fields subset_iff)
  have rd: "folded_of nm' (ns_order nm ! p) = folded_pos nm p" "ns_rank_of nm' ! (ns_order nm ! p) = rank_pos nm p"
    if "alive_at nm p" for p
  proof -
    have "ns_order nm ! p < ?m" using that ordm(1) by (auto simp: alive_at_def subset_iff)
    then show "folded_of nm' (ns_order nm ! p) = folded_pos nm p" "ns_rank_of nm' ! (ns_order nm ! p) = rank_pos nm p"
      using spec(7) len by (simp_all add: fields nth_append)
  qed
  have fl: "filter (\<lambda>i. i \<in> names_live nm') (ns_order nm) = filter (\<lambda>i. i \<in> names_live nm) (ns_order nm)"
    using ordm(1) lv by (intro filter_cong) auto
  have srt: "in_order nm' (filter (\<lambda>i. i \<in> names_live nm') (ns_order nm))"
    unfolding fl
  proof (rule sorted_wrt_mono_rel)
    show "in_order nm (filter (\<lambda>i. i \<in> names_live nm) (ns_order nm))" using ord by (simp add: order_ok_def)
    have ke: "name_key nm' j = name_key nm j" if "j < ?m" for j using spec(7) that by (simp add: name_key_def)
    show "name_key nm' x < name_key nm' y"
      if "x \<in> set (filter (\<lambda>i. i \<in> names_live nm) (ns_order nm))"
        "y \<in> set (filter (\<lambda>i. i \<in> names_live nm) (ns_order nm))" "name_key nm x < name_key nm y" for x y
    proof -
      have "x < ?m" "y < ?m" using that ordm(1) by auto
      then show ?thesis using that(3) by (simp add: ke)
    qed
  qed
  show ?thesis
  proof (rule order_okI, unfold fields al)
    show "in_order nm' (filter (\<lambda>i. i \<in> names_live nm') (ns_order nm))" by (rule srt)
    show "(ns_rank_of nm @ [UNRANKED]) ! j = UNRANKED" if "j < Suc ?m" "j \<notin> set (ns_order nm)" for j
      using that order_okD(5)[OF ord] len by (auto simp: nth_append less_Suc_eq)
    show "names_live nm' \<subseteq> set (ns_order nm @ ns_unranked nm @ [?m])"
      using order_okD(3)[OF ord] spec(1,3) by auto
    show "distinct (ns_order nm @ ns_unranked nm @ [?m])" "set (ns_order nm @ ns_unranked nm @ [?m]) \<subseteq> {..<Suc ?m}"
      using order_okD(1)[OF ord] ordm by auto
    fix p assume p: "alive_at nm p"
    show "(ns_rank_of nm @ [UNRANKED]) ! (ns_order nm ! p) \<le> p \<and> (ns_rank_of nm @ [UNRANKED]) ! (ns_order nm ! p) \<noteq> UNRANKED"
      using order_okD(6,7)[OF ord p] rd(2)[OF p] by (simp add: fields)
    fix q assume q: "alive_at nm q"
    show "(ns_rank_of nm @ [UNRANKED]) ! (ns_order nm ! p) = (ns_rank_of nm @ [UNRANKED]) ! (ns_order nm ! q)"
      if "folded_of nm' (ns_order nm ! p) = folded_of nm' (ns_order nm ! q)"
      using order_okD(8)[OF ord p q] rd[OF p] rd[OF q] that by (simp add: fields)
    show "p < (ns_rank_of nm @ [UNRANKED]) ! (ns_order nm ! q)"
      if "folded_of nm' (ns_order nm ! p) < folded_of nm' (ns_order nm ! q)"
      using order_okD(9)[OF ord p q] rd[OF p] rd[OF q] that by (simp add: fields)
  qed
qed

lemma order_ok_shrink:
  assumes ord: "order_ok nm" and live: "names_live nm' \<subseteq> names_live nm"
    and same: "ns_order nm' = ns_order nm" "ns_unranked nm' = ns_unranked nm" "ns_rank_of nm' = ns_rank_of nm"
      "length (ns_pairs nm') = length (ns_pairs nm)"
    and fo: "\<And>j. j \<in> names_live nm' \<Longrightarrow> folded_of nm' j = folded_of nm j"
  shows "order_ok nm'"
proof -
  have al: "alive_at nm' p \<Longrightarrow> alive_at nm p" "alive_at nm' p \<Longrightarrow> folded_of nm' (ns_order nm ! p) = folded_pos nm p" for p
    using live fo by (auto simp: alive_at_def same)
  have ke: "name_key nm' j = name_key nm j" if "j \<in> names_live nm'" for j using fo[OF that] by (simp add: name_key_def)
  show ?thesis
  proof (rule order_okI, unfold same)
    show "in_order nm' (filter (\<lambda>i. i \<in> names_live nm') (ns_order nm))"
      unfolding sorted_wrt_filter_nth
      using order_okD(4)[OF ord, unfolded sorted_wrt_filter_nth] live by (simp add: ke subset_iff)
    show "names_live nm' \<subseteq> set (ns_order nm @ ns_unranked nm)" using order_okD(3)[OF ord] live by blast
    fix p assume p: "alive_at nm' p"
    show "rank_pos nm p \<le> p \<and> rank_pos nm p \<noteq> UNRANKED" using order_okD(6,7)[OF ord al(1)[OF p]] by blast
    fix q assume q: "alive_at nm' q"
    show "rank_pos nm p = rank_pos nm q" if "folded_of nm' (ns_order nm ! p) = folded_of nm' (ns_order nm ! q)"
      using order_okD(8)[OF ord al(1)[OF p] al(1)[OF q]] al(2)[OF p] al(2)[OF q] that by simp
    show "p < rank_pos nm q" if "folded_of nm' (ns_order nm ! p) < folded_of nm' (ns_order nm ! q)"
      using order_okD(9)[OF ord al(1)[OF p] al(1)[OF q]] al(2)[OF p] al(2)[OF q] that by simp
  qed (use order_okD(1,2,5)[OF ord] in auto)
qed

lemma order_ok_intern:
  assumes "names_ok E nm" "order_ok nm" "intern_room E name nm" "intern E name nm = Some (i, nm')"
  shows "order_ok nm'"
proof (cases rule: intern_cases[OF assms(1), of name])
  case (1 k)
  then have nm': "nm' = nm\<lparr>ns_refcount := (ns_refcount nm)[k := as_u32 (ns_refcount nm ! k + 1)]\<rparr>" using assms(4) by simp
  have "names_live nm' \<subseteq> names_live nm"
    using 1(1) by (auto simp: nm' names_live_def nth_list_update split: if_splits)
  moreover have "folded_of nm' = folded_of nm" by (simp add: nm' folded_of_def fun_eq_iff)
  ultimately show ?thesis using order_ok_shrink[OF assms(2)] by (simp add: nm')
next
  case 2
  then show ?thesis using order_ok_intern_new[OF assms(1-3), of i nm'] assms(4) by simp
qed

lemma release_order_fields:
  assumes "release E i nm = Some nm'"
  shows "ns_order nm' = ns_order nm" "ns_unranked nm' = ns_unranked nm" "ns_rank_of nm' = ns_rank_of nm"
  using assms by (auto simp: release_def release_last_def Let_def split: bind_splits if_splits)

lemma order_ok_release:
  assumes "names_ok E nm" "order_ok nm" "i \<in> names_live nm" "release E i nm = Some nm'"
  shows "order_ok nm'"
proof -
  obtain nm'' where n: "release E i nm = Some nm''" "names_ok E nm''"
    and rc: "ns_refcount nm'' = (ns_refcount nm)[i := ns_refcount nm ! i - 1]" and ps: "ns_pairs nm'' = ns_pairs nm"
    and oth: "\<And>j. j < length (ns_pairs nm) \<Longrightarrow> j \<noteq> i \<or> 1 < ns_refcount nm ! i \<Longrightarrow> folded_of nm'' j = folded_of nm j"
    by (rule release_spec[OF assms(1,3)]) (rule that; assumption)
  have eq: "nm'' = nm'" using n(1) assms(4) by simp
  have live: "names_live nm' \<subseteq> names_live nm"
  proof
    fix j assume "j \<in> names_live nm'"
    then show "j \<in> names_live nm" using rc eq assms(3) by (cases "j = i") (auto simp: names_live_def)
  qed
  have "folded_of nm' j = folded_of nm j" if "j \<in> names_live nm'" for j
  proof (rule oth[unfolded eq])
    show "j < length (ns_pairs nm)" using live_less[OF assms(1)] live that by blast
    show "j \<noteq> i \<or> 1 < ns_refcount nm ! i" using that rc eq by (cases "j = i") (auto simp: names_live_def)
  qed
  then show ?thesis using order_ok_shrink[OF assms(2) live] release_order_fields[OF assms(4)] ps eq by simp
qed

text \<open>Positions below and above an insertion point.\<close>

definition splits_at :: "name_store \<Rightarrow> u8 list \<Rightarrow> nat \<Rightarrow> nat \<Rightarrow> bool" where
  "splits_at nm x lo hi \<longleftrightarrow>
    lo \<le> hi \<and> hi \<le> length (ns_order nm) \<and>
    (\<forall>p < lo. alive_at nm p \<longrightarrow> folded_pos nm p < x) \<and> (\<forall>p \<ge> hi. alive_at nm p \<longrightarrow> x \<le> folded_pos nm p) \<and>
    (lo = 0 \<or> (alive_at nm (lo - 1) \<and> folded_pos nm (lo - 1) < x))"

lemma first_live_spec:
  "set ids \<subseteq> {..<length (ns_refcount nm)} \<Longrightarrow>
    \<exists>r. first_live nm pos ids = Some r \<and>
      (case r of None \<Rightarrow> \<forall>i \<in> set ids. i \<notin> names_live nm
       | Some p \<Rightarrow> pos \<le> p \<and> p < pos + length ids \<and> ids ! (p - pos) \<in> names_live nm \<and>
           (\<forall>k < p - pos. ids ! k \<notin> names_live nm))"
proof (induction ids arbitrary: pos)
  case (Cons i ids)
  then obtain r where r: "first_live nm (Suc pos) ids = Some r"
    "case r of None \<Rightarrow> \<forall>i \<in> set ids. i \<notin> names_live nm
       | Some p \<Rightarrow> Suc pos \<le> p \<and> p < Suc pos + length ids \<and> ids ! (p - Suc pos) \<in> names_live nm \<and>
           (\<forall>k < p - Suc pos. ids ! k \<notin> names_live nm)" by auto
  have i: "i < length (ns_refcount nm)" using Cons.prems by simp
  show ?case
  proof (cases "i \<in> names_live nm")
    case True
    then show ?thesis using i by (auto simp: names_live_def)
  next
    case False
    then have "ns_refcount nm ! i = 0" using i by (simp add: names_live_def)
    then show ?thesis using r i False
      by (auto simp: nth_Cons' split: option.splits intro!: exI[of _ r])
  qed
qed simp

lemma first_live_at_spec:
  assumes ok: "names_ok E nm" and ord: "order_ok nm"
  obtains (dead) "first_live_at nm mid = Some None" "\<And>p. mid \<le> p \<Longrightarrow> \<not> alive_at nm p"
  | (found) p where "first_live_at nm mid = Some (Some p)" "mid \<le> p" "alive_at nm p"
      "\<And>q. mid \<le> q \<Longrightarrow> q < p \<Longrightarrow> \<not> alive_at nm q"
proof -
  let ?ids = "drop mid (ns_order nm)"
  have "set (ns_order nm) \<subseteq> {..<length (ns_refcount nm)}"
    using ok ord by (simp add: names_ok_def order_ok_def)
  then have "set ?ids \<subseteq> {..<length (ns_refcount nm)}" by (meson set_drop_subset subset_trans)
  from first_live_spec[OF this, of mid] obtain r where r: "first_live_at nm mid = Some r"
    "case r of None \<Rightarrow> \<forall>i \<in> set ?ids. i \<notin> names_live nm
       | Some p \<Rightarrow> mid \<le> p \<and> p < mid + length ?ids \<and> ?ids ! (p - mid) \<in> names_live nm \<and>
           (\<forall>k < p - mid. ?ids ! k \<notin> names_live nm)" by (auto simp: first_live_at_def)
  show ?thesis
  proof (cases r)
    case None
    then have all: "\<forall>i \<in> set ?ids. i \<notin> names_live nm" using r(2) by simp
    have "\<not> alive_at nm p" if "mid \<le> p" for p
    proof
      assume "alive_at nm p"
      then have "?ids ! (p - mid) \<in> names_live nm" "p - mid < length ?ids" using that by (auto simp: alive_at_def)
      then show False using all nth_mem by blast
    qed
    then show ?thesis using dead r None by simp
  next
    case (Some p)
    have "\<not> alive_at nm q" if "mid \<le> q" "q < p" for q
    proof
      assume "alive_at nm q"
      then have "?ids ! (q - mid) \<in> names_live nm" using that by (auto simp: alive_at_def)
      moreover have "q - mid < p - mid" using that by simp
      ultimately show False using r Some by simp
    qed
    moreover have "alive_at nm p" "mid \<le> p" using r Some by (auto simp: alive_at_def)
    ultimately show ?thesis using found r Some by simp
  qed
qed

lemma insertion_loop_spec:
  assumes ok: "names_ok E nm" and ord: "order_ok nm"
  shows "splits_at nm x lo hi \<Longrightarrow> \<exists>p. insertion_loop nm x lo hi = Some p \<and> splits_at nm x p p"
proof (induction "hi - lo" arbitrary: lo hi rule: less_induct)
  case less
  show ?case
  proof (cases "lo < hi")
    case False
    then have "insertion_loop nm x lo hi = Some lo" by (subst insertion_loop.simps) simp
    moreover have "lo = hi" using False less.prems by (simp add: splits_at_def)
    ultimately show ?thesis using less.prems by auto
  next
    case True
    define mid where "mid = lo + (hi - lo) div 2"
    have mid: "lo \<le> mid" "mid < hi" using True by (auto simp: mid_def)
    have down: "\<exists>p. insertion_loop nm x lo mid = Some p \<and> splits_at nm x p p"
      if "\<And>p. mid \<le> p \<Longrightarrow> p < hi \<Longrightarrow> alive_at nm p \<Longrightarrow> x \<le> folded_pos nm p"
    proof (rule less.hyps)
      show "mid - lo < hi - lo" using mid by simp
      show "splits_at nm x lo mid"
        using less.prems mid that unfolding splits_at_def by (auto simp: not_le[symmetric])
    qed
    have srt: "in_order nm (filter (\<lambda>i. i \<in> names_live nm) (ns_order nm))" using ord by (simp add: order_ok_def)
    show ?thesis
    proof (cases rule: first_live_at_spec[OF ok ord, of mid])
      case 1
      then show ?thesis using down True by (subst insertion_loop.simps) (simp add: mid_def[symmetric])
    next
      case (2 p)
      show ?thesis
      proof (cases "p < hi")
        case False
        then have "\<not> alive_at nm q" if "mid \<le> q" "q < hi" for q using 2(4) that by simp
        then show ?thesis using down True False 2(1) by (subst insertion_loop.simps) (simp add: mid_def[symmetric])
      next
        case ph: True
        have pl: "p < length (ns_order nm)" using 2(3) by (simp add: alive_at_def)
        have "ns_order nm ! p \<in> set (ns_order nm)" by (rule nth_mem[OF pl])
        then have "ns_order nm ! p < length (ns_pairs nm)" using order_okD(2)[OF ord] by auto
        then have f: "Option.bind (idx (ns_order nm) p) (folded_bytes_of nm) = Some (folded_pos nm p)"
          using pl by (simp add: names_folded_bytes[OF ok])
        show ?thesis
        proof (cases "folded_pos nm p < x")
          case True
          have "splits_at nm x (p + 1) hi"
          proof -
            have "folded_pos nm q < x" if "q < p + 1" "alive_at nm q" for q
              using in_order_positions(1)[OF srt that(2) 2(3)] True that(1)
              by (cases "q = p") (auto intro: le_less_trans)
            then show ?thesis using less.prems ph True 2(3) by (auto simp: splits_at_def)
          qed
          moreover have "hi - (p + 1) < hi - lo" using ph mid 2(2) by simp
          ultimately have "\<exists>p'. insertion_loop nm x (p + 1) hi = Some p' \<and> splits_at nm x p' p'"
            by (rule less.hyps[rotated])
          then show ?thesis using \<open>lo < hi\<close> ph 2(1) f True
            by (subst insertion_loop.simps) (simp add: mid_def[symmetric])
        next
          case False
          have "x \<le> folded_pos nm q" if "mid \<le> q" "q < hi" "alive_at nm q" for q
          proof -
            have "p \<le> q" using 2(4)[OF that(1)] that(3) by (meson not_le)
            then have "folded_pos nm p \<le> folded_pos nm q"
              using in_order_positions(1)[OF srt 2(3) that(3)] by (cases "q = p") auto
            then show ?thesis using False by simp
          qed
          from down[OF this] show ?thesis using \<open>lo < hi\<close> ph 2(1) f False
            by (subst insertion_loop.simps) (simp add: mid_def[symmetric])
        qed
      qed
    qed
  qed
qed

lemma insertion_point_spec:
  assumes "names_ok E nm" "order_ok nm"
  shows "\<exists>p. insertion_point nm x = Some p \<and> splits_at nm x p p"
  unfolding insertion_point_def
  by (rule insertion_loop_spec[OF assms]) (simp add: splits_at_def alive_at_def)

section \<open>Sort keys\<close>

lemma rank_key_cases:
  assumes ok: "names_ok E nm" and ord: "order_ok nm" and i: "i \<in> names_live nm"
  obtains (grouped) p where "alive_at nm p" "folded_pos nm p = folded_of nm i" "rank_key nm i = Some (2 * rank_pos nm p + 1)"
  | (between) p where "i \<notin> set (ns_order nm)" "splits_at nm (folded_of nm i) p p"
      "\<And>q. alive_at nm q \<Longrightarrow> folded_pos nm q \<noteq> folded_of nm i" "rank_key nm i = Some (2 * p)"
proof (cases "i \<in> set (ns_order nm)")
  case True
  then obtain p where p: "p < length (ns_order nm)" "ns_order nm ! p = i" by (metis in_set_conv_nth)
  then have al: "alive_at nm p" using i by (simp add: alive_at_def)
  have "i < length (ns_rank_of nm)" using live_less[OF ok i] ok by (simp add: names_ok_def)
  then show ?thesis using grouped[OF al] order_okD(7)[OF ord al] p by (simp add: rank_key_def)
next
  case False
  let ?x = "folded_of nm i"
  have im: "i < length (ns_pairs nm)" by (rule live_less[OF ok i])
  have len: "length (ns_rank_of nm) = length (ns_pairs nm)" using ok by (simp add: names_ok_def)
  have un: "ns_rank_of nm ! i = UNRANKED" by (rule order_okD(5)[OF ord im False])
  obtain p where p: "insertion_point nm ?x = Some p" "splits_at nm ?x p p" using insertion_point_spec[OF ok ord] by blast
  have srt: "in_order nm (filter (\<lambda>i. i \<in> names_live nm) (ns_order nm))" by (rule order_okD(4)[OF ord])
  note start = un im len p(1) names_folded_bytes[OF ok]
  have lower: "q < p \<Longrightarrow> alive_at nm q \<Longrightarrow> folded_pos nm q \<noteq> ?x" for q using p(2) by (auto simp: splits_at_def)
  show ?thesis
  proof (cases rule: first_live_at_spec[OF ok ord, of p])
    case 1
    have "folded_pos nm q \<noteq> ?x" if "alive_at nm q" for q using 1(2) lower that by (meson not_le)
    moreover have "rank_key nm i = Some (2 * p)" using start 1 by (simp add: rank_key_def)
    ultimately show ?thesis using between False p(2) by blast
  next
    case (2 q)
    have q: "q < length (ns_order nm)" using 2(3) by (simp add: alive_at_def)
    then have "ns_order nm ! q \<in> set (ns_order nm)" by (rule nth_mem)
    then have jm: "ns_order nm ! q < length (ns_pairs nm)" using order_okD(2)[OF ord] by auto
    show ?thesis
    proof (cases "folded_pos nm q = ?x")
      case True
      then show ?thesis using grouped[OF 2(3)] start 2 q jm by (simp add: rank_key_def)
    next
      case ne: False
      have "folded_pos nm r \<noteq> ?x" if r: "alive_at nm r" for r
      proof (cases "r < p")
        case False
        then have "q \<le> r" using 2(4) r by (meson not_le)
        then have "folded_pos nm q \<le> folded_pos nm r" using in_order_positions(1)[OF srt 2(3) r] by (cases "q = r") auto
        moreover have "?x \<le> folded_pos nm q" using p(2) 2(2,3) by (simp add: splits_at_def)
        ultimately show ?thesis using ne by auto
      qed (use lower r in blast)
      moreover have "rank_key nm i = Some (2 * p)" using start 2 q jm ne by (simp add: rank_key_def)
      ultimately show ?thesis using between False p(2) by blast
    qed
  qed
qed

lemma splits_at_le:
  assumes "splits_at nm x p p" "splits_at nm y q q" "x \<le> y"
  shows "p \<le> q"
proof (rule ccontr)
  assume "\<not> p \<le> q"
  then have "alive_at nm (p - 1)" "folded_pos nm (p - 1) < x" "q \<le> p - 1" using assms(1) by (auto simp: splits_at_def)
  then have "y \<le> folded_pos nm (p - 1)" using assms(2) by (simp add: splits_at_def)
  then show False using \<open>folded_pos nm (p - 1) < x\<close> assms(3) by simp
qed

lemma rank_key_less:
  assumes ok: "names_ok E nm" and ord: "order_ok nm" and i: "i \<in> names_live nm" and j: "j \<in> names_live nm"
    and less: "folded_of nm i < folded_of nm j"
  shows "\<exists>a b. rank_key nm i = Some a \<and> rank_key nm j = Some b \<and> a \<le> b \<and>
    (i \<in> set (ns_order nm) \<or> j \<in> set (ns_order nm) \<longrightarrow> a < b)"
proof (cases rule: rank_key_cases[OF ok ord i])
  case (1 p)
  show ?thesis
  proof (cases rule: rank_key_cases[OF ok ord j])
    case (1 q)
    then have "p < rank_pos nm q" using order_okD(9)[OF ord \<open>alive_at nm p\<close> 1(1)] \<open>folded_pos nm p = _\<close> less by simp
    then show ?thesis using 1 \<open>rank_key nm i = _\<close> order_okD(6)[OF ord \<open>alive_at nm p\<close>] by auto
  next
    case (2 q)
    have "p < q"
    proof (rule ccontr)
      assume "\<not> p < q"
      then have "folded_of nm j \<le> folded_pos nm p" using 2(2) \<open>alive_at nm p\<close> by (simp add: splits_at_def)
      then show False using \<open>folded_pos nm p = _\<close> less by simp
    qed
    then show ?thesis using 2 \<open>rank_key nm i = _\<close> order_okD(6)[OF ord \<open>alive_at nm p\<close>] by auto
  qed
next
  case (2 p)
  note two = 2
  show ?thesis
  proof (cases rule: rank_key_cases[OF ok ord j])
    case (1 q)
    have "p \<le> rank_pos nm q"
    proof (cases "p = 0")
      case False
      then have "alive_at nm (p - 1)" "folded_pos nm (p - 1) < folded_of nm i" using two(2) by (auto simp: splits_at_def)
      then have "p - 1 < rank_pos nm q" using order_okD(9)[OF ord _ 1(1)] 1(2) less by auto
      then show ?thesis by simp
    qed simp
    then show ?thesis using 1 two by auto
  next
    case (2 q)
    then show ?thesis using two splits_at_le[OF two(2) 2(2)] less by auto
  qed
qed

lemma rank_key_equal:
  assumes ok: "names_ok E nm" and ord: "order_ok nm" and i: "i \<in> names_live nm" and j: "j \<in> names_live nm"
    and eq: "folded_of nm i = folded_of nm j"
  shows "rank_key nm i = rank_key nm j"
proof (cases rule: rank_key_cases[OF ok ord i])
  case (1 p)
  show ?thesis
  proof (cases rule: rank_key_cases[OF ok ord j])
    case (1 q)
    have "rank_pos nm p = rank_pos nm q" using order_okD(8)[OF ord \<open>alive_at nm p\<close> 1(1)] 1(2) \<open>folded_pos nm p = _\<close> eq by simp
    then show ?thesis using 1(3) \<open>rank_key nm i = _\<close> by simp
  qed (use 1 eq in auto)
next
  case (2 p)
  note two = 2
  show ?thesis
  proof (cases rule: rank_key_cases[OF ok ord j])
    case (2 q)
    then have "p = q" using splits_at_le[OF two(2) 2(2)] splits_at_le[OF 2(2) two(2)] eq by simp
    then show ?thesis using 2 two by simp
  qed (use two eq in auto)
qed

text \<open>
  C16. The integer keys of a name-sorted page order the live names by their folded bytes, waiting
  names included, at every moment between two merges: comparing keys first and folded bytes second
  is comparing folded bytes, and the key alone decides as soon as one of the two names is in the
  order. No lookup panics and the binary search ends.
\<close>

theorem rank_key_orders:
  assumes "names_ok E nm" "order_ok nm" "i \<in> names_live nm" "j \<in> names_live nm"
  shows "\<exists>a b. rank_key nm i = Some a \<and> rank_key nm j = Some b \<and>
    ((a, folded_of nm i) < (b, folded_of nm j) \<longleftrightarrow> folded_of nm i < folded_of nm j) \<and>
    (i \<in> set (ns_order nm) \<or> j \<in> set (ns_order nm) \<longrightarrow> (a < b \<longleftrightarrow> folded_of nm i < folded_of nm j))"
proof (cases "folded_of nm i = folded_of nm j")
  case True
  obtain a where "rank_key nm i = Some a"
    using rank_key_cases[OF assms(1-3)] by metis
  then show ?thesis using rank_key_equal[OF assms True] True by simp
next
  case False
  then consider "folded_of nm i < folded_of nm j" | "folded_of nm j < folded_of nm i" by (meson linorder_neqE)
  then show ?thesis
  proof cases
    case 1
    then show ?thesis using rank_key_less[OF assms 1] by (fastforce simp: le_less)
  next
    case 2
    then show ?thesis using rank_key_less[OF assms(1,2,4,3) 2] by (fastforce simp: le_less)
  qed
qed

section \<open>A store with a waiting name\<close>

lemma sample_names_eq: "sample_names = snd (intern_new sample_env [65, 98] names_new)"
  by (simp add: sample_names_def intern_def names_new_def)

definition sample_two :: name_store where
  "sample_two = snd (the (intern sample_env [98] sample_names))"

lemma sample_fold_b: "e_fold sample_env [98] = [98]"
  by (simp add: e_fold_def sample_env_def fold_name_def fold_into_def is_ascii_def to_ascii_lowercase_def)

lemma sample_two_room: "intern_room sample_env [98] sample_names"
  by (simp add: sample_names_eq intern_new_def sample_fold names_push_def names_new_def Let_def
      intern_room_def sample_fold_b NIL_def)

lemma sample_names_order: "order_ok sample_names"
proof -
  have "intern sample_env [65, 98] names_new = Some (fst (intern_new sample_env [65, 98] names_new), sample_names)"
    by (simp add: sample_names_eq intern_def names_new_def)
  then show ?thesis by (rule order_ok_intern[OF names_new_ok names_new_order sample_room])
qed

lemma sample_two_ok: "names_ok sample_env sample_two" "order_ok sample_two" "0 \<in> names_live sample_two" "1 \<in> names_live sample_two"
proof -
  have live: "names_live sample_names = {0}" and raw: "raw_of sample_names 0 = [65, 98]" and len: "length (ns_pairs sample_names) = 1"
    by (auto simp: sample_names_eq intern_new_def sample_fold names_push_def names_new_def Let_def names_live_def
      raw_of_def raw_at_def sub_def shared_iff)
  obtain i nm' where new: "intern_new sample_env [98] sample_names = (i, nm')" by fastforce
  have int: "intern sample_env [98] sample_names = Some (i, nm')"
    by (rule intern_cases[OF sample_names_ok(1), of "[98]"]) (use live raw new in auto)
  then have "nm' = sample_two" by (simp add: sample_two_def)
  moreover note intern_new_ok(1-3)[OF sample_names_ok(1) sample_two_room _ new] order_ok_intern[OF sample_names_ok(1) sample_names_order sample_two_room int]
  ultimately show "names_ok sample_env sample_two" "order_ok sample_two" "0 \<in> names_live sample_two" "1 \<in> names_live sample_two"
    using live raw len by auto
qed

theorem merge_is_rebuild_witness:
  "merge_unranked sample_two = build_order sample_two \<and>
    (\<exists>nm'. merge_unranked sample_two = Some nm' \<and> ns_unranked nm' = [])"
  using merge_is_rebuild[OF sample_two_ok(1,2)] by blast

theorem rank_key_orders_witness:
  "\<exists>a b. rank_key sample_two 0 = Some a \<and> rank_key sample_two 1 = Some b \<and>
    ((a, folded_of sample_two 0) < (b, folded_of sample_two 1) \<longleftrightarrow> folded_of sample_two 0 < folded_of sample_two 1)"
  using rank_key_orders[OF sample_two_ok] by blast

end
