(* ===== verification/Name_Compact.thy ===== *)
theory Name_Compact
  imports Name_Order
begin

text \<open>
  Compaction of \<open>NameStore\<close>: the plan copies the live names into fresh arenas in id order, the
  installation swaps them in, renumbers the order and rebuilds the intern table. No live name, count
  or chain head is lost, and the store is well formed afterwards.
\<close>

section \<open>New ids\<close>

text \<open>The new id of a live name: how many live names have smaller ids.\<close>

definition new_id :: "name_store \<Rightarrow> name_id \<Rightarrow> name_id" where
  "new_id nm i = length (filter (\<lambda>k. k \<in> names_live nm) [0..<i])"

lemma new_id_Suc: "new_id nm (Suc i) = (if i \<in> names_live nm then Suc (new_id nm i) else new_id nm i)"
  by (simp add: new_id_def)

lemma new_id_mono: "i \<le> j \<Longrightarrow> new_id nm i \<le> new_id nm j"
  by (rule lift_Suc_mono_le) (simp_all add: new_id_Suc)

lemma new_id_less: "i \<in> names_live nm \<Longrightarrow> i < j \<Longrightarrow> new_id nm i < new_id nm j"
  using new_id_mono[of "Suc i" j nm] by (simp add: new_id_Suc)

lemma new_id_eq: "i \<in> names_live nm \<Longrightarrow> j \<in> names_live nm \<Longrightarrow> new_id nm i = new_id nm j \<longleftrightarrow> i = j"
  using new_id_less[of i nm j] new_id_less[of j nm i] by (metis less_irrefl linorder_neqE_nat)

lemma new_id_le: "new_id nm i \<le> i"
  using length_filter_le[of "\<lambda>k. k \<in> names_live nm" "[0..<i]"] by (simp add: new_id_def)

lemma new_id_onto: "k < new_id nm i \<Longrightarrow> \<exists>j < i. j \<in> names_live nm \<and> new_id nm j = k"
  by (induction i) (auto simp: new_id_Suc new_id_def[of nm 0] less_Suc_eq split: if_splits)

section \<open>The plan\<close>

definition plan_inv :: "name_store \<Rightarrow> nat \<Rightarrow> compacted_names \<Rightarrow> bool" where
  "plan_inv nm i c \<longleftrightarrow>
    arena (cn_raw c) (cn_folded c) (cn_pairs c) \<and>
    length (cn_pairs c) = new_id nm i \<and> length (cn_refcount c) = new_id nm i \<and> length (cn_head c) = new_id nm i \<and>
    length (cn_remap c) = length (ns_pairs nm) \<and>
    (\<forall>j < length (ns_pairs nm). cn_remap c ! j = (if j < i \<and> j \<in> names_live nm then new_id nm j else NIL)) \<and>
    (\<forall>j < i. j \<in> names_live nm \<longrightarrow>
       raw_at (cn_raw c) (cn_folded c) (cn_pairs c ! new_id nm j) = raw_of nm j \<and>
       folded_at (cn_folded c) (cn_pairs c ! new_id nm j) = folded_of nm j \<and>
       cn_refcount c ! new_id nm j = ns_refcount nm ! j \<and> cn_head c ! new_id nm j = ns_head nm ! j) \<and>
    (\<forall>j. i \<le> j \<longrightarrow> j < length (ns_pairs nm) \<longrightarrow> length (cn_folded c) \<le> f_off (ns_pairs nm ! j) \<and>
       (\<not> shared (ns_pairs nm ! j) \<longrightarrow> length (cn_raw c) \<le> r_off (ns_pairs nm ! j)))"

lemma plan_step_push:
  assumes ok: "names_ok E nm" and i: "i < length (ns_pairs nm)" and live: "i \<in> names_live nm" and inv: "plan_inv nm i c"
    and push: "push_pair (shared (ns_pairs nm ! i)) (raw_of nm i) (folded_of nm i) (cn_raw c) (cn_folded c) = (p, raw', folded')"
  shows "plan_step nm i rc c = Some \<lparr>cn_raw = raw', cn_folded = folded', cn_pairs = cn_pairs c @ [p],
      cn_refcount = cn_refcount c @ [rc], cn_head = cn_head c @ [ns_head nm ! i], cn_remap = (cn_remap c)[i := new_id nm i]\<rparr>"
proof -
  have m: "length (ns_pairs nm) \<le> NIL" "length (ns_head nm) = length (ns_pairs nm)" using ok by (simp_all add: names_ok_def)
  then have u: "as_u32 i = i" "as_u32 (new_id nm i) = new_id nm i"
    using i new_id_le[of nm i] by (simp_all add: as_u32_def NIL_def)
  have "raw_bytes_of nm (ns_pairs nm ! i) = Some (raw_of nm i)"
    using names_raw_bytes[OF ok i] i by (simp add: raw_bytes_def)
  then show ?thesis
    using push inv i m u names_folded_bytes[OF ok i]
    by (cases "shared (ns_pairs nm ! i)")
      (auto simp: plan_step_def push_pair_def plan_inv_def shared_def Let_def split: prod.splits)
qed

lemma plan_room:
  assumes ok: "names_ok E nm" and i: "i < length (ns_pairs nm)" and inv: "plan_inv nm i c"
  shows "push_room (shared (ns_pairs nm ! i)) (raw_of nm i) (folded_of nm i) (length (cn_raw c)) (length (cn_folded c))"
    "length (folded_of nm i) = f_len (ns_pairs nm ! i)" "\<not> shared (ns_pairs nm ! i) \<Longrightarrow> length (raw_of nm i) = r_len (ns_pairs nm ! i)"
proof -
  let ?p = "ns_pairs nm ! i"
  have ar: "arena_ok nm" and p: "?p \<in> set (ns_pairs nm)" using ok i by (simp_all add: names_ok_def)
  note f = arena_folded_range[OF ar p] and r = arena_raw_range[OF ar p]
  show fl: "length (folded_of nm i) = f_len ?p" using f by (simp add: folded_of_def folded_at_def sub_def)
  show rl: "\<not> shared ?p \<Longrightarrow> length (raw_of nm i) = r_len ?p" using r by (simp add: raw_of_def raw_at_def sub_def)
  have sh: "shared ?p \<Longrightarrow> raw_of nm i = folded_of nm i" by (simp add: raw_of_def raw_at_def folded_of_def)
  have "length (ns_raw nm) \<le> 2 ^ 31" "length (ns_folded nm) \<le> 2 ^ 31" using ar by (simp_all add: arena_def)
  moreover have "f_len ?p < 2 ^ 16" "r_len ?p < 2 ^ 16"
    using unsigned_less[of "nr_len (np_folded ?p)"] unsigned_less[of "nr_len (np_raw ?p)"] by simp_all
  moreover have "length (cn_folded c) \<le> f_off ?p" "\<not> shared ?p \<Longrightarrow> length (cn_raw c) \<le> r_off ?p"
    using inv i by (simp_all add: plan_inv_def)
  ultimately show "push_room (shared ?p) (raw_of nm i) (folded_of nm i) (length (cn_raw c)) (length (cn_folded c))"
    using f r fl rl sh by (cases "shared ?p") (auto simp: push_room_def)
qed

lemma plan_step_spec:
  assumes ok: "names_ok E nm" and i: "i < length (ns_pairs nm)" and live: "i \<in> names_live nm" and inv: "plan_inv nm i c"
  shows "\<exists>c'. plan_step nm i (ns_refcount nm ! i) c = Some c' \<and> plan_inv nm (Suc i) c'"
proof -
  let ?p = "ns_pairs nm ! i" and ?n = "new_id nm i"
  obtain p raw' folded' where
    push: "push_pair (shared ?p) (raw_of nm i) (folded_of nm i) (cn_raw c) (cn_folded c) = (p, raw', folded')"
    by (metis prod_cases3)
  let ?c = "\<lparr>cn_raw = raw', cn_folded = folded', cn_pairs = cn_pairs c @ [p],
      cn_refcount = cn_refcount c @ [ns_refcount nm ! i], cn_head = cn_head c @ [ns_head nm ! i], cn_remap = (cn_remap c)[i := ?n]\<rparr>"
  have ar: "arena (cn_raw c) (cn_folded c) (cn_pairs c)" using inv by (simp add: plan_inv_def)
  note room = plan_room[OF ok i inv]
  note ap = arena_push[OF ar room(1) push] and shape = arena_push_cases[OF ar room(1) push]
  have lens: "length (cn_pairs c) = ?n" "length (cn_refcount c) = ?n" "length (cn_head c) = ?n"
    "length (cn_remap c) = length (ns_pairs nm)" using inv by (simp_all add: plan_inv_def)
  have old: "raw_at raw' folded' ((cn_pairs c @ [p]) ! new_id nm j) = raw_of nm j \<and>
       folded_at folded' ((cn_pairs c @ [p]) ! new_id nm j) = folded_of nm j \<and>
       (cn_refcount c @ [ns_refcount nm ! i]) ! new_id nm j = ns_refcount nm ! j \<and>
       (cn_head c @ [ns_head nm ! i]) ! new_id nm j = ns_head nm ! j" if j: "j < Suc i" "j \<in> names_live nm" for j
  proof (cases "j = i")
    case True
    then show ?thesis using ap(2,3) lens by (simp add: nth_append)
  next
    case False
    then have ji: "j < i" using j by simp
    then have lt: "new_id nm j < ?n" using new_id_less[OF j(2)] by simp
    then have "cn_pairs c ! new_id nm j \<in> set (cn_pairs c)" using lens by simp
    from ap(4,5)[OF this] show ?thesis using inv ji j(2) lt lens by (simp add: plan_inv_def nth_append)
  qed
  have arn: "arena_ok nm" using ok by (simp add: names_ok_def)
  have ahead: "length folded' \<le> f_off (ns_pairs nm ! j) \<and> (\<not> shared (ns_pairs nm ! j) \<longrightarrow> length raw' \<le> r_off (ns_pairs nm ! j))"
    if j: "Suc i \<le> j" "j < length (ns_pairs nm)" for j
  proof -
    have "f_off ?p + f_len ?p < f_off (ns_pairs nm ! j)"
      using arn j lay_out_ascending[of 0 "ns_pairs nm" "length (ns_folded nm)" i j] by (simp add: arena_def)
    moreover have "length (cn_folded c) \<le> f_off ?p" using inv i by (simp add: plan_inv_def)
    ultimately have "length folded' \<le> f_off (ns_pairs nm ! j)" by (simp add: shape room(2))
    moreover have "length raw' \<le> r_off (ns_pairs nm ! j)" if sj: "\<not> shared (ns_pairs nm ! j)"
    proof (cases "shared ?p")
      case True
      then show ?thesis using inv j sj shape(7) by (simp add: plan_inv_def)
    next
      case False
      have "r_off ?p + r_len ?p < r_off (ns_pairs nm ! j)"
        using arn j False sj by (simp add: arena_def sorted_wrt_iff_nth_less)
      moreover have "length (cn_raw c) \<le> r_off ?p" using inv i False by (simp add: plan_inv_def)
      ultimately show ?thesis using False room(3) shape(7) by simp
    qed
    ultimately show ?thesis by blast
  qed
  have "plan_inv nm (Suc i) ?c"
    unfolding plan_inv_def
  proof (intro conjI)
    show "\<forall>j < length (ns_pairs nm). cn_remap ?c ! j = (if j < Suc i \<and> j \<in> names_live nm then new_id nm j else NIL)"
    proof (intro allI impI)
      fix j assume "j < length (ns_pairs nm)"
      then show "cn_remap ?c ! j = (if j < Suc i \<and> j \<in> names_live nm then new_id nm j else NIL)"
        using inv lens live by (cases "j = i") (auto simp: plan_inv_def less_Suc_eq)
    qed
    show "\<forall>j<Suc i. j \<in> names_live nm \<longrightarrow>
       raw_at (cn_raw ?c) (cn_folded ?c) (cn_pairs ?c ! new_id nm j) = raw_of nm j \<and>
       folded_at (cn_folded ?c) (cn_pairs ?c ! new_id nm j) = folded_of nm j \<and>
       cn_refcount ?c ! new_id nm j = ns_refcount nm ! j \<and> cn_head ?c ! new_id nm j = ns_head nm ! j"
      using old by simp
    show "\<forall>j. Suc i \<le> j \<longrightarrow> j < length (ns_pairs nm) \<longrightarrow> length (cn_folded ?c) \<le> f_off (ns_pairs nm ! j) \<and>
       (\<not> shared (ns_pairs nm ! j) \<longrightarrow> length (cn_raw ?c) \<le> r_off (ns_pairs nm ! j))"
      using ahead by simp
  qed (use ap(1) lens live in \<open>simp_all add: new_id_Suc\<close>)
  then show ?thesis using plan_step_push[OF ok i live inv push] by blast
qed

lemma plan_inv_skip: "plan_inv nm i c \<Longrightarrow> i \<notin> names_live nm \<Longrightarrow> plan_inv nm (Suc i) c"
  unfolding plan_inv_def by (auto simp: new_id_Suc less_Suc_eq)

lemma plan_loop_spec:
  assumes ok: "names_ok E nm"
  shows "rcs = drop i (ns_refcount nm) \<Longrightarrow> i \<le> length (ns_pairs nm) \<Longrightarrow> plan_inv nm i c \<Longrightarrow>
    \<exists>c'. plan_loop nm i rcs c = Some c' \<and> plan_inv nm (length (ns_pairs nm)) c'"
proof (induction rcs arbitrary: i c)
  case Nil
  moreover have "length (ns_refcount nm) = length (ns_pairs nm)" using ok by (simp add: names_ok_def)
  ultimately have "i = length (ns_pairs nm)" by simp
  then show ?case using Nil by simp
next
  case (Cons rc rcs)
  have len: "length (ns_refcount nm) = length (ns_pairs nm)" using ok by (simp add: names_ok_def)
  have i: "i < length (ns_pairs nm)" using Cons.prems(1) len by (metis drop_all list.distinct(1) not_le)
  have rc: "rc = ns_refcount nm ! i" and rcs: "rcs = drop (Suc i) (ns_refcount nm)"
    using Cons.prems(1) Cons_nth_drop_Suc[of i "ns_refcount nm"] i len by (metis list.inject)+
  show ?case
  proof (cases "rc = 0")
    case True
    then have "i \<notin> names_live nm" using rc by (simp add: names_live_def)
    from plan_inv_skip[OF Cons.prems(3) this] show ?thesis using Cons.IH[OF rcs] i True by simp
  next
    case False
    then have "i \<in> names_live nm" using rc i len by (simp add: names_live_def)
    from plan_step_spec[OF ok i this Cons.prems(3)] obtain c' where "plan_step nm i rc c = Some c'" "plan_inv nm (Suc i) c'"
      using rc by auto
    then show ?thesis using Cons.IH[OF rcs] i False by simp
  qed
qed

lemma plan_compact_spec:
  assumes ok: "names_ok E nm"
  obtains c where "plan_compact nm = Some c" "plan_inv nm (length (ns_pairs nm)) c"
proof -
  let ?c = "\<lparr>cn_raw = [], cn_folded = [], cn_pairs = [], cn_refcount = [], cn_head = [],
       cn_remap = replicate (length (ns_pairs nm)) NIL\<rparr>"
  have "plan_inv nm 0 ?c" by (simp add: plan_inv_def arena_def new_id_def)
  then show ?thesis
    using plan_loop_spec[OF ok, of "ns_refcount nm" 0 ?c] that by (auto simp: plan_compact_def)
qed

section \<open>The installation\<close>

lemma renumber_eq:
  "set ids \<subseteq> {..<length remap} \<Longrightarrow> renumber remap ids = Some (filter (\<lambda>n. n \<noteq> NIL) (map ((!) remap) ids))"
  by (induction ids) auto

lemma rebuild_table_eq:
  "(\<And>i. i \<in> set ids \<Longrightarrow> raw_bytes nm i = Some (f i)) \<Longrightarrow>
    rebuild_table E nm ids slots = Some (slots @ map (\<lambda>i. (e_hash E (f i), i)) ids)"
  by (induction ids arbitrary: slots) (auto simp: ht_insert_def)

text \<open>The store after the swap, before the ranks are recomputed.\<close>

definition swapped :: "env \<Rightarrow> compacted_names \<Rightarrow> name_store \<Rightarrow> name_store" where
  "swapped E c nm =
    nm\<lparr>ns_order := filter (\<lambda>n. n \<noteq> NIL) (map ((!) (cn_remap c)) (ns_order nm)),
       ns_unranked := filter (\<lambda>n. n \<noteq> NIL) (map ((!) (cn_remap c)) (ns_unranked nm)),
       ns_raw := cn_raw c, ns_folded := cn_folded c, ns_pairs := cn_pairs c, ns_refcount := cn_refcount c,
       ns_head := cn_head c, ns_garbage := 0,
       ns_by_bytes := map (\<lambda>i. (e_hash E (raw_at (cn_raw c) (cn_folded c) (cn_pairs c ! i)), i)) [0..<length (cn_pairs c)],
       ns_rank_of := replicate (length (cn_pairs c)) UNRANKED, ns_dead_ranked := 0\<rparr>"

lemma plan_full:
  assumes ok: "names_ok E nm" and inv: "plan_inv nm (length (ns_pairs nm)) c"
  shows "\<And>j. j \<in> names_live nm \<Longrightarrow> raw_of (swapped E c nm) (new_id nm j) = raw_of nm j"
    "\<And>j. j \<in> names_live nm \<Longrightarrow> folded_of (swapped E c nm) (new_id nm j) = folded_of nm j"
    "\<And>j. j \<in> names_live nm \<Longrightarrow> ns_refcount (swapped E c nm) ! new_id nm j = ns_refcount nm ! j"
    "\<And>j. j \<in> names_live nm \<Longrightarrow> ns_head (swapped E c nm) ! new_id nm j = ns_head nm ! j"
    "names_live (swapped E c nm) = new_id nm ` names_live nm"
    "{..<length (cn_pairs c)} = new_id nm ` names_live nm"
proof -
  let ?m = "length (ns_pairs nm)"
  have ll: "j < ?m" if "j \<in> names_live nm" for j by (rule live_less[OF ok that])
  show "\<And>j. j \<in> names_live nm \<Longrightarrow> raw_of (swapped E c nm) (new_id nm j) = raw_of nm j"
    "\<And>j. j \<in> names_live nm \<Longrightarrow> folded_of (swapped E c nm) (new_id nm j) = folded_of nm j"
    and rc: "\<And>j. j \<in> names_live nm \<Longrightarrow> ns_refcount (swapped E c nm) ! new_id nm j = ns_refcount nm ! j"
    and "\<And>j. j \<in> names_live nm \<Longrightarrow> ns_head (swapped E c nm) ! new_id nm j = ns_head nm ! j"
    using inv ll by (simp_all add: plan_inv_def swapped_def raw_of_def folded_of_def)
  have len: "length (cn_pairs c) = new_id nm ?m" "length (cn_refcount c) = new_id nm ?m" using inv by (simp_all add: plan_inv_def)
  show onto: "{..<length (cn_pairs c)} = new_id nm ` names_live nm"
  proof (rule set_eqI)
    fix k show "k \<in> {..<length (cn_pairs c)} \<longleftrightarrow> k \<in> new_id nm ` names_live nm"
      using new_id_onto[of k nm ?m] new_id_less ll len by auto
  qed
  have "k \<in> names_live (swapped E c nm) \<longleftrightarrow> k \<in> {..<length (cn_pairs c)}" for k
  proof
    assume "k \<in> {..<length (cn_pairs c)}"
    then obtain j where j: "j \<in> names_live nm" "k = new_id nm j" "k < length (cn_pairs c)" using onto by auto
    then show "k \<in> names_live (swapped E c nm)" using rc[OF j(1)] len
      by (simp add: names_live_def swapped_def)
  qed (simp add: names_live_def swapped_def len)
  then show "names_live (swapped E c nm) = new_id nm ` names_live nm" using onto by auto
qed

lemma swapped_names_ok:
  assumes ok: "names_ok E nm" and inv: "plan_inv nm (length (ns_pairs nm)) c"
  shows "names_ok E (swapped E c nm)"
proof -
  let ?nm = "swapped E c nm" and ?n = "length (cn_pairs c)"
  note full = plan_full[OF ok inv]
  have lens: "length (cn_refcount c) = ?n" "length (cn_head c) = ?n" "?n \<le> length (ns_pairs nm)"
    using inv new_id_le by (simp_all add: plan_inv_def)
  have fs: "ns_pairs ?nm = cn_pairs c" "ns_raw ?nm = cn_raw c" "ns_folded ?nm = cn_folded c" "ns_refcount ?nm = cn_refcount c"
    "ns_head ?nm = cn_head c" "ns_rank_of ?nm = replicate ?n UNRANKED"
    "ns_by_bytes ?nm = map (\<lambda>i. (e_hash E (raw_of ?nm i), i)) [0..<?n]"
    by (simp_all add: swapped_def raw_of_def)
  have live: "names_live ?nm = {..<?n}" using full(5,6) by simp
  show ?thesis
    unfolding names_ok_def fs
  proof (intro conjI)
    show "\<forall>rc \<in> set (cn_refcount c). rc < 2 ^ 32"
    proof
      fix rc assume "rc \<in> set (cn_refcount c)"
      then obtain k where k: "k < ?n" "rc = cn_refcount c ! k" using lens by (metis in_set_conv_nth)
      then obtain j where "j \<in> names_live nm" "k = new_id nm j" using full(6) by auto
      then have "rc = ns_refcount nm ! j" "j < length (ns_refcount nm)" using full(3)[of j] k fs(4) by (simp_all add: names_live_def)
      then show "rc < 2 ^ 32" using ok by (simp add: names_ok_def)
    qed
    show "\<forall>i \<in> names_live ?nm. folded_of ?nm i = e_fold E (raw_of ?nm i)"
      unfolding full(5) using full(1,2) ok by (auto simp: names_ok_def)
    show "inj_on (raw_of ?nm) (names_live ?nm)"
      unfolding full(5) inj_on_def using full(1) ok by (auto simp: names_ok_def inj_on_def)
  qed (use inv lens ok live in \<open>auto simp: plan_inv_def names_ok_def distinct_map inj_on_def atLeast0LessThan\<close>)
qed

lemma remap_live:
  assumes ok: "names_ok E nm" and inv: "plan_inv nm (length (ns_pairs nm)) c" and j: "j < length (ns_pairs nm)"
  shows "cn_remap c ! j = (if j \<in> names_live nm then new_id nm j else NIL)" "j \<in> names_live nm \<Longrightarrow> new_id nm j \<noteq> NIL"
proof -
  show "cn_remap c ! j = (if j \<in> names_live nm then new_id nm j else NIL)" using inv j by (simp add: plan_inv_def)
  have "length (ns_pairs nm) \<le> NIL" using ok by (simp add: names_ok_def)
  then show "new_id nm j \<noteq> NIL" using new_id_le[of nm j] j by simp
qed

lemma renumbered:
  assumes ok: "names_ok E nm" and inv: "plan_inv nm (length (ns_pairs nm)) c" and ids: "set ids \<subseteq> {..<length (ns_pairs nm)}"
  shows "filter (\<lambda>n. n \<noteq> NIL) (map ((!) (cn_remap c)) ids) = map (new_id nm) (filter (\<lambda>i. i \<in> names_live nm) ids)"
  using ids by (induction ids) (auto simp: remap_live[OF ok inv])

lemma swapped_order:
  assumes ok: "names_ok E nm" and ord: "order_ok nm" and inv: "plan_inv nm (length (ns_pairs nm)) c"
  shows "ns_order (swapped E c nm) = map (new_id nm) (filter (\<lambda>i. i \<in> names_live nm) (ns_order nm))"
    "ns_unranked (swapped E c nm) = map (new_id nm) (filter (\<lambda>i. i \<in> names_live nm) (ns_unranked nm))"
  using renumbered[OF ok inv] order_okD(2)[OF ord] by (simp_all add: swapped_def)

lemma new_id_key:
  assumes ok: "names_ok E nm" and inv: "plan_inv nm (length (ns_pairs nm)) c" and "i \<in> names_live nm" "j \<in> names_live nm"
  shows "name_key (swapped E c nm) (new_id nm i) < name_key (swapped E c nm) (new_id nm j) \<longleftrightarrow> name_key nm i < name_key nm j"
proof -
  have "new_id nm i < new_id nm j \<longleftrightarrow> i < j"
    using new_id_less[OF assms(3), of j] new_id_less[OF assms(4), of i] by (metis less_asym less_irrefl linorder_neqE_nat)
  then show ?thesis using plan_full(2)[OF ok inv] assms(3,4) by (simp add: name_key_def)
qed

lemma install_spec:
  assumes ok: "names_ok E nm" and ord: "order_ok nm" and inv: "plan_inv nm (length (ns_pairs nm)) c"
  obtains ranks where "install_compacted E c nm = Some (cn_remap c, swapped E c nm\<lparr>ns_rank_of := ranks\<rparr>)"
    "names_ok E (swapped E c nm\<lparr>ns_rank_of := ranks\<rparr>)" "order_ok (swapped E c nm\<lparr>ns_rank_of := ranks\<rparr>)"
proof -
  let ?nm = "swapped E c nm" and ?n = "length (cn_pairs c)"
  let ?L = "filter (\<lambda>i. i \<in> names_live nm)"
  note full = plan_full[OF ok inv] and sok = swapped_names_ok[OF ok inv] and so = swapped_order[OF ok ord inv]
  have live: "names_live ?nm = {..<?n}" using full(5,6) by simp
  have sub: "set (?L ids) \<subseteq> names_live nm" for ids by auto
  have inj: "inj_on (new_id nm) (names_live nm)" by (auto simp: inj_on_def new_id_eq)
  have un: "set (ns_order ?nm @ ns_unranked ?nm) = new_id nm ` names_live nm"
    using order_okD(3)[OF ord] by (auto simp: so)
  have "distinct (map (new_id nm) (?L (ns_order nm @ ns_unranked nm)))"
    using order_okD(1)[OF ord] inj by (auto simp: distinct_map inj_on_def)
  then have d: "distinct (ns_order ?nm @ ns_unranked ?nm)" by (simp add: so)
  have srt: "in_order ?nm (filter (\<lambda>i. i \<in> names_live ?nm) (ns_order ?nm))"
  proof -
    have "filter (\<lambda>i. i \<in> names_live ?nm) (ns_order ?nm) = ns_order ?nm"
      using un full(5) by (intro filter_True) auto
    moreover have "sorted_wrt (\<lambda>i j. name_key ?nm (new_id nm i) < name_key ?nm (new_id nm j)) (?L (ns_order nm))"
      using order_okD(4)[OF ord] new_id_key[OF ok inv] by (auto elim: sorted_wrt_mono_rel[rotated])
    ultimately show ?thesis by (simp add: so sorted_wrt_map)
  qed
  have pl: "ns_pairs ?nm = cn_pairs c" by (simp add: swapped_def)
  have "set (ns_order ?nm @ ns_unranked ?nm) \<subseteq> {..<length (ns_pairs ?nm)}"
    "names_live ?nm \<subseteq> set (ns_order ?nm @ ns_unranked ?nm)"
    using un full(5,6) by (auto simp: pl)
  from rerank_spec[OF sok d this srt] obtain ranks where r: "rerank ?nm = Some (?nm\<lparr>ns_rank_of := ranks\<rparr>)"
    "order_ok (?nm\<lparr>ns_rank_of := ranks\<rparr>)" "names_ok E (?nm\<lparr>ns_rank_of := ranks\<rparr>)" by blast
  have rl: "length (cn_remap c) = length (ns_pairs nm)" using inv by (simp add: plan_inv_def)
  let ?nm1 = "nm\<lparr>ns_order := ns_order ?nm, ns_unranked := ns_unranked ?nm, ns_raw := cn_raw c, ns_folded := cn_folded c,
                  ns_pairs := cn_pairs c, ns_refcount := cn_refcount c, ns_head := cn_head c, ns_garbage := 0\<rparr>"
  have "arena_ok ?nm1" using inv by (simp add: plan_inv_def)
  then have tb: "raw_bytes ?nm1 i = Some (raw_at (cn_raw c) (cn_folded c) (cn_pairs c ! i))" if "i < ?n" for i
    using raw_bytes_at[of ?nm1 i] that by (simp add: raw_of_def)
  have n: "as_u32 ?n = ?n" using sok by (simp add: names_ok_def pl as_u32_def NIL_def)
  have "rebuild_table E ?nm1 [0..<?n] [] = Some (ns_by_bytes ?nm)"
    using rebuild_table_eq[of "[0..<?n]" ?nm1 "\<lambda>i. raw_at (cn_raw c) (cn_folded c) (cn_pairs c ! i)" E "[]"] tb
    by (simp add: swapped_def)
  then have "install_compacted E c nm = Some (cn_remap c, ?nm\<lparr>ns_rank_of := ranks\<rparr>)"
    using r(1) order_okD(2)[OF ord] rl n
    by (simp add: install_compacted_def renumber_eq swapped_def Let_def)
  then show ?thesis using that r by blast
qed

lemma names_mset_live:
  "names_mset nm = (\<Sum>i \<in> names_live nm. replicate_mset (ns_refcount nm ! i) (raw_of nm i))"
proof -
  have "names_live nm \<subseteq> {..<length (ns_refcount nm)}" by (auto simp: names_live_def)
  then show ?thesis unfolding names_mset_def
    by (intro sum.mono_neutral_right) (auto simp: names_live_def)
qed

lemma swapped_mset:
  assumes ok: "names_ok E nm" and inv: "plan_inv nm (length (ns_pairs nm)) c"
  shows "names_mset (swapped E c nm\<lparr>ns_rank_of := ranks\<rparr>) = names_mset nm"
proof -
  let ?nm = "swapped E c nm"
  note full = plan_full[OF ok inv]
  have inj: "inj_on (new_id nm) (names_live nm)" by (auto simp: inj_on_def new_id_eq)
  have "names_mset (?nm\<lparr>ns_rank_of := ranks\<rparr>) = names_mset ?nm"
    by (simp add: names_mset_def raw_of_def)
  also have "\<dots> = (\<Sum>i \<in> names_live nm. replicate_mset (ns_refcount ?nm ! new_id nm i) (raw_of ?nm (new_id nm i)))"
    unfolding names_mset_live[of ?nm] full(5) using inj by (simp add: sum.reindex)
  also have "\<dots> = (\<Sum>i \<in> names_live nm. replicate_mset (ns_refcount nm ! i) (raw_of nm i))"
    by (rule sum.cong) (simp_all add: full(1,3))
  finally show ?thesis by (simp add: names_mset_live)
qed

text \<open>
  C18. Compaction loses nothing: the plan and its installation never panic, the store is well
  formed and in order afterwards and holds the same multiset of names, with no dead id left. The
  remap gives every live id a new one, keeping their relative order, under which its bytes, count
  and chain head are unchanged, and gives dead ids \<open>NIL\<close>.
\<close>

theorem compaction_keeps_names:
  assumes "names_ok E nm" "order_ok nm"
  shows "\<exists>c remap nm'. plan_compact nm = Some c \<and> install_compacted E c nm = Some (remap, nm') \<and>
    names_ok E nm' \<and> order_ok nm' \<and> names_mset nm' = names_mset nm \<and>
    names_live nm' = {..<length (ns_pairs nm')} \<and>
    (\<forall>i < length (ns_pairs nm). remap ! i = NIL \<longleftrightarrow> i \<notin> names_live nm) \<and>
    (\<forall>i \<in> names_live nm. \<forall>j \<in> names_live nm. i < j \<longrightarrow> remap ! i < remap ! j) \<and>
    (\<forall>i \<in> names_live nm. raw_of nm' (remap ! i) = raw_of nm i \<and>
       ns_refcount nm' ! (remap ! i) = ns_refcount nm ! i \<and> ns_head nm' ! (remap ! i) = ns_head nm ! i)"
proof -
  obtain c where c: "plan_compact nm = Some c" and inv: "plan_inv nm (length (ns_pairs nm)) c"
    by (rule plan_compact_spec[OF assms(1)])
  obtain ranks where ins: "install_compacted E c nm = Some (cn_remap c, swapped E c nm\<lparr>ns_rank_of := ranks\<rparr>)"
    and ok': "names_ok E (swapped E c nm\<lparr>ns_rank_of := ranks\<rparr>)" and ord': "order_ok (swapped E c nm\<lparr>ns_rank_of := ranks\<rparr>)"
    by (rule install_spec[OF assms inv])
  let ?nm = "swapped E c nm\<lparr>ns_rank_of := ranks\<rparr>"
  note full = plan_full[OF assms(1) inv] and re = remap_live[OF assms(1) inv] and ll = live_less[OF assms(1)]
  have same: "names_live ?nm = names_live (swapped E c nm)" "raw_of ?nm = raw_of (swapped E c nm)"
    by (simp_all add: names_live_def raw_of_def fun_eq_iff)
  have "names_live ?nm = {..<length (ns_pairs ?nm)}" using full(5,6) by (simp add: same) (simp add: swapped_def)
  moreover have "\<forall>i < length (ns_pairs nm). cn_remap c ! i = NIL \<longleftrightarrow> i \<notin> names_live nm" using re by simp
  moreover have "\<forall>i \<in> names_live nm. \<forall>j \<in> names_live nm. i < j \<longrightarrow> cn_remap c ! i < cn_remap c ! j"
    using re(1) ll new_id_less by simp
  moreover have "\<forall>i \<in> names_live nm. raw_of ?nm (cn_remap c ! i) = raw_of nm i \<and>
       ns_refcount ?nm ! (cn_remap c ! i) = ns_refcount nm ! i \<and> ns_head ?nm ! (cn_remap c ! i) = ns_head nm ! i"
    using re(1) ll full(1,3,4) by (simp add: same)
  ultimately show ?thesis using c ins ok' ord' swapped_mset[OF assms(1) inv, of ranks] by blast
qed

section \<open>Every store the index can reach\<close>

text \<open>
  The calls the index makes on its names, in any order: interning while there is room, releasing a
  counted reference, moving a chain head, sorting, merging, compacting.
\<close>

inductive names_reach :: "env \<Rightarrow> name_store \<Rightarrow> bool" for E where
  init: "names_reach E names_new"
| interned: "names_reach E nm \<Longrightarrow> intern_room E name nm \<Longrightarrow> intern E name nm = Some (i, nm') \<Longrightarrow> names_reach E nm'"
| released: "names_reach E nm \<Longrightarrow> i < length (ns_refcount nm) \<Longrightarrow> 0 < ns_refcount nm ! i \<Longrightarrow>
    release E i nm = Some nm' \<Longrightarrow> names_reach E nm'"
| head_set: "names_reach E nm \<Longrightarrow> set_chain_head i e nm = Some nm' \<Longrightarrow> names_reach E nm'"
| built: "names_reach E nm \<Longrightarrow> build_order nm = Some nm' \<Longrightarrow> names_reach E nm'"
| merged: "names_reach E nm \<Longrightarrow> merge_unranked nm = Some nm' \<Longrightarrow> names_reach E nm'"
| compacted: "names_reach E nm \<Longrightarrow> plan_compact nm = Some c \<Longrightarrow> install_compacted E c nm = Some (remap, nm') \<Longrightarrow> names_reach E nm'"

lemma set_chain_head_ok:
  assumes "names_ok E nm" "order_ok nm" "set_chain_head i e nm = Some nm'"
  shows "names_ok E nm' \<and> order_ok nm'"
proof -
  obtain hs where hs: "nm' = nm\<lparr>ns_head := hs\<rparr>" "length hs = length (ns_head nm)"
    using assms(3) by (auto simp: set_chain_head_def upd_def split: bind_splits if_splits)
  have same: "names_live nm' = names_live nm" "folded_of nm' = folded_of nm" "raw_of nm' = raw_of nm"
    by (simp_all add: hs names_live_def folded_of_def raw_of_def fun_eq_iff)
  have "names_ok E nm'" using assms(1) unfolding names_ok_def same by (simp add: hs)
  moreover have "ns_order nm' = ns_order nm" "ns_unranked nm' = ns_unranked nm" "ns_rank_of nm' = ns_rank_of nm"
    "ns_pairs nm' = ns_pairs nm" by (simp_all add: hs)
  then have "order_ok nm'" by (intro order_ok_shrink[OF assms(2)]) (simp_all add: same)
  ultimately show ?thesis by blast
qed

text \<open>
  C13. Whatever sequence of calls the index makes, the name store stays well formed and its order
  stays sorted with consistent ranks.
\<close>

theorem names_reach_ok: "names_reach E nm \<Longrightarrow> names_ok E nm \<and> order_ok nm"
proof (induction rule: names_reach.induct)
  case init
  show ?case using names_new_ok names_new_order by blast
next
  case (interned nm name i nm')
  then show ?case using order_ok_intern intern_spec[of E nm name] by (metis option.inject prod.inject)
next
  case (released nm i nm')
  then have i: "i \<in> names_live nm" by (simp add: names_live_def)
  then show ?case using released order_ok_release release_spec[of E nm i] by (metis option.inject)
next
  case (head_set nm i e nm')
  then show ?case using set_chain_head_ok by blast
next
  case (built nm nm')
  then show ?case using build_order_eq reordered_rerank by (metis option.inject)
next
  case (merged nm nm')
  then show ?case using merge_unranked_eq build_order_eq reordered_rerank by (metis option.inject)
next
  case (compacted nm c remap nm')
  obtain c' where c': "plan_compact nm = Some c'" "plan_inv nm (length (ns_pairs nm)) c'"
    using plan_compact_spec compacted.IH by blast
  then have "c' = c" using compacted(2) by simp
  then show ?case using install_spec[of E nm c] compacted c' by (metis option.inject prod.inject)
qed

theorem compaction_keeps_names_witness:
  "\<exists>c remap nm'. plan_compact sample_two = Some c \<and> install_compacted sample_env c sample_two = Some (remap, nm') \<and>
    names_mset nm' = names_mset sample_two"
  using compaction_keeps_names[OF sample_two_ok(1,2)] by blast

theorem names_reach_ok_witness: "names_ok sample_env sample_names \<and> order_ok sample_names"
proof -
  have "intern sample_env [65, 98] names_new = Some (fst (intern_new sample_env [65, 98] names_new), sample_names)"
    by (simp add: sample_names_eq intern_def names_new_def)
  from names_reach.interned[OF names_reach.init sample_room this] show ?thesis by (rule names_reach_ok)
qed

end
