(* ===== verification/Budget.thy ===== *)
theory Budget
  imports Prelude
begin

text \<open>
  How a search learns its time is up (\<open>query/budget.rs\<close>). The cancel flag and the clock are read
  through a function of the number of the reading, so that a theorem holds for every clock.
\<close>

record budget =
  bg_over :: "nat \<Rightarrow> bool"
  bg_reads :: nat
  bg_spent :: bool

definition unlimited :: budget where
  "unlimited = \<lparr>bg_over = (\<lambda>_. False), bg_reads = 0, bg_spent = False\<rparr>"

text \<open>\<open>over n\<close>: at the \<open>n\<close>-th reading the cancel flag is set or the deadline has passed.\<close>

definition budget_until :: "(nat \<Rightarrow> bool) \<Rightarrow> budget" where
  "budget_until over = \<lparr>bg_over = over, bg_reads = 0, bg_spent = False\<rparr>"

definition budget_check :: "budget \<Rightarrow> bool \<times> budget" where
  "budget_check b =
    (if bg_spent b then (True, b)
     else let over = bg_over b (bg_reads b)
          in (over, b\<lparr>bg_reads := bg_reads b + 1, bg_spent := over\<rparr>))"

definition ITEMS_PER_CHECK :: nat where "ITEMS_PER_CHECK = 256"

text \<open>A thread's watch is the items left until its next check; the subtraction underflows at 0, a panic.\<close>

definition watch_new :: nat where "watch_new = 1"

definition watch_check :: "nat \<times> budget \<Rightarrow> bool \<times> nat \<times> budget" where
  "watch_check w =
    (case w of (left, b) \<Rightarrow>
      let (spent, b) = budget_check b in (spent, if spent then 1 else ITEMS_PER_CHECK, b))"

definition tick :: "nat \<times> budget \<Rightarrow> (bool \<times> nat \<times> budget) option" where
  "tick w =
    (case w of (left, b) \<Rightarrow>
      if left = 0 then None
      else if left - 1 = 0 then Some (watch_check (left - 1, b))
      else Some (False, left - 1, b))"

fun ticks :: "nat \<Rightarrow> nat \<times> budget \<Rightarrow> (bool list \<times> nat \<times> budget) option" where
  "ticks 0 w = Some ([], w)"
| "ticks (Suc n) w = (case tick w of None \<Rightarrow> None
    | Some (r, w) \<Rightarrow> (case ticks n w of None \<Rightarrow> None | Some (rs, w) \<Rightarrow> Some (r # rs, w)))"

section \<open>A spent budget is noticed and stays spent\<close>

definition watch_ok :: "nat \<times> budget \<Rightarrow> bool" where
  "watch_ok w \<longleftrightarrow> 1 \<le> fst w \<and> fst w \<le> ITEMS_PER_CHECK"

lemma budget_check_spent: "budget_check b = (r, b') \<Longrightarrow> bg_spent b' = r \<and> bg_over b' = bg_over b \<and> (bg_spent b \<longrightarrow> r)"
  by (auto simp: budget_check_def Let_def split: if_splits)

lemma tick_total:
  assumes "watch_ok w"
  shows "\<exists>r w'. tick w = Some (r, w') \<and> watch_ok w' \<and> (r \<longrightarrow> fst w' = 1 \<and> bg_spent (snd w')) \<and>
    (\<not> r \<and> fst w \<noteq> 1 \<longrightarrow> fst w' = fst w - 1 \<and> snd w' = snd w)"
proof -
  obtain left b where w: "w = (left, b)" by fastforce
  have l: "1 \<le> left" "left \<le> ITEMS_PER_CHECK" "1 \<le> ITEMS_PER_CHECK" using assms by (simp_all add: w watch_ok_def ITEMS_PER_CHECK_def)
  show ?thesis
  proof (cases "left = 1")
    case True
    obtain r b' where b': "budget_check b = (r, b')" by fastforce
    then show ?thesis using l budget_check_spent[OF b'] by (simp add: w True tick_def watch_check_def watch_ok_def)
  next
    case False
    then have "2 \<le> left" using l(1) by simp
    then have "tick w = Some (False, left - 1, b)" "watch_ok (left - 1, b)" using l(2)
      by (simp add: w tick_def, simp only: watch_ok_def fst_conv) linarith
    then show ?thesis by (intro exI[of _ False] exI[of _ "(left - 1, b)"]) (simp add: w)
  qed
qed

lemma ticks_total: "watch_ok w \<Longrightarrow> \<exists>rs w'. ticks n w = Some (rs, w') \<and> watch_ok w' \<and> length rs = n"
proof (induction n arbitrary: w)
  case (Suc n)
  obtain r w1 where "tick w = Some (r, w1)" "watch_ok w1" using tick_total[OF Suc.prems] by blast
  then show ?case using Suc.IH[of w1] by auto
qed simp

text \<open>Once a tick says so, every later one does.\<close>

lemma ticks_spent:
  assumes "bg_spent b"
  shows "ticks n (1, b) = Some (replicate n True, 1, b)"
  using assms by (induction n) (simp_all add: tick_def watch_check_def budget_check_def)

lemma check_over: "bg_spent b \<or> bg_over b (bg_reads b) \<Longrightarrow> \<exists>b'. budget_check b = (True, b') \<and> bg_spent b'"
  by (cases "bg_spent b") (simp_all add: budget_check_def)

lemma ticks_until:
  assumes "1 \<le> l" "l \<le> n" "bg_spent b \<or> bg_over b (bg_reads b)"
  shows "\<exists>rs b'. ticks n (l, b) = Some (replicate (l - 1) False @ rs, 1, b') \<and> set rs = {True} \<and> bg_spent b'"
  using assms
proof (induction l arbitrary: n)
  case (Suc l)
  then obtain m where n: "n = Suc m" by (cases n) auto
  show ?case
  proof (cases "l = 0")
    case True
    obtain b' where b': "budget_check b = (True, b')" "bg_spent b'" using check_over[OF Suc.prems(3)] by blast
    then show ?thesis using ticks_spent[OF b'(2), of m] True n
      by (auto simp: tick_def watch_check_def intro!: exI[of _ "replicate (Suc m) True"])
  next
    case False
    then show ?thesis using Suc.IH[of m] Suc.prems n by (cases l) (auto simp: tick_def)
  qed
qed simp

text \<open>
  C31. A watch notices a spent budget within 256 items whatever the clock: if the cancel flag is set or the deadline
  passed from now on, the answers of 256 ticks are a run of no, shorter than 256, then yes to the last, and every
  tick after them says yes.
\<close>

theorem watch_notices:
  assumes "watch_ok (left, b)" "bg_spent b \<or> bg_over b (bg_reads b)"
  shows "\<exists>k rs b'. ticks (ITEMS_PER_CHECK + n) (left, b) = Some (replicate k False @ rs, 1, b') \<and> k < ITEMS_PER_CHECK \<and>
    set rs = {True} \<and> bg_spent b'"
proof -
  have l: "1 \<le> left" "left \<le> ITEMS_PER_CHECK + n" using assms(1) by (auto simp: watch_ok_def)
  obtain rs b' where t: "ticks (ITEMS_PER_CHECK + n) (left, b) = Some (replicate (left - 1) False @ rs, 1, b')" "set rs = {True}" "bg_spent b'"
    using ticks_until[OF l assms(2)] by blast
  moreover have "left - 1 < ITEMS_PER_CHECK" using assms(1) by (auto simp: watch_ok_def)
  ultimately show ?thesis by blast
qed

theorem watch_notices_witness: "\<exists>k rs b'. ticks (ITEMS_PER_CHECK + 3) (watch_new, budget_until (\<lambda>_. True)) =
    Some (replicate k False @ rs, 1, b') \<and> k < ITEMS_PER_CHECK \<and> set rs = {True}"
proof -
  have "watch_ok (watch_new, budget_until (\<lambda>_. True))" by (simp add: watch_ok_def watch_new_def ITEMS_PER_CHECK_def)
  then show ?thesis using watch_notices[of watch_new "budget_until (\<lambda>_. True)" 3] by (simp only: budget_until_def budget.simps) blast
qed

end
