(* ===== verification/Glob.thy ===== *)
theory Glob
  imports Fold Budget
begin

unbundle bit_operations_syntax

text \<open>
  Wildcard patterns (\<open>query/parse.rs\<close>): compilation, the iterative match with its budget, and
  the literals a prefilter may scan for. The match is proved equal to the usual meaning of \<open>*\<close>
  and \<open>?\<close> unless its budget is spent.
\<close>

section \<open>Patterns\<close>

datatype glob_tok = Lit u32 | AnyOne | AnyRun

record wildcard =
  wc_tokens :: "glob_tok list"
  wc_min_len :: nat
  wc_any_run :: bool
  wc_check_mask :: nat

definition GLOB_STEPS_PER_CHECK :: nat where "GLOB_STEPS_PER_CHECK = 2 ^ 16"
definition GLOB_COSTLY_STEPS :: nat where "GLOB_COSTLY_STEPS = 2 ^ 12"

fun push_tok :: "glob_tok list \<Rightarrow> u32 \<Rightarrow> glob_tok list" where
  "push_tok tokens cp =
    (if cp = 0x2A then (if tokens \<noteq> [] \<and> last tokens = AnyRun then tokens else tokens @ [AnyRun])
     else if cp = 0x3F then tokens @ [AnyOne]
     else tokens @ [Lit cp])"

definition wildcard_compile :: "u8 list \<Rightarrow> wildcard" where
  "wildcard_compile pattern =
    (let tokens = foldl push_tok [] (code_points pattern);
         runs = length (filter (\<lambda>t. t = AnyRun) tokens)
     in \<lparr>wc_tokens = tokens, wc_min_len = length tokens - runs, wc_any_run = 0 < runs,
         wc_check_mask = next_power_of_two (GLOB_STEPS_PER_CHECK div (length tokens + 1)) - 1\<rparr>)"

section \<open>The match\<close>

text \<open>The trailing stars, once the text is used up.\<close>

fun skip_runs :: "glob_tok list \<Rightarrow> nat \<Rightarrow> nat \<Rightarrow> nat" where
  "skip_runs pat pi 0 = pi"
| "skip_runs pat pi (Suc n) = (if pi < length pat \<and> pat ! pi = AnyRun then skip_runs pat (pi + 1) n else pi)"

partial_function (option) glob_loop ::
  "nat \<Rightarrow> glob_tok list \<Rightarrow> u32 list \<Rightarrow> nat \<Rightarrow> nat \<Rightarrow> (nat \<times> nat) option \<Rightarrow> budget \<Rightarrow> (bool \<times> budget) option" where
  "glob_loop cm pat text ti pi star b =
    (if ti < length text then
       (let tok = (if pi < length pat then Some (pat ! pi) else None) in
        if tok = Some (Lit (text ! ti)) \<or> tok = Some AnyOne then glob_loop cm pat text (ti + 1) (pi + 1) star b
        else if tok = Some AnyRun then
          (if pi + 1 = length pat then Some (True, b)
           else glob_loop cm pat text ti (pi + 1) (Some (pi + 1, ti)) b)
        else (case star of
            Some (sp, st) \<Rightarrow>
              (let next = st + 1;
                   (stop, b) = (if next AND cm = 0 then budget_check b else (False, b))
               in if stop then Some (False, b)
                  else glob_loop cm pat text next sp (Some (sp, next)) b)
          | None \<Rightarrow> Some (False, b)))
     else Some (skip_runs pat pi (length pat - pi) = length pat, b))"

definition glob_match :: "wildcard \<Rightarrow> u32 list \<Rightarrow> budget \<Rightarrow> (bool \<times> budget) option" where
  "glob_match w text b = glob_loop (wc_check_mask w) (wc_tokens w) text 0 0 None b"

definition matches_decoded :: "wildcard \<Rightarrow> u32 list \<Rightarrow> budget \<Rightarrow> (bool \<times> budget) option" where
  "matches_decoded w text b =
    (let fits = (if wc_any_run w then wc_min_len w \<le> length text else length text = wc_min_len w) in
     if \<not> fits then Some (False, b)
     else
       (let costly = GLOB_COSTLY_STEPS \<le> (length text - wc_min_len w) * length (wc_tokens w);
            (stop, b) = (if costly then budget_check b else (False, b))
        in if stop then Some (False, b) else glob_match w text b))"

definition wildcard_matches :: "wildcard \<Rightarrow> u8 list \<Rightarrow> bool option" where
  "wildcard_matches w name = map_option fst (matches_decoded w (code_points name) unlimited)"

section \<open>What a pattern means\<close>

fun globs :: "glob_tok list \<Rightarrow> u32 list \<Rightarrow> bool" where
  "globs [] t \<longleftrightarrow> t = []"
| "globs (Lit c # p) t \<longleftrightarrow> (case t of [] \<Rightarrow> False | x # t' \<Rightarrow> x = c \<and> globs p t')"
| "globs (AnyOne # p) t \<longleftrightarrow> (case t of [] \<Rightarrow> False | _ # t' \<Rightarrow> globs p t')"
| "globs (AnyRun # p) [] \<longleftrightarrow> globs p []"
| "globs (AnyRun # p) (x # t) \<longleftrightarrow> globs p (x # t) \<or> globs (AnyRun # p) t"

lemma globs_run: "globs (AnyRun # p) t \<longleftrightarrow> (\<exists>k \<le> length t. globs p (drop k t))"
proof (induction t)
  case (Cons x t)
  have "(\<exists>k \<le> length (x # t). globs p (drop k (x # t))) \<longleftrightarrow> globs p (x # t) \<or> (\<exists>k \<le> length t. globs p (drop k t))"
    by (metis (no_types, lifting) One_nat_def Suc_le_mono drop0 drop_Suc_Cons length_Cons not0_implies_Suc zero_le)
  then show ?case using Cons by simp
qed simp

text \<open>A part of the pattern without stars matches a text of its own length.\<close>

lemma globs_fixed:
  assumes "AnyRun \<notin> set seg"
  shows "globs (seg @ p) t \<longleftrightarrow> length seg \<le> length t \<and> globs seg (take (length seg) t) \<and> globs p (drop (length seg) t)"
  using assms
proof (induction seg arbitrary: t)
  case (Cons k seg)
  then show ?case by (cases k; cases t) auto
qed simp

lemma globs_length:
  "globs p t \<Longrightarrow> length (filter (\<lambda>k. k \<noteq> AnyRun) p) \<le> length t \<and>
    (AnyRun \<notin> set p \<longrightarrow> length t = length p)"
  by (induction p t rule: globs.induct) (auto split: list.splits)

section \<open>The match is right\<close>

text \<open>What is still open: the attempt at hand, or a later start after the last star.\<close>

definition later :: "glob_tok list \<Rightarrow> u32 list \<Rightarrow> (nat \<times> nat) option \<Rightarrow> bool" where
  "later pat text star \<longleftrightarrow>
    (case star of None \<Rightarrow> False | Some (sp, st) \<Rightarrow> \<exists>k > st. k \<le> length text \<and> globs (drop sp pat) (drop k text))"

definition open_match :: "glob_tok list \<Rightarrow> u32 list \<Rightarrow> nat \<Rightarrow> nat \<Rightarrow> (nat \<times> nat) option \<Rightarrow> bool" where
  "open_match pat text ti pi star \<longleftrightarrow> globs (drop pi pat) (drop ti text) \<or> later pat text star"

definition glob_inv :: "glob_tok list \<Rightarrow> u32 list \<Rightarrow> nat \<Rightarrow> nat \<Rightarrow> (nat \<times> nat) option \<Rightarrow> bool" where
  "glob_inv pat text ti pi star \<longleftrightarrow> ti \<le> length text \<and> pi \<le> length pat \<and>
    (case star of None \<Rightarrow> True
     | Some (sp, st) \<Rightarrow> \<exists>seg. drop sp pat = seg @ drop pi pat \<and> AnyRun \<notin> set seg \<and> pi = sp + length seg \<and> ti = st + length seg)"

lemma skip_runs_spec:
  "pi + n = length pat \<Longrightarrow> skip_runs pat pi n = length pat \<longleftrightarrow> globs (drop pi pat) []"
proof (induction n arbitrary: pi)
  case (Suc n)
  then have d: "drop pi pat = pat ! pi # drop (pi + 1) pat" by (simp add: Cons_nth_drop_Suc)
  have "pi < length pat" "pi + 1 + n = length pat" using Suc.prems by simp_all
  then show ?case using Suc.IH[of "pi + 1"] d by (cases "pat ! pi") auto
qed simp

lemma later_end:
  assumes "glob_inv pat text (length text) pi star"
  shows "\<not> later pat text star"
proof (cases star)
  case (Some x)
  obtain sp st where x: "x = (sp, st)" by fastforce
  then obtain seg where "drop sp pat = seg @ drop pi pat" "AnyRun \<notin> set seg" "length text = st + length seg"
    using assms Some by (auto simp: glob_inv_def)
  then show ?thesis using Some x by (auto simp: later_def globs_fixed)
qed (simp add: later_def)

lemma later_run:
  assumes inv: "glob_inv pat text ti pi star" and pi: "pi < length pat" "pat ! pi = AnyRun" and old: "later pat text star"
  shows "globs (AnyRun # drop (pi + 1) pat) (drop ti text)"
proof -
  obtain sp st where star: "star = Some (sp, st)" using old by (auto simp: later_def split: option.splits)
  obtain seg where seg: "drop sp pat = seg @ drop pi pat" "AnyRun \<notin> set seg" "ti = st + length seg"
    using inv star by (auto simp: glob_inv_def)
  obtain k where k: "st < k" "k \<le> length text" "globs (drop sp pat) (drop k text)" using old star by (auto simp: later_def)
  have d: "drop pi pat = AnyRun # drop (pi + 1) pat" using pi by (metis Cons_nth_drop_Suc Suc_eq_plus1)
  have "length seg \<le> length text - k" "globs (AnyRun # drop (pi + 1) pat) (drop (length seg) (drop k text))"
    using k(3) unfolding seg(1) globs_fixed[OF seg(2)] d by simp_all
  then obtain j where j: "j \<le> length text - (length seg + k)" "globs (drop (pi + 1) pat) (drop j (drop (length seg + k) text))"
    unfolding globs_run by auto
  define i where "i = length seg + k + j - ti"
  have "drop j (drop (length seg + k) text) = drop i (drop ti text)" "i \<le> length (drop ti text)"
    using j(1) k(1,2) seg(3) \<open>length seg \<le> length text - k\<close> by (simp_all add: i_def add.commute)
  then show ?thesis unfolding globs_run using j(2) by auto
qed

lemma glob_inv_advance:
  assumes "glob_inv pat text ti pi star" "ti < length text" "pi < length pat" "pat ! pi \<noteq> AnyRun"
  shows "glob_inv pat text (ti + 1) (pi + 1) star"
proof (cases star)
  case (Some x)
  obtain sp st where x: "x = (sp, st)" by fastforce
  then obtain seg where seg: "drop sp pat = seg @ drop pi pat" "AnyRun \<notin> set seg" "pi = sp + length seg" "ti = st + length seg"
    using assms Some by (auto simp: glob_inv_def)
  have "drop sp pat = (seg @ [pat ! pi]) @ drop (pi + 1) pat" using seg(1) assms(3) by (simp add: Cons_nth_drop_Suc)
  moreover have "AnyRun \<notin> set (seg @ [pat ! pi])" "pi + 1 = sp + length (seg @ [pat ! pi])" "ti + 1 = st + length (seg @ [pat ! pi])"
    using seg assms(4) by auto
  ultimately show ?thesis using assms(2,3) Some x unfolding glob_inv_def by (simp only: option.case prod.case) force
qed (use assms in \<open>simp add: glob_inv_def\<close>)

lemma later_next:
  assumes "glob_inv pat text ti pi (Some (sp, st))" "ti < length text"
  shows "later pat text (Some (sp, st)) \<longleftrightarrow> open_match pat text (st + 1) sp (Some (sp, st + 1))"
proof -
  have "st + 1 \<le> length text" using assms by (auto simp: glob_inv_def)
  then have "(\<exists>k > st. k \<le> length text \<and> P k) \<longleftrightarrow> P (st + 1) \<or> (\<exists>k > st + 1. k \<le> length text \<and> P k)" for P
    by (metis Suc_eq_plus1 Suc_lessI less_Suc_eq not_less_eq)
  from this[of "\<lambda>k. globs (drop sp pat) (drop k text)"] show ?thesis by (simp add: later_def open_match_def)
qed

definition glob_rel :: "glob_tok list \<Rightarrow> u32 list \<Rightarrow> ((nat \<times> nat \<times> (nat \<times> nat) option) \<times> nat \<times> nat \<times> (nat \<times> nat) option) set" where
  "glob_rel pat text = measures
    [\<lambda>(ti, pi, star). case star of None \<Rightarrow> length text + 1 | Some (_, st) \<Rightarrow> length text - st,
     \<lambda>(ti, pi, star). length text - ti, \<lambda>(ti, pi, star). length pat - pi]"

lemma glob_rel_wf: "wf (glob_rel pat text)"
  by (simp add: glob_rel_def)

lemma glob_rel_steps:
  "ti < length text \<Longrightarrow> ((ti + 1, pi + 1, star), (ti, pi, star)) \<in> glob_rel pat text"
  "glob_inv pat text ti pi star \<Longrightarrow> ti < length text \<Longrightarrow> pi < length pat \<Longrightarrow>
    ((ti, pi + 1, Some (pi + 1, ti)), (ti, pi, star)) \<in> glob_rel pat text"
  "glob_inv pat text ti pi (Some (sp, st)) \<Longrightarrow> ti < length text \<Longrightarrow>
    ((st + 1, sp, Some (sp, st + 1)), (ti, pi, Some (sp, st))) \<in> glob_rel pat text"
  by (auto simp: glob_rel_def glob_inv_def split: option.splits)

lemma open_match_run:
  assumes inv: "glob_inv pat text ti pi star" and run: "pi < length pat" "pat ! pi = AnyRun"
  shows "open_match pat text ti pi star = open_match pat text ti (pi + 1) (Some (pi + 1, ti))"
    "pi + 1 = length pat \<Longrightarrow> open_match pat text ti pi star"
proof -
  have ti: "ti \<le> length text" using inv by (simp add: glob_inv_def)
  have dp: "drop pi pat = AnyRun # drop (pi + 1) pat" using run by (metis Cons_nth_drop_Suc Suc_eq_plus1)
  have G: "open_match pat text ti pi star \<longleftrightarrow> globs (AnyRun # drop (pi + 1) pat) (drop ti text)"
    using later_run[OF inv run] unfolding open_match_def dp by blast
  show "open_match pat text ti pi star" if "pi + 1 = length pat"
    unfolding G globs_run using that by (auto intro!: exI[of _ "length text - ti"])
  have "(\<exists>k \<le> length (drop ti text). P (k + ti)) \<longleftrightarrow> P ti \<or> (\<exists>k > ti. k \<le> length text \<and> P k)" for P
  proof
    assume "\<exists>k \<le> length (drop ti text). P (k + ti)"
    then obtain k where "k \<le> length text - ti" "P (k + ti)" by auto
    then show "P ti \<or> (\<exists>k > ti. k \<le> length text \<and> P k)" using ti by (cases k) auto
  next
    assume "P ti \<or> (\<exists>k > ti. k \<le> length text \<and> P k)"
    then obtain k where "ti \<le> k" "k \<le> length text" "P k" using ti by (meson less_imp_le order_refl)
    then show "\<exists>k \<le> length (drop ti text). P (k + ti)" by (intro exI[of _ "k - ti"]) simp
  qed
  from this[of "\<lambda>k. globs (drop (pi + 1) pat) (drop k text)"]
  show "open_match pat text ti pi star = open_match pat text ti (pi + 1) (Some (pi + 1, ti))"
    unfolding G globs_run by (simp add: open_match_def later_def)
qed

lemma globs_mismatch:
  assumes "ti < length text" "\<not> (pi < length pat \<and> (pat ! pi = Lit (text ! ti) \<or> pat ! pi = AnyOne \<or> pat ! pi = AnyRun))"
  shows "\<not> globs (drop pi pat) (drop ti text)"
proof (cases "pi < length pat")
  case True
  have dt: "drop ti text = text ! ti # drop (ti + 1) text" using assms(1) by (simp add: Cons_nth_drop_Suc)
  obtain c where "pat ! pi = Lit c" "c \<noteq> text ! ti" using assms(2) True by (cases "pat ! pi") auto
  then have "drop pi pat = Lit c # drop (pi + 1) pat" using True by (metis Cons_nth_drop_Suc Suc_eq_plus1)
  then show ?thesis using \<open>c \<noteq> text ! ti\<close> dt by auto
qed (use assms in simp)

lemma open_match_step:
  assumes "ti < length text" "pi < length pat" "pat ! pi = Lit (text ! ti) \<or> pat ! pi = AnyOne"
  shows "open_match pat text ti pi star = open_match pat text (ti + 1) (pi + 1) star"
proof -
  have "drop ti text = text ! ti # drop (ti + 1) text" "drop pi pat = pat ! pi # drop (pi + 1) pat"
    using assms(1,2) by (simp_all add: Cons_nth_drop_Suc)
  then show ?thesis using assms(3) unfolding open_match_def by auto
qed

lemma glob_loop_spec:
  assumes "glob_inv pat text ti pi star"
  shows "\<exists>r b'. glob_loop cm pat text ti pi star b = Some (r, b') \<and> (r \<longrightarrow> open_match pat text ti pi star) \<and>
    (\<not> bg_spent b' \<longrightarrow> r = open_match pat text ti pi star)"
  using assms
proof (induction "(ti, pi, star)" arbitrary: ti pi star b rule: wf_induct_rule[OF glob_rel_wf[of pat "text"]])
  case 1
  note IH = 1(1) and inv = 1(2)
  have ti: "ti \<le> length text" and pi: "pi \<le> length pat" using inv by (simp_all add: glob_inv_def)
  show ?case
  proof (cases "ti < length text")
    case False
    then have "ti = length text" using ti by simp
    then show ?thesis using skip_runs_spec[of pi "length pat - pi" pat] pi later_end[of pat "text" pi star] inv
      by (subst glob_loop.simps) (simp add: open_match_def)
  next
    case more: True
    consider (step) "pi < length pat" "pat ! pi = Lit (text ! ti) \<or> pat ! pi = AnyOne" | (run) "pi < length pat" "pat ! pi = AnyRun"
      | (fail) "\<not> (pi < length pat \<and> (pat ! pi = Lit (text ! ti) \<or> pat ! pi = AnyOne \<or> pat ! pi = AnyRun))" by blast
    then show ?thesis
    proof cases
      case step
      have "glob_loop cm pat text ti pi star b = glob_loop cm pat text (ti + 1) (pi + 1) star b"
        using more step by (subst glob_loop.simps) auto
      then show ?thesis
        using IH[OF glob_rel_steps(1)[OF more] glob_inv_advance[OF inv more step(1)], of b] step(2) open_match_step[OF more step] by auto
    next
      case run
      have next_inv: "glob_inv pat text ti (pi + 1) (Some (pi + 1, ti))" using run ti by (simp add: glob_inv_def)
      show ?thesis
      proof (cases "pi + 1 = length pat")
        case True
        then have "glob_loop cm pat text ti pi star b = Some (True, b)" using more run by (subst glob_loop.simps) simp
        then show ?thesis using open_match_run(2)[OF inv run True] by (intro exI[of _ True] exI[of _ b]) simp
      next
        case False
        have "glob_loop cm pat text ti pi star b = glob_loop cm pat text ti (pi + 1) (Some (pi + 1, ti)) b"
          using more run False by (subst glob_loop.simps) auto
        then show ?thesis using IH[OF glob_rel_steps(2)[OF inv more run(1)] next_inv, of b] open_match_run(1)[OF inv run] by simp
      qed
    next
      case fail
      note now = globs_mismatch[OF more fail]
      show ?thesis
      proof (cases star)
        case None
        then show ?thesis using now fail more by (subst glob_loop.simps) (auto simp: open_match_def later_def)
      next
        case (Some x)
        obtain sp st where x: "x = (sp, st)" by fastforce
        have G: "open_match pat text ti pi star = open_match pat text (st + 1) sp (Some (sp, st + 1))"
          using now later_next[of pat "text" ti pi sp st] inv more Some x by (simp add: open_match_def)
        have inv': "glob_inv pat text (st + 1) sp (Some (sp, st + 1))" using inv Some x more by (auto simp: glob_inv_def)
        obtain stop b1 where chk: "(if (st + 1) AND cm = 0 then budget_check b else (False, b)) = (stop, b1)" by fastforce
        have eq: "glob_loop cm pat text ti pi star b =
          (if stop then Some (False, b1) else glob_loop cm pat text (st + 1) sp (Some (sp, st + 1)) b1)"
          using chk fail more Some x by (subst glob_loop.simps) (auto simp: Let_def)
        show ?thesis
        proof (cases stop)
          case True
          then have "bg_spent b1" using chk budget_check_spent[of b] by (auto split: if_splits)
          then show ?thesis using True eq by (intro exI[of _ False] exI[of _ b1]) simp
        next
          case False
          then show ?thesis using IH[OF _ inv', of b1] glob_rel_steps(3)[of pat "text" ti pi sp st] inv more Some x eq unfolding G by simp
        qed
      qed
    qed
  qed
qed

lemma glob_match_spec:
  "\<exists>r b'. glob_match w text b = Some (r, b') \<and> (r \<longrightarrow> globs (wc_tokens w) text) \<and> (\<not> bg_spent b' \<longrightarrow> r = globs (wc_tokens w) text)"
  using glob_loop_spec[of "wc_tokens w" "text" 0 0 None "wc_check_mask w" b]
  by (simp add: glob_match_def glob_inv_def open_match_def later_def)

section \<open>Compiled patterns\<close>

definition wildcard_ok :: "wildcard \<Rightarrow> bool" where
  "wildcard_ok w \<longleftrightarrow> wc_min_len w = length (filter (\<lambda>k. k \<noteq> AnyRun) (wc_tokens w)) \<and> (wc_any_run w \<longleftrightarrow> AnyRun \<in> set (wc_tokens w))"

lemma length_filter_runs: "length p - length (filter (\<lambda>t. t = AnyRun) p) = length (filter (\<lambda>k. k \<noteq> AnyRun) p)"
  using sum_length_filter_compl[of "\<lambda>t. t = AnyRun" p] by simp

lemma filter_no_runs: "AnyRun \<notin> set p \<Longrightarrow> filter (\<lambda>k. k \<noteq> AnyRun) p = p"
  by (induction p) auto

lemma compile_ok: "wildcard_ok (wildcard_compile pattern)"
  by (auto simp: wildcard_ok_def wildcard_compile_def Let_def length_filter_runs filter_empty_conv)

text \<open>The meaning of a pattern as written: each \<open>*\<close> a run, each \<open>?\<close> one code point.\<close>

definition glob_tok_of :: "u32 \<Rightarrow> glob_tok" where
  "glob_tok_of cp = (if cp = 0x2A then AnyRun else if cp = 0x3F then AnyOne else Lit cp)"

lemma globs_append:
  "globs (p @ q) t \<longleftrightarrow> (\<exists>k \<le> length t. globs p (take k t) \<and> globs q (drop k t))"
proof (induction p arbitrary: t)
  case (Cons a p)
  note IH = Cons.IH
  show ?case
  proof (cases "a = AnyRun")
    case True
    have run: "globs (AnyRun # r) t \<longleftrightarrow> (\<exists>i \<le> length t. globs r (drop i t))" for r t by (rule globs_run)
    have "globs ((a # p) @ q) t \<longleftrightarrow> (\<exists>i \<le> length t. \<exists>k \<le> length t - i. globs p (take k (drop i t)) \<and> globs q (drop (i + k) t))"
      using True Cons.IH by (simp add: run add.commute)
    also have "\<dots> \<longleftrightarrow> (\<exists>k \<le> length t. \<exists>i \<le> k. globs p (drop i (take k t)) \<and> globs q (drop k t))"
    proof
      assume "\<exists>i \<le> length t. \<exists>k \<le> length t - i. globs p (take k (drop i t)) \<and> globs q (drop (i + k) t)"
      then obtain i k where "i \<le> length t" "k \<le> length t - i" "globs p (take k (drop i t))" "globs q (drop (i + k) t)" by blast
      then show "\<exists>k \<le> length t. \<exists>i \<le> k. globs p (drop i (take k t)) \<and> globs q (drop k t)"
        by (intro exI[of _ "i + k"] conjI exI[of _ i]) (simp_all add: drop_take)
    next
      assume "\<exists>k \<le> length t. \<exists>i \<le> k. globs p (drop i (take k t)) \<and> globs q (drop k t)"
      then obtain i k where "k \<le> length t" "i \<le> k" "globs p (drop i (take k t))" "globs q (drop k t)" by blast
      then show "\<exists>i \<le> length t. \<exists>k \<le> length t - i. globs p (take k (drop i t)) \<and> globs q (drop (i + k) t)"
        by (intro exI[of _ i] conjI exI[of _ "k - i"]) (simp_all add: drop_take)
    qed
    also have "\<dots> \<longleftrightarrow> (\<exists>k \<le> length t. globs (a # p) (take k t) \<and> globs q (drop k t))"
      by (intro ex_cong1 conj_cong refl) (auto simp: True run)
    finally show ?thesis .
  next
    case False
    show ?thesis
    proof (cases t)
      case Nil
      then show ?thesis using False Cons by (cases a) auto
    next
      case (Cons x t')
      have ex: "(\<exists>k \<le> length (x # t'). P k) \<longleftrightarrow> P 0 \<or> (\<exists>k \<le> length t'. P (Suc k))" for P
        by (metis Suc_le_mono length_Cons not0_implies_Suc zero_le)
      show ?thesis unfolding Cons ex using False IH by (cases a) auto
    qed
  qed
next
  case Nil
  show ?case by (auto intro: exI[of _ 0])
qed

lemma globs_run_run: "globs (AnyRun # AnyRun # p) t \<longleftrightarrow> globs (AnyRun # p) t"
proof
  assume "globs (AnyRun # AnyRun # p) t"
  then obtain i j where "i \<le> length t" "j \<le> length t - i" "globs p (drop (i + j) t)" unfolding globs_run by (auto simp: add.commute)
  then show "globs (AnyRun # p) t" unfolding globs_run by (intro exI[of _ "i + j"]) simp
next
  assume "globs (AnyRun # p) t"
  then show "globs (AnyRun # AnyRun # p) t" unfolding globs_run[of "AnyRun # p"] by (intro exI[of _ 0]) simp
qed

lemma globs_push: "globs (push_tok tokens cp @ q) t \<longleftrightarrow> globs (tokens @ glob_tok_of cp # q) t"
proof (cases "cp = 0x2A \<and> tokens \<noteq> [] \<and> last tokens = AnyRun")
  case True
  then obtain u where u: "tokens = u @ [AnyRun]" by (metis append_butlast_last_id)
  show ?thesis using True u globs_run_run by (simp add: glob_tok_of_def) (simp add: globs_append[of u])
next
  case False
  then show ?thesis by (auto simp: glob_tok_of_def)
qed

lemma globs_compile: "globs (wc_tokens (wildcard_compile pattern)) t \<longleftrightarrow> globs (map glob_tok_of (code_points pattern)) t"
proof -
  have "globs (foldl push_tok ts cps @ q) t \<longleftrightarrow> globs (ts @ map glob_tok_of cps @ q) t" for ts cps q
  proof (induction cps arbitrary: ts)
    case (Cons c cps)
    show ?case using Cons.IH[of "push_tok ts c"] globs_push[of ts c "map glob_tok_of cps @ q" t] by (simp del: push_tok.simps)
  qed simp
  from this[of "[]" "code_points pattern" "[]"] show ?thesis by (simp add: wildcard_compile_def Let_def)
qed

lemma matches_decoded_globs:
  "\<exists>r b'. matches_decoded (wildcard_compile pattern) text b = Some (r, b') \<and>
    (r \<longrightarrow> globs (map glob_tok_of (code_points pattern)) text) \<and>
    (\<not> bg_spent b' \<longrightarrow> r = globs (map glob_tok_of (code_points pattern)) text)"
proof -
  let ?w = "wildcard_compile pattern"
  let ?fits = "if wc_any_run ?w then wc_min_len ?w \<le> length text else length text = wc_min_len ?w"
  have len: "?fits" if "globs (wc_tokens ?w) text"
    using globs_length[OF that] compile_ok[of pattern] filter_no_runs[of "wc_tokens ?w"] by (auto simp: wildcard_ok_def)
  obtain stop b1 where chk: "(if GLOB_COSTLY_STEPS \<le> (length text - wc_min_len ?w) * length (wc_tokens ?w)
    then budget_check b else (False, b)) = (stop, b1)" by fastforce
  have eq: "matches_decoded ?w text b = (if \<not> ?fits then Some (False, b) else if stop then Some (False, b1) else glob_match ?w text b1)"
    unfolding matches_decoded_def Let_def chk by simp
  have spent: "stop \<Longrightarrow> bg_spent b1" using chk budget_check_spent[of b] by (auto split: if_splits)
  show ?thesis
  proof (cases "?fits \<and> \<not> stop")
    case True
    then show ?thesis using glob_match_spec[of ?w "text" b1] unfolding eq globs_compile by simp
  next
    case False
    then have "matches_decoded ?w text b = Some (False, if ?fits then b1 else b)" unfolding eq by simp
    moreover have "\<not> globs (wc_tokens ?w) text \<or> bg_spent (if ?fits then b1 else b)" using False len spent by auto
    ultimately show ?thesis
      unfolding globs_compile[symmetric] by (intro exI[of _ False] exI[of _ "if ?fits then b1 else b"]) blast
  qed
qed

text \<open>
  C29. A wildcard match always ends, whatever the pattern and the text. Unless it spent its budget it says exactly
  whether the whole text matches the pattern as written, \<open>*\<close> standing for any run of code points and \<open>?\<close> for
  one; with its budget spent it never claims a match there is not.
\<close>

theorem matches_decoded_correct:
  "\<exists>r b'. matches_decoded (wildcard_compile pattern) text b = Some (r, b') \<and>
    (r \<longrightarrow> globs (map glob_tok_of (code_points pattern)) text) \<and>
    (\<not> bg_spent b' \<longrightarrow> r = globs (map glob_tok_of (code_points pattern)) text)"
  by (rule matches_decoded_globs)

theorem matches_decoded_correct_witness:
  "\<exists>r b'. matches_decoded (wildcard_compile [0x2A, 0x2E, 0x74]) [0x61, 0x2E, 0x74] (budget_until (\<lambda>_. False)) = Some (r, b')"
  using matches_decoded_correct by blast

section \<open>Literals a match must contain\<close>

definition encode_wtf8 :: "u32 \<Rightarrow> u8 list \<Rightarrow> u8 list" where
  "encode_wtf8 cp out =
    (if cp < 0x80 then out @ [ucast cp]
     else if cp < 0x800 then out @ [0xC0 OR ucast (drop_bit 6 cp), 0x80 OR ucast (cp AND 0x3F)]
     else if cp < 0x10000 then
       out @ [0xE0 OR ucast (drop_bit 12 cp), 0x80 OR ucast (drop_bit 6 cp AND 0x3F), 0x80 OR ucast (cp AND 0x3F)]
     else
       out @ [0xF0 OR ucast (drop_bit 18 cp), 0x80 OR ucast (drop_bit 12 cp AND 0x3F),
              0x80 OR ucast (drop_bit 6 cp AND 0x3F), 0x80 OR ucast (cp AND 0x3F)])"

fun longest_loop :: "glob_tok list \<Rightarrow> u8 list \<Rightarrow> u8 list \<Rightarrow> u8 list" where
  "longest_loop [] best run = (if length best < length run then run else best)"
| "longest_loop (Lit cp # ts) best run = longest_loop ts best (encode_wtf8 cp run)"
| "longest_loop (_ # ts) best run = longest_loop ts (if length best < length run then run else best) []"

definition longest_literal :: "wildcard \<Rightarrow> u8 list option" where
  "longest_literal w = (let best = longest_loop (wc_tokens w) [] [] in if best \<noteq> [] then Some best else None)"

fun separator_free_loop :: "glob_tok list \<Rightarrow> u8 list list \<Rightarrow> u8 list \<Rightarrow> u8 list list" where
  "separator_free_loop [] runs run = (if run \<noteq> [] then runs @ [run] else runs)"
| "separator_free_loop (t # ts) runs run =
    (case t of
       Lit cp \<Rightarrow>
         if cp \<noteq> 0x5C then separator_free_loop ts runs (encode_wtf8 cp run)
         else if run \<noteq> [] then separator_free_loop ts (runs @ [run]) []
         else separator_free_loop ts runs run
     | _ \<Rightarrow> if run \<noteq> [] then separator_free_loop ts (runs @ [run]) [] else separator_free_loop ts runs run)"

definition separator_free_literals :: "wildcard \<Rightarrow> u8 list list" where
  "separator_free_literals w = separator_free_loop (wc_tokens w) [] []"

fun leading_loop :: "glob_tok list \<Rightarrow> u8 list \<Rightarrow> u8 list" where
  "leading_loop (Lit cp # ts) lit = leading_loop ts (encode_wtf8 cp lit)"
| "leading_loop _ lit = lit"

definition leading_literal :: "wildcard \<Rightarrow> u8 list" where
  "leading_literal w = leading_loop (wc_tokens w) []"

text \<open>\<open>rposition\<close> of the last token that is no literal, plus one.\<close>

fun trailing_start :: "glob_tok list \<Rightarrow> nat \<Rightarrow> nat \<Rightarrow> nat" where
  "trailing_start [] i start = start"
| "trailing_start (Lit _ # ts) i start = trailing_start ts (i + 1) start"
| "trailing_start (_ # ts) i start = trailing_start ts (i + 1) (i + 1)"

definition trailing_literal :: "wildcard \<Rightarrow> u8 list" where
  "trailing_literal w = leading_loop (drop (trailing_start (wc_tokens w) 0 0) (wc_tokens w)) []"

lemma encode_wtf8_eq: "encode_wtf8 = encode_code_point"
  by (intro ext) (simp add: encode_wtf8_def encode_code_point_def)

lemma encode_all_append: "encode_all (a @ b) = encode_all a @ encode_all b"
  by (simp add: encode_all_def)

lemma encode_all_snoc: "encode_wtf8 c (encode_all cs) = encode_all (cs @ [c])"
  by (simp add: encode_wtf8_eq encode_all_append) (rule encode_append)

lemma globs_lits: "globs (map Lit cs) t \<longleftrightarrow> t = cs"
  by (induction cs arbitrary: t) (auto split: list.splits)

text \<open>A run of literals of the pattern stands in every text it matches.\<close>

lemma globs_infix:
  assumes "globs (u @ map Lit cs @ v) t"
  obtains a b where "t = a @ cs @ b" "u = [] \<Longrightarrow> a = []" "v = [] \<Longrightarrow> b = []"
proof -
  obtain k where k: "globs u (take k t)" "globs (map Lit cs @ v) (drop k t)" using assms globs_append by blast
  then obtain j where j: "take j (drop k t) = cs" "globs v (drop j (drop k t))" using globs_append globs_lits by metis
  have "t = take k t @ cs @ drop j (drop k t)" using j(1) by (metis append_take_drop_id)
  then show thesis using that k(1) j(2) by (metis globs.simps(1))
qed

definition is_run :: "glob_tok list \<Rightarrow> u8 list \<Rightarrow> bool" where
  "is_run p l \<longleftrightarrow> (\<exists>u ds v. p = u @ map Lit ds @ v \<and> l = encode_all ds)"

lemma is_run_nil: "is_run p []"
  unfolding is_run_def by (rule exI[of _ p], rule exI[of _ "[]"]) simp

lemma is_run_at: "is_run (u @ map Lit ds @ v) (encode_all ds)"
  by (auto simp: is_run_def)

lemma longest_loop_run:
  "is_run p best \<Longrightarrow> p = u @ map Lit cs @ ts \<Longrightarrow> is_run p (longest_loop ts best (encode_all cs))"
proof (induction ts arbitrary: best u cs)
  case Nil
  then show ?case using is_run_at[of u cs "[]"] by simp
next
  case (Cons t ts)
  have best: "is_run p (if length best < length (encode_all cs) then encode_all cs else best)"
    using Cons.prems is_run_at[of u cs "t # ts"] by simp
  show ?case
  proof (cases t)
    case (Lit c)
    then show ?thesis using Cons.IH[OF Cons.prems(1), of u "cs @ [c]"] Cons.prems(2) by (simp add: encode_all_snoc)
  next
    case AnyOne
    then show ?thesis using Cons.IH[OF best, of "u @ map Lit cs @ [t]" "[]"] Cons.prems(2) by simp
  next
    case AnyRun
    then show ?thesis using Cons.IH[OF best, of "u @ map Lit cs @ [t]" "[]"] Cons.prems(2) by simp
  qed
qed

lemma separator_free_run:
  "\<forall>l \<in> set runs. is_run p l \<Longrightarrow> p = u @ map Lit cs @ ts \<Longrightarrow> \<forall>l \<in> set (separator_free_loop ts runs (encode_all cs)). is_run p l"
proof (induction ts arbitrary: runs u cs)
  case Nil
  then show ?case using is_run_at[of u cs "[]"] by simp
next
  case (Cons t ts)
  have runs: "\<forall>l \<in> set (runs @ [encode_all cs]). is_run p l" using Cons.prems is_run_at[of u cs "t # ts"] by simp
  have skip: "p = (u @ map Lit cs @ [t]) @ map Lit [] @ ts" using Cons.prems(2) by simp
  show ?case
  proof (cases "\<exists>c. t = Lit c \<and> c \<noteq> 0x5C")
    case True
    then obtain c where "t = Lit c" "c \<noteq> 0x5C" by blast
    then show ?thesis using Cons.IH[OF Cons.prems(1), of u "cs @ [c]"] Cons.prems(2) by (simp add: encode_all_snoc)
  next
    case False
    then have "separator_free_loop (t # ts) runs (encode_all cs) =
      (if encode_all cs \<noteq> [] then separator_free_loop ts (runs @ [encode_all cs]) [] else separator_free_loop ts runs [])"
      by (cases t) auto
    then show ?thesis using Cons.IH[OF runs skip] Cons.IH[OF Cons.prems(1) skip] by (cases "encode_all cs = []") simp_all
  qed
qed

lemma leading_loop_run: "\<exists>ds v. ts = map Lit ds @ v \<and> leading_loop ts (encode_all cs) = encode_all (cs @ ds) \<and> (v = [] \<or> \<not> (\<exists>c. hd v = Lit c))"
proof (induction ts arbitrary: cs)
  case Nil
  show ?case by (intro exI[of _ "[]"]) simp
next
  case (Cons t ts)
  show ?case
  proof (cases "\<exists>c. t = Lit c")
    case True
    then obtain c where c: "t = Lit c" by blast
    obtain ds v where "ts = map Lit ds @ v" "leading_loop ts (encode_all (cs @ [c])) = encode_all ((cs @ [c]) @ ds)" "v = [] \<or> \<not> (\<exists>c. hd v = Lit c)"
      using Cons.IH by blast
    then show ?thesis using c by (intro exI[of _ "c # ds"] exI[of _ v]) (simp add: encode_all_snoc)
  next
    case False
    then show ?thesis by (intro exI[of _ "[]"] exI[of _ "t # ts"]) (cases t; simp)
  qed
qed

lemma trailing_start_lits:
  assumes "i = length pre" "start \<le> i" "\<forall>t \<in> set (drop start pre). \<exists>c. t = Lit c"
  shows "trailing_start ts i start \<le> length (pre @ ts) \<and> (\<forall>t \<in> set (drop (trailing_start ts i start) (pre @ ts)). \<exists>c. t = Lit c)"
  using assms
proof (induction ts arbitrary: pre i start)
  case (Cons t ts)
  have i: "i + 1 = length (pre @ [t])" using Cons.prems(1) by simp
  show ?case
  proof (cases "\<exists>c. t = Lit c")
    case True
    then have "\<forall>t \<in> set (drop start (pre @ [t])). \<exists>c. t = Lit c" using Cons.prems by simp
    then show ?thesis using Cons.IH[OF i, of start] True Cons.prems(2) by auto
  next
    case False
    have "trailing_start (t # ts) i start = trailing_start ts (i + 1) (i + 1)" using False by (cases t) auto
    moreover have "\<forall>t \<in> set (drop (i + 1) (pre @ [t])). \<exists>c. t = Lit c" using i by simp
    ultimately show ?thesis using Cons.IH[OF i, of "i + 1"] by simp
  qed
qed simp

lemma literals_in_text:
  assumes "globs (wc_tokens w) text"
  shows "(\<forall>l. longest_literal w = Some l \<longrightarrow> (\<exists>a b. encode_all text = a @ l @ b)) \<and>
    (\<forall>l \<in> set (separator_free_literals w). \<exists>a b. encode_all text = a @ l @ b) \<and>
    (\<exists>b. encode_all text = leading_literal w @ b) \<and> (\<exists>a. encode_all text = a @ trailing_literal w)"
proof -
  have infix_run: "\<exists>a b. encode_all text = a @ l @ b" if run: "is_run (wc_tokens w) l" for l
  proof -
    obtain u ds v where "wc_tokens w = u @ map Lit ds @ v" "l = encode_all ds" using run by (auto simp: is_run_def)
    then show ?thesis using globs_infix[of u ds v "text"] assms by (metis encode_all_append)
  qed
  have "\<exists>b. encode_all text = leading_literal w @ b"
    using leading_loop_run[of "wc_tokens w" "[]"] globs_infix[of "[]" _ _ "text"] assms
    by (metis append_Nil encode_all_append encode_all_simps(1) leading_literal_def)
  moreover have "\<exists>a. encode_all text = a @ trailing_literal w"
  proof -
    let ?i = "trailing_start (wc_tokens w) 0 0"
    have lits: "\<forall>t \<in> set (drop ?i (wc_tokens w)). \<exists>c. t = Lit c" using trailing_start_lits[of 0 "[]" 0 "wc_tokens w"] by simp
    obtain ds v where d: "drop ?i (wc_tokens w) = map Lit ds @ v" "trailing_literal w = encode_all ds" "v = [] \<or> \<not> (\<exists>c. hd v = Lit c)"
      using leading_loop_run[of "drop ?i (wc_tokens w)" "[]"] unfolding trailing_literal_def encode_all_simps append_Nil by blast
    then have "v = []" using lits by (cases v) auto
    then have "wc_tokens w = take ?i (wc_tokens w) @ map Lit ds @ []" using d(1) by (metis append_Nil2 append_take_drop_id)
    then show ?thesis using globs_infix[of "take ?i (wc_tokens w)" ds "[]" "text"] assms d(2) by (metis append_Nil2 encode_all_append)
  qed
  moreover have "is_run (wc_tokens w) (longest_loop (wc_tokens w) [] [])"
    using longest_loop_run[OF is_run_nil, of "wc_tokens w" "[]" "[]"] by simp
  moreover have "\<forall>l \<in> set (separator_free_literals w). is_run (wc_tokens w) l"
    using separator_free_run[of "[]" "wc_tokens w" "[]" "[]"] by (simp add: separator_free_literals_def)
  ultimately show ?thesis using infix_run by (auto simp: longest_literal_def Let_def split: if_splits)
qed

end
