(* ===== verification/Ustr.thy ===== *)
theory Ustr
  imports Wtf8
begin

text \<open>
  The operations on \<open>str\<close> the query language uses, on a string as its list of code points:
  \<open>trim\<close>, \<open>strip_prefix\<close>, \<open>split_once\<close>, \<open>split\<close>, ASCII case mapping and integer parsing, as the
  Rust standard library defines them. \<open>as_bytes\<close> is \<open>encode_all\<close>.
\<close>

type_synonym ustr = "u32 list"

text \<open>An ASCII literal.\<close>

definition ascii :: "string \<Rightarrow> ustr" where
  "ascii s = map (\<lambda>c. word_of_nat (of_char c)) s"

definition is_whitespace :: "u32 \<Rightarrow> bool" where
  "is_whitespace c \<longleftrightarrow> 9 \<le> c \<and> c \<le> 13 \<or> c = 0x20 \<or> c = 0x85 \<or> c = 0xA0 \<or> c = 0x1680 \<or>
    0x2000 \<le> c \<and> c \<le> 0x200A \<or> c = 0x2028 \<or> c = 0x2029 \<or> c = 0x202F \<or> c = 0x205F \<or> c = 0x3000"

definition trim_start :: "ustr \<Rightarrow> ustr" where "trim_start s = dropWhile is_whitespace s"
definition trim :: "ustr \<Rightarrow> ustr" where "trim s = rev (trim_start (rev (trim_start s)))"

definition is_digit :: "u32 \<Rightarrow> bool" where "is_digit c \<longleftrightarrow> 0x30 \<le> c \<and> c \<le> 0x39"
definition is_ascii_alphabetic :: "u32 \<Rightarrow> bool" where
  "is_ascii_alphabetic c \<longleftrightarrow> 0x41 \<le> c \<and> c \<le> 0x5A \<or> 0x61 \<le> c \<and> c \<le> 0x7A"

definition lower :: "u32 \<Rightarrow> u32" where "lower c = (if 0x41 \<le> c \<and> c \<le> 0x5A then c + 0x20 else c)"
definition lowercase :: "ustr \<Rightarrow> ustr" where "lowercase s = map lower s"

definition strip_prefix :: "ustr \<Rightarrow> ustr \<Rightarrow> ustr option" where
  "strip_prefix p s = (if take (length p) s = p then Some (drop (length p) s) else None)"

definition strip_suffix :: "ustr \<Rightarrow> ustr \<Rightarrow> ustr option" where
  "strip_suffix p s = map_option rev (strip_prefix (rev p) (rev s))"

text \<open>At the first occurrence of a nonempty separator.\<close>

fun split_once :: "ustr \<Rightarrow> ustr \<Rightarrow> (ustr \<times> ustr) option" where
  "split_once sep [] = None"
| "split_once sep (c # s) =
    (case strip_prefix sep (c # s) of
       Some rest \<Rightarrow> Some ([], rest)
     | None \<Rightarrow> map_option (\<lambda>(a, b). (c # a, b)) (split_once sep s))"

fun split_on :: "('a \<Rightarrow> bool) \<Rightarrow> 'a list \<Rightarrow> 'a list list" where
  "split_on P [] = [[]]"
| "split_on P (c # s) = (if P c then [] # split_on P s else (c # hd (split_on P s)) # tl (split_on P s))"

fun digits_value :: "nat \<Rightarrow> ustr \<Rightarrow> nat option" where
  "digits_value acc [] = Some acc"
| "digits_value acc (c # s) = (if is_digit c then digits_value (10 * acc + (unat c - 0x30)) s else None)"

text \<open>\<open>parse\<close> of an unsigned integer: an optional plus sign, digits, at most the largest value.\<close>

definition parse_unsigned :: "nat \<Rightarrow> ustr \<Rightarrow> nat option" where
  "parse_unsigned largest s =
    (let digits = (case s of c # rest \<Rightarrow> if c = 0x2B then rest else s | [] \<Rightarrow> []) in
     if digits = [] then None
     else (case digits_value 0 digits of
             Some v \<Rightarrow> if v \<le> largest then Some v else None
           | None \<Rightarrow> None))"

lemma split_on_nonempty [simp]: "split_on P s \<noteq> []"
  by (cases s) auto

lemma split_on_no_sep: "\<forall>c \<in> set s. \<not> P c \<Longrightarrow> split_on P s = [s]"
  by (induction s) auto

lemma split_on_append:
  assumes "\<forall>c \<in> set a. \<not> P c" "P c"
  shows "split_on P (a @ c # s) = a # split_on P s"
  using assms by (induction a) auto

lemma split_on_pieces: "x \<in> set (split_on P s) \<Longrightarrow> \<forall>c \<in> set x. \<not> P c"
proof (induction s arbitrary: x)
  case (Cons c s)
  obtain h r where "split_on P s = h # r" by (cases "split_on P s") auto
  then show ?case using Cons.IH [of h] Cons.IH [of x] Cons.prems by (cases "P c") auto
qed simp

lemma strip_prefix_Some: "strip_prefix p s = Some r \<longleftrightarrow> s = p @ r"
  by (auto simp: strip_prefix_def split: if_splits) (metis append_take_drop_id)

lemma split_once_Some: "split_once sep s = Some (a, b) \<Longrightarrow> s = a @ sep @ b"
  by (induction sep s arbitrary: a rule: split_once.induct) (auto simp: strip_prefix_Some split: option.splits)

end
