(* ===== verification/Filetime.thy ===== *)
theory Filetime
  imports Prelude
begin

text \<open>
  FILETIME conversion and the civil calendar (\<open>output/filetime.rs\<close>): ticks of 100 ns since 1601
  against Unix milliseconds, and Hinnant's conversions between day counts and dates, proved to walk
  the proleptic Gregorian calendar one day at a time.
\<close>

section \<open>Ticks and milliseconds\<close>

definition FILETIME_UNIX_EPOCH :: i64 where "FILETIME_UNIX_EPOCH = 116444736000000000"
definition DAYS_1601_TO_1970 :: i64 where "DAYS_1601_TO_1970 = 134774"

definition saturate :: "int \<Rightarrow> i64" where
  "saturate x = (if x < I64_MIN then I64_MIN else if I64_MAX < x then I64_MAX else x)"

definition filetime_to_unix_ms :: "i64 \<Rightarrow> i64" where
  "filetime_to_unix_ms ft = saturate (ft - FILETIME_UNIX_EPOCH) div 10000"

definition unix_ms_to_filetime :: "i64 \<Rightarrow> i64" where
  "unix_ms_to_filetime ms = saturate (saturate (ms * 10000) + FILETIME_UNIX_EPOCH)"

section \<open>The civil calendar\<close>

definition civil_from_days :: "i64 \<Rightarrow> i64 \<times> nat \<times> nat" where
  "civil_from_days days =
    (let z = days + 719468;
         era = z div 146097;
         doe = z mod 146097;
         yoe = (doe - doe div 1460 + doe div 36524 - doe div 146096) div 365;
         y = yoe + era * 400;
         doy = doe - (365 * yoe + yoe div 4 - yoe div 100);
         mp = (5 * doy + 2) div 153;
         d = doy - (153 * mp + 2) div 5 + 1;
         m = (if mp < 10 then mp + 3 else mp - 9)
     in (if m \<le> 2 then y + 1 else y, nat m, nat d))"

definition days_from_civil :: "i64 \<Rightarrow> nat \<Rightarrow> nat \<Rightarrow> i64" where
  "days_from_civil year month day =
    (let y = (if month \<le> 2 then year - 1 else year);
         era = y div 400;
         yoe = y mod 400;
         mp = int ((month + 9) mod 12);
         doy = (153 * mp + 2) div 5 + int day - 1;
         doe = yoe * 365 + yoe div 4 - yoe div 100 + doy
     in era * 146097 + doe - 719468)"

text \<open>\<open>days_in_month\<close> of \<open>query/dates.rs\<close>.\<close>

definition days_in_month :: "i64 \<Rightarrow> nat \<Rightarrow> nat" where
  "days_in_month year month =
    (if month = 2 then (if year mod 4 = 0 \<and> (year mod 100 \<noteq> 0 \<or> year mod 400 = 0) then 29 else 28)
     else if month \<in> {4, 6, 9, 11} then 30 else 31)"

section \<open>A year of the era\<close>

definition leap :: "int \<Rightarrow> int" where
  "leap y = (if y mod 4 = 0 \<and> (y mod 100 \<noteq> 0 \<or> y mod 400 = 0) then 1 else 0)"

definition year_start :: "int \<Rightarrow> int" where "year_start y = 365 * y + y div 4 - y div 100"

definition day_year :: "int \<Rightarrow> int" where
  "day_year n = (n - n div 1460 + n div 36524 - n div 146096) div 365"

lemma day_year_mono:
  assumes "0 \<le> a" "a \<le> b" "b \<le> 146096"
  shows "day_year a \<le> day_year b"
proof -
  have "b div 1460 \<le> (a + (b - a) * 1460) div 1460" using assms by (intro zdiv_mono1) auto
  then have 1: "b div 1460 \<le> a div 1460 + (b - a)" by simp
  have 2: "a div 36524 - a div 146096 \<le> b div 36524 - b div 146096"
  proof (cases "b = 146096")
    case True
    then show ?thesis using assms by (cases "a = 146096") (auto simp: div_pos_pos_trivial)
  next
    case False
    then show ?thesis using assms zdiv_mono1[of a b 36524] by (simp add: div_pos_pos_trivial)
  qed
  have "a - a div 1460 + a div 36524 - a div 146096 \<le> b - b div 1460 + b div 36524 - b div 146096"
    using 1 2 by linarith
  then show ?thesis unfolding day_year_def by (rule zdiv_mono1) simp
qed

lemma day_year_ends: "\<forall>y \<in> set [0..399]. day_year (year_start y) = y \<and> day_year (year_start y + 364 + leap (y + 1)) = y"
  by code_simp

lemma day_year_eq:
  assumes y: "0 \<le> y" "y \<le> 399" and n: "year_start y \<le> n" "n \<le> year_start y + 364 + leap (y + 1)"
  shows "day_year n = y"
proof -
  have "y \<in> set [0..399]" using y by simp
  then have e: "day_year (year_start y) = y" "day_year (year_start y + 364 + leap (y + 1)) = y" using day_year_ends by blast+
  have s: "0 \<le> year_start y" using y by (simp add: year_start_def)
  have "leap (y + 1) \<le> 1" by (simp add: leap_def)
  then have l: "year_start y + 364 + leap (y + 1) \<le> 146096"
    using y by (cases "y = 399") (simp add: year_start_def leap_def, unfold year_start_def, linarith)
  have "day_year (year_start y) \<le> day_year n" "day_year n \<le> day_year (year_start y + 364 + leap (y + 1))"
    using day_year_mono s n l by force+
  then show ?thesis using e by simp
qed

lemma div_next:
  fixes y k :: int
  assumes "1 < k"
  shows "(y + 1) div k = y div k + (if (y + 1) mod k = 0 then 1 else 0)"
proof -
  have y: "y = k * (y div k) + y mod k" "0 \<le> y mod k" "y mod k < k" using assms by simp_all
  show ?thesis
  proof (cases "y mod k = k - 1")
    case True
    then have "y + 1 = k * (y div k) + k" using y(1) by linarith
    then have "y + 1 = k * (y div k + 1)" by (simp add: distrib_left)
    then have "(y + 1) div k = y div k + 1" "(y + 1) mod k = 0" using assms by simp_all
    then show ?thesis by simp
  next
    case False
    then have "y + 1 = k * (y div k) + (y mod k + 1)" "0 \<le> y mod k + 1" "y mod k + 1 < k" using y by linarith+
    then have "(y + 1) div k = y div k" "(y + 1) mod k = y mod k + 1" by (metis int_div_pos_eq, metis int_mod_pos_eq)
    then show ?thesis using y(2) by simp
  qed
qed

lemma mod_100_4: "(x::int) mod 100 = 0 \<Longrightarrow> x mod 4 = 0"
  by presburger

lemma year_start_next: "0 \<le> y \<Longrightarrow> y < 399 \<Longrightarrow> year_start (y + 1) = year_start y + 365 + leap (y + 1)"
  using mod_100_4[of "y + 1"] unfolding year_start_def leap_def by (simp add: div_next)

lemma day_in_year:
  assumes "0 \<le> n" "n \<le> 146096"
  obtains y where "0 \<le> y" "y \<le> 399" "year_start y \<le> n" "n \<le> year_start y + 364 + leap (y + 1)"
proof -
  have "n < year_start (int k) + 365 + leap (int k + 1) \<Longrightarrow> \<exists>y. 0 \<le> y \<and> y \<le> 399 \<and> year_start y \<le> n \<and> n \<le> year_start y + 364 + leap (y + 1)"
    if "k \<le> 399" for k
    using that
  proof (induction k)
    case 0
    then show ?case using assms by (intro exI[of _ 0]) (simp add: year_start_def)
  next
    case (Suc k)
    show ?case
    proof (cases "year_start (int (Suc k)) \<le> n")
      case True
      then show ?thesis using Suc.prems by (intro exI[of _ "int (Suc k)"]) auto
    next
      case False
      then have "n < year_start (int k) + 365 + leap (int k + 1)" using year_start_next[of "int k"] Suc.prems(2) by (simp add: add.commute)
      then show ?thesis using Suc by simp
    qed
  qed
  from this[of 399] show thesis using assms that by (auto simp: year_start_def leap_def)
qed

section \<open>Months of a year that starts in March\<close>

definition month_start :: "int \<Rightarrow> int" where "month_start mp = (153 * mp + 2) div 5"

lemma month_start_mono: "a \<le> b \<Longrightarrow> month_start a \<le> month_start b"
  unfolding month_start_def by (rule zdiv_mono1) simp_all

lemma month_start_less: "month_start a < month_start (a + 1)"
proof -
  have "(153 * a + 2 + 30 * 5) div 5 \<le> (153 * (a + 1) + 2) div 5" by (rule zdiv_mono1) simp_all
  then show ?thesis unfolding month_start_def by simp
qed

lemma month_start_11: "mp < 11 \<Longrightarrow> month_start (mp + 1) \<le> 337"
  using month_start_mono[of "mp + 1" 11] by (simp add: month_start_def)

lemma month_of_day:
  assumes "0 \<le> doy" "doy \<le> 365"
  shows "0 \<le> (5 * doy + 2) div 153" "(5 * doy + 2) div 153 \<le> 11"
    "month_start ((5 * doy + 2) div 153) \<le> doy" "doy < month_start ((5 * doy + 2) div 153 + 1)"
proof -
  let ?m = "(5 * doy + 2) div 153"
  show "0 \<le> ?m" "?m \<le> 11" "month_start ?m \<le> doy" using assms unfolding month_start_def by linarith+
  have "5 * doy + 2 = 153 * ?m + (5 * doy + 2) mod 153" "(5 * doy + 2) mod 153 < 153" by simp_all
  then have "5 * (doy + 1) \<le> 153 * (?m + 1) + 2" by presburger
  then have "5 * (doy + 1) div 5 \<le> (153 * (?m + 1) + 2) div 5" by (rule zdiv_mono1) simp
  then show "doy < month_start (?m + 1)" unfolding month_start_def by simp
qed

lemma day_of_month:
  assumes "month_start mp \<le> doy" "doy < month_start (mp + 1)"
  shows "(5 * doy + 2) div 153 = mp"
proof (rule int_div_pos_eq)
  show "5 * doy + 2 = 153 * mp + (5 * doy + 2 - 153 * mp)" by simp
  show "0 \<le> 5 * doy + 2 - 153 * mp" using assms unfolding month_start_def by linarith
  define x where "x = month_start (mp + 1)"
  have "5 * x \<le> 153 * mp + 155" unfolding x_def month_start_def by (simp add: distrib_left)
  moreover have "doy + 1 \<le> x" using assms(2) by (simp add: x_def)
  ultimately show "5 * doy + 2 - 153 * mp < 153" by simp
qed

section \<open>A day and its date\<close>

text \<open>The day of an era, of a year of it from March on and of a day of that year, and the date it has.\<close>

definition date_parts :: "int \<Rightarrow> int \<Rightarrow> int \<Rightarrow> int \<Rightarrow> bool" where
  "date_parts era y mp doy \<longleftrightarrow> 0 \<le> y \<and> y \<le> 399 \<and> 0 \<le> mp \<and> mp \<le> 11 \<and> 0 \<le> doy \<and> doy \<le> 364 + leap (y + 1) \<and>
    month_start mp \<le> doy \<and> doy < month_start (mp + 1)"

definition day_number :: "int \<Rightarrow> int \<Rightarrow> int \<Rightarrow> int" where
  "day_number era y doy = era * 146097 + year_start y + doy - 719468"

definition date_of :: "int \<Rightarrow> int \<Rightarrow> int \<Rightarrow> int \<Rightarrow> i64 \<times> nat \<times> nat" where
  "date_of era y mp doy =
    (if mp < 10 then (y + era * 400, nat (mp + 3), nat (doy - month_start mp + 1))
     else (y + era * 400 + 1, nat (mp - 9), nat (doy - month_start mp + 1)))"

lemma day_of_era:
  assumes "date_parts era y mp doy"
  shows "(era * 146097 + (year_start y + doy)) div 146097 = era" "(era * 146097 + (year_start y + doy)) mod 146097 = year_start y + doy"
proof -
  have y: "0 \<le> y" "y \<le> 399" "0 \<le> doy" "doy \<le> 364 + leap (y + 1)" using assms by (simp_all add: date_parts_def)
  have "0 \<le> year_start y" using y by (simp add: year_start_def)
  moreover have "leap (y + 1) \<le> 1" by (simp add: leap_def)
  then have "year_start y + 364 + leap (y + 1) \<le> 146096"
    using y(1,2) by (cases "y = 399") (simp add: year_start_def leap_def, unfold year_start_def, linarith)
  ultimately have "0 \<le> year_start y + doy" "year_start y + doy < 146097" using y by simp_all
  then show "(era * 146097 + (year_start y + doy)) div 146097 = era" "(era * 146097 + (year_start y + doy)) mod 146097 = year_start y + doy"
    by simp_all
qed

lemma civil_date_of:
  assumes "date_parts era y mp doy"
  shows "civil_from_days (day_number era y doy) = date_of era y mp doy"
proof -
  note e = day_of_era[OF assms]
  have dy: "day_year (year_start y + doy) = y" using assms by (intro day_year_eq) (simp_all add: date_parts_def)
  have mp: "(5 * doy + 2) div 153 = mp" using assms by (intro day_of_month) (simp_all add: date_parts_def)
  have "civil_from_days (day_number era y doy) =
    (let m = (if mp < 10 then mp + 3 else mp - 9)
     in (if m \<le> 2 then y + era * 400 + 1 else y + era * 400, nat m, nat (doy - month_start mp + 1)))"
  proof -
    have z: "day_number era y doy + 719468 = era * 146097 + (year_start y + doy)" by (simp add: day_number_def)
    have d: "year_start y + doy - (365 * y + y div 4 - y div 100) = doy" by (simp add: year_start_def)
    show ?thesis
      unfolding civil_from_days_def z e Let_def day_year_def[symmetric] dy d mp month_start_def[symmetric] by simp
  qed
  then show ?thesis using assms by (auto simp: date_of_def date_parts_def)
qed

lemma date_parts_exist:
  obtains era y mp doy where "date_parts era y mp doy" "n = day_number era y doy"
proof -
  let ?z = "n + 719468"
  have "0 \<le> ?z mod 146097" "?z mod 146097 \<le> 146096" using pos_mod_bound[of 146097 ?z] by simp_all
  then obtain y where y: "0 \<le> y" "y \<le> 399" "year_start y \<le> ?z mod 146097" "?z mod 146097 \<le> year_start y + 364 + leap (y + 1)"
    by (rule day_in_year)
  define doy where "doy = ?z mod 146097 - year_start y"
  have l: "leap (y + 1) \<le> 1" by (simp add: leap_def)
  have d: "0 \<le> doy" "doy \<le> 364 + leap (y + 1)" "doy \<le> 365" using y l by (simp_all add: doy_def)
  have "date_parts (?z div 146097) y ((5 * doy + 2) div 153) doy"
    using y d month_of_day[OF d(1,3)] by (simp add: date_parts_def)
  moreover have "n = day_number (?z div 146097) y doy"
    using div_mult_mod_eq[of ?z 146097] by (simp add: day_number_def doy_def)
  ultimately show thesis by (rule that)
qed

lemma days_date_of:
  assumes "date_parts era y mp doy"
  shows "(case date_of era y mp doy of (year, month, day) \<Rightarrow> days_from_civil year month day) = day_number era y doy"
proof -
  have p: "0 \<le> y" "y \<le> 399" "0 \<le> mp" "mp \<le> 11" "0 \<le> doy - month_start mp" using assms by (simp_all add: date_parts_def)
  have era: "(y + era * 400) div 400 = era" "(y + era * 400) mod 400 = y" using p by simp_all
  show ?thesis
  proof (cases "mp < 10")
    case True
    have "nat (mp + 3) + 9 = nat mp + 12" using p by simp
    then have "\<not> nat (mp + 3) \<le> 2" "(nat (mp + 3) + 9) mod 12 = nat mp" using p True by simp_all
    then show ?thesis using p era True
      by (simp add: date_of_def days_from_civil_def day_number_def year_start_def month_start_def Let_def)
  next
    case False
    then have "nat (mp - 9) \<le> 2" "nat (mp - 9) + 9 = nat mp" using p by simp_all
    then show ?thesis using p era False
      by (simp add: date_of_def days_from_civil_def day_number_def year_start_def month_start_def Let_def)
  qed
qed

section \<open>The calendar\<close>

definition valid_date :: "i64 \<Rightarrow> nat \<Rightarrow> nat \<Rightarrow> bool" where
  "valid_date year month day \<longleftrightarrow> 1 \<le> month \<and> month \<le> 12 \<and> 1 \<le> day \<and> day \<le> days_in_month year month"

fun next_date :: "i64 \<times> nat \<times> nat \<Rightarrow> i64 \<times> nat \<times> nat" where
  "next_date (year, month, day) =
    (if day < days_in_month year month then (year, month, day + 1)
     else if month < 12 then (year, month + 1, 1) else (year + 1, 1, 1))"

lemma le11_cases: "0 \<le> (mp::int) \<Longrightarrow> mp \<le> 11 \<Longrightarrow> mp \<in> {0, 1, 2, 3, 4, 5, 6, 7, 8, 9, 10, 11}"
  by (simp only: insert_iff empty_iff) presburger

lemma month_length:
  assumes "0 \<le> mp" "mp < 11"
  shows "int (days_in_month year (nat (if mp < 10 then mp + 3 else mp - 9))) = month_start (mp + 1) - month_start mp"
  using le11_cases[of mp] assms by (auto simp: month_start_def days_in_month_def)

lemma february: "int (days_in_month year 2) = 28 + leap year"
  by (simp add: days_in_month_def leap_def)

lemma leap_era: "leap (y + era * 400) = leap y"
proof -
  have "(y + era * 400) mod 4 = y mod 4" "(y + era * 400) mod 100 = y mod 100" "(y + era * 400) mod 400 = y mod 400"
    using mod_mult_self1[of y "era * 100" 4] mod_mult_self1[of y "era * 4" 100] by (simp_all add: mult.assoc)
  then show ?thesis by (simp add: leap_def)
qed

lemma leap_era_next: "leap (y + era * 400 + 1) = leap (y + 1)"
  using leap_era[of "y + 1" era] by (simp add: algebra_simps)

lemma date_of_valid:
  assumes "date_parts era y mp doy"
  shows "case date_of era y mp doy of (year, month, day) \<Rightarrow> valid_date year month day"
proof -
  have p: "0 \<le> mp" "mp \<le> 11" "month_start mp \<le> doy" "doy < month_start (mp + 1)" "doy \<le> 364 + leap (y + 1)"
    using assms by (simp_all add: date_parts_def)
  show ?thesis
  proof (cases "mp = 11")
    case True
    have "int (days_in_month (y + era * 400 + 1) 2) = 28 + leap (y + 1)" by (simp add: february leap_era_next)
    then show ?thesis using True p by (simp add: date_of_def valid_date_def month_start_def nat_le_iff Suc_le_eq)
  next
    case False
    then show ?thesis using p month_length[of mp "y + era * 400"] month_length[of mp "y + era * 400 + 1"]
      by (auto simp: date_of_def valid_date_def nat_le_iff Suc_le_eq)
  qed
qed

lemma date_of_next:
  assumes parts: "date_parts era y mp doy"
  shows "civil_from_days (day_number era y doy + 1) = next_date (date_of era y mp doy)"
proof -
  have p: "0 \<le> y" "y \<le> 399" "0 \<le> mp" "mp \<le> 11" "0 \<le> doy" "month_start mp \<le> doy" "doy < month_start (mp + 1)" "doy \<le> 364 + leap (y + 1)"
    using assms by (simp_all add: date_parts_def)
  have succ: "day_number era y doy + 1 = day_number era y (doy + 1)" by (simp add: day_number_def)
  consider (day) "doy + 1 < month_start (mp + 1)" "doy + 1 \<le> 364 + leap (y + 1)"
    | (month) "mp < 11" "doy + 1 = month_start (mp + 1)"
    | (year) "mp = 11" "doy = 364 + leap (y + 1)"
  proof -
    have "month_start 12 = 367" by (simp add: month_start_def)
    moreover have "leap (y + 1) \<le> 1" "0 \<le> leap (y + 1)" by (simp_all add: leap_def)
    moreover have "month_start (mp + 1) \<le> 337" if "mp < 11" using month_start_11[OF that] .
    ultimately show thesis using that p by (cases "mp < 11") fastforce+
  qed
  then show ?thesis
  proof cases
    case day
    then have "date_parts era y mp (doy + 1)" using p by (simp add: date_parts_def)
    moreover have "date_of era y mp (doy + 1) = next_date (date_of era y mp doy)"
    proof (cases "mp = 11")
      case True
      have "int (days_in_month (y + era * 400 + 1) 2) = 28 + leap (y + 1)" by (simp add: february leap_era_next)
      then show ?thesis using True p day(2) by (simp add: date_of_def month_start_def nat_less_iff nat_add_distrib Suc_nat_eq_nat_zadd1)
    next
      case False
      then show ?thesis using p day(1) month_length[of mp "y + era * 400"] month_length[of mp "y + era * 400 + 1"]
        by (auto simp: date_of_def nat_less_iff Suc_nat_eq_nat_zadd1)
    qed
    ultimately show ?thesis unfolding succ by (simp add: civil_date_of)
  next
    case month
    have "month_start (mp + 1) < month_start (mp + 1 + 1)" by (rule month_start_less)
    moreover have "month_start (mp + 1) \<le> 337" using month_start_11[OF month(1)] .
    moreover have "0 \<le> leap (y + 1)" by (simp add: leap_def)
    ultimately have "date_parts era y (mp + 1) (doy + 1)" using p month by (simp add: date_parts_def)
    moreover have "date_of era y (mp + 1) (doy + 1) = next_date (date_of era y mp doy)"
      using p month month_length[of mp "y + era * 400"] month_length[of mp "y + era * 400 + 1"]
      by (auto simp: date_of_def nat_less_iff Suc_nat_eq_nat_zadd1)
    ultimately show ?thesis unfolding succ by (simp add: civil_date_of)
  next
    case year
    have f: "int (days_in_month (y + era * 400 + 1) 2) = 28 + leap (y + 1)" by (simp add: february leap_era_next)
    have nd: "next_date (date_of era y mp doy) = (y + era * 400 + 1, 3, 1)"
      using year f by (simp add: date_of_def month_start_def nat_less_iff)
    show ?thesis
    proof (cases "y = 399")
      case True
      have "day_number era y doy + 1 = day_number (era + 1) 0 0"
        using True year by (simp add: day_number_def year_start_def leap_def)
      moreover have "date_parts (era + 1) 0 0 0" by (simp add: date_parts_def month_start_def leap_def)
      ultimately show ?thesis using True nd by (simp add: civil_date_of date_of_def month_start_def)
    next
      case False
      then have "day_number era y doy + 1 = day_number era (y + 1) 0"
        using year year_start_next[of y] p by (simp add: day_number_def)
      moreover have "date_parts era (y + 1) 0 0" using p False by (simp add: date_parts_def month_start_def leap_def)
      ultimately show ?thesis using nd by (simp add: civil_date_of date_of_def month_start_def)
    qed
  qed
qed

lemma civil_next: "civil_from_days (n + 1) = next_date (civil_from_days n)"
  by (rule date_parts_exist[of n]) (simp add: date_of_next civil_date_of)


lemma date_parts_of_date:
  assumes "valid_date year month day"
  obtains era y mp doy where "date_parts era y mp doy" "date_of era y mp doy = (year, month, day)"
proof -
  define Y where "Y = (if month \<le> 2 then year - 1 else year)"
  define mp where "mp = (if month \<le> 2 then int month + 9 else int month - 3)"
  define doy where "doy = month_start mp + int day - 1"
  have v: "1 \<le> month" "month \<le> 12" "1 \<le> day" "day \<le> days_in_month year month" using assms by (simp_all add: valid_date_def)
  have mp: "0 \<le> mp" "mp \<le> 11" "month = nat (if mp < 10 then mp + 3 else mp - 9)" using v by (auto simp: mp_def)
  have ms: "0 \<le> month_start mp" using mp(1) by (simp add: month_start_def)
  have Y: "Y = Y mod 400 + (Y div 400) * 400" by simp
  have yr: "year = (if mp < 10 then Y else Y + 1)" using v by (auto simp: Y_def mp_def)
  have "0 \<le> leap (Y mod 400 + 1)" "leap (Y mod 400 + 1) \<le> 1" by (simp_all add: leap_def)
  then have "doy \<le> 364 + leap (Y mod 400 + 1) \<and> doy < month_start (mp + 1)"
  proof (cases "mp = 11")
    case True
    then have "month = 2" "year = Y + 1" using mp(3) yr by simp_all
    then have "int day \<le> 28 + leap (Y mod 400 + 1)"
      using v(4) february[of year] leap_era_next[of "Y mod 400" "Y div 400"] Y by simp
    then show ?thesis using True \<open>leap (Y mod 400 + 1) \<le> 1\<close> by (simp add: doy_def month_start_def)
  next
    case False
    then have "int day \<le> month_start (mp + 1) - month_start mp" using v(4) month_length[of mp year] mp by simp
    moreover have "month_start (mp + 1) \<le> 337" using month_start_11[of mp] False mp(2) by simp
    ultimately show ?thesis using \<open>0 \<le> leap (Y mod 400 + 1)\<close> by (simp add: doy_def)
  qed
  then have "date_parts (Y div 400) (Y mod 400) mp doy"
    using mp v ms pos_mod_bound[of 400 Y] by (auto simp: date_parts_def doy_def)
  moreover have "date_of (Y div 400) (Y mod 400) mp doy = (year, month, day)"
    using mp(3) yr v(3) Y by (auto simp: date_of_def doy_def)
  ultimately show thesis by (rule that)
qed

lemma civil_valid: "civil_from_days n = (year, month, day) \<Longrightarrow> valid_date year month day"
  by (rule date_parts_exist[of n]) (use date_of_valid civil_date_of in fastforce)

lemma days_of_civil: "civil_from_days n = (year, month, day) \<Longrightarrow> days_from_civil year month day = n"
  by (rule date_parts_exist[of n]) (use days_date_of civil_date_of in fastforce)

lemma civil_of_days:
  assumes "valid_date year month day"
  shows "civil_from_days (days_from_civil year month day) = (year, month, day)"
proof -
  obtain era y mp doy where q: "date_parts era y mp doy" "date_of era y mp doy = (year, month, day)"
    using assms by (rule date_parts_of_date)
  show ?thesis using days_date_of[OF q(1)] civil_date_of[OF q(1)] q(2) by simp
qed

text \<open>Dates in the order of their days.\<close>

fun date_key :: "i64 \<times> nat \<times> nat \<Rightarrow> int" where
  "date_key (year, month, day) = (12 * year + int month) * 32 + int day"

lemma days_in_month_le: "days_in_month year month \<le> 31"
  by (simp add: days_in_month_def)

lemma date_key_next: "date_key (civil_from_days n) < date_key (civil_from_days (n + 1))"
proof -
  obtain y m d where c: "civil_from_days n = (y, m, d)" by (cases "civil_from_days n")
  have "1 \<le> m" "m \<le> 12" "1 \<le> d" "d \<le> 31" using civil_valid[OF c] days_in_month_le[of y m] by (auto simp: valid_date_def)
  then show ?thesis by (auto simp: civil_next c)
qed

lemma date_key_mono: "a < b \<Longrightarrow> date_key (civil_from_days a) < date_key (civil_from_days b)"
proof (induction b rule: int_gr_induct)
  case (step b)
  then show ?case using date_key_next[of b] by linarith
qed (rule date_key_next)

lemma date_key_le: "date_key (civil_from_days a) \<le> date_key (civil_from_days b) \<longleftrightarrow> a \<le> b"
  using date_key_mono[of a b] date_key_mono[of b a] by (cases a b rule: linorder_cases) auto

lemma days_le_iff:
  assumes "valid_date year month day"
  shows "days_from_civil year month day \<le> n \<longleftrightarrow> date_key (year, month, day) \<le> date_key (civil_from_days n)"
  using date_key_le[of "days_from_civil year month day" n] by (simp only: civil_of_days[OF assms])

text \<open>
  Day counts and dates convert back and forth without loss: the date of a day is valid and has that day count,
  and a valid date is the date of its day count.
\<close>

theorem civil_round_trip:
  "(case civil_from_days n of (year, month, day) \<Rightarrow> valid_date year month day \<and> days_from_civil year month day = n) \<and>
   (valid_date year month day \<longrightarrow> civil_from_days (days_from_civil year month day) = (year, month, day))"
  using civil_valid[of n] days_of_civil[of n] civil_of_days by (auto split: prod.splits)

theorem civil_round_trip_witness: "civil_from_days (days_from_civil 2024 2 29) = (2024, 2, 29)"
  using civil_round_trip[of 0 2024 2 29] by (simp add: valid_date_def days_in_month_def)

end
