(* ===== verification/Dates.thy ===== *)
theory Dates
  imports Ustr Filetime
begin

text \<open>
  \<open>dm:\<close> values (\<open>query/dates.rs\<close>): a date as a query writes it, resolved to bounds on FILETIME
  ticks. The machine's clock and calendar are a parameter.
\<close>

section \<open>Errors and filters\<close>

text \<open>\<open>QueryError\<close> of \<open>query/parse.rs\<close>.\<close>

datatype query_error =
    UnsupportedOperator u32
  | Malformed string ustr
  | TooManyTerms nat
  | UnknownFunction ustr
  | NoClock

definition SECOND :: i64 where "SECOND = 10000000"
definition DAY :: i64 where "DAY = 86400 * SECOND"

record local_clock =
  lc_now :: i64
  lc_to_local :: "i64 \<Rightarrow> i64 option"
  lc_to_utc :: "i64 \<Rightarrow> i64 option"
  lc_week_start :: nat

datatype date_filter = Within i64 i64 | UnknownDate

fun date_matches :: "date_filter \<Rightarrow> i64 option \<Rightarrow> bool" where
  "date_matches (Within lo hi) (Some t) \<longleftrightarrow> lo \<le> t \<and> t \<le> hi"
| "date_matches UnknownDate None \<longleftrightarrow> True"
| "date_matches _ _ \<longleftrightarrow> False"

fun date_and :: "date_filter \<Rightarrow> date_filter \<Rightarrow> date_filter" where
  "date_and (Within a b) (Within c d) = Within (max a c) (min b d)"
| "date_and UnknownDate UnknownDate = UnknownDate"
| "date_and _ _ = Within I64_MAX I64_MIN"

datatype date_value = Period i64 i64 | Instant i64

fun value_first :: "date_value \<Rightarrow> i64" where
  "value_first (Period start end) = start"
| "value_first (Instant t) = t"

text \<open>Unchecked arithmetic on an \<open>i64\<close>, which wraps in the release profile.\<close>

definition wrap_i64 :: "int \<Rightarrow> i64" where
  "wrap_i64 x = (x + 2 ^ 63) mod 2 ^ 64 - 2 ^ 63"

fun value_last :: "date_value \<Rightarrow> i64" where
  "value_last (Period start end) = wrap_i64 (end - 1)"
| "value_last (Instant t) = t"

definition malformed_date :: "ustr \<Rightarrow> query_error" where
  "malformed_date detail = Malformed ''dm:'' detail"

fun alone :: "date_value \<Rightarrow> date_filter" where
  "alone (Period start end) = Within start (wrap_i64 (end - 1))"
| "alone (Instant t) = Within t I64_MAX"

section \<open>The calendar\<close>

definition civil :: "i64 \<Rightarrow> i64 \<times> nat \<times> nat" where
  "civil day = civil_from_days (day - DAYS_1601_TO_1970)"

definition local_day :: "i64 \<Rightarrow> nat \<Rightarrow> nat \<Rightarrow> i64 option" where
  "local_day year month day =
    (if -1000000 \<le> year \<and> year \<le> 1000000 then Some (days_from_civil year month day + DAYS_1601_TO_1970) else None)"

definition checked :: "int \<Rightarrow> i64 option" where
  "checked x = (if i64_ok x then Some x else None)"

definition add_months :: "i64 \<Rightarrow> nat \<Rightarrow> i64 \<Rightarrow> (i64 \<times> nat) option" where
  "add_months year month delta =
    do {
      i \<leftarrow> checked (year * 12);
      i \<leftarrow> checked (i + (int month - 1));
      i \<leftarrow> checked (i + delta);
      Some (i div 12, nat (i mod 12) + 1)
    }"

definition calendar_period :: "ustr \<Rightarrow> i64 \<Rightarrow> i64 \<Rightarrow> nat \<Rightarrow> (i64 \<times> i64) option" where
  "calendar_period unit offset today week_start =
    (if unit = ascii ''week'' then
       (let into_week = (today - int week_start) mod 7; first = today - into_week + 7 * offset
        in Some (first, first + 7))
     else if unit = ascii ''month'' then
       (case civil today of (year, month, _) \<Rightarrow>
          do {
            (year, month) \<leftarrow> add_months year month offset;
            (next_year, next_month) \<leftarrow> add_months year month 1;
            first \<leftarrow> local_day year month 1;
            end \<leftarrow> local_day next_year next_month 1;
            Some (first, end)
          })
     else
       (let year = fst (civil today) + offset in
        do { first \<leftarrow> local_day year 1 1; end \<leftarrow> local_day (year + 1) 1 1; Some (first, end) }))"

section \<open>Values\<close>

datatype duration = Ticks i64 | Months i64

text \<open>\<open>Some None\<close> where the code returns \<open>Ok(None)\<close>: no duration.\<close>

definition seconds_of :: "ustr \<Rightarrow> int option option" where
  "seconds_of unit =
    (if unit = ascii ''sec'' \<or> unit = ascii ''second'' then Some (Some 1)
     else if unit = ascii ''min'' \<or> unit = ascii ''minute'' then Some (Some 60)
     else if unit = ascii ''hour'' then Some (Some 3600)
     else if unit = ascii ''day'' then Some (Some 86400)
     else if unit = ascii ''week'' then Some (Some 604800)
     else if unit = ascii ''month'' \<or> unit = ascii ''year'' then Some None
     else None)"

definition or_self :: "ustr option \<Rightarrow> ustr \<Rightarrow> ustr" where
  "or_self r s = (case r of Some t \<Rightarrow> t | None \<Rightarrow> s)"

definition parse_duration :: "ustr \<Rightarrow> ustr \<Rightarrow> query_error + duration option" where
  "parse_duration low txt =
    (let rest = or_self (strip_prefix (ascii ''last'') low) low;
         count = takeWhile is_digit rest;
         unit = dropWhile is_digit rest;
         unit = or_self (strip_suffix (ascii ''s'') unit) unit;
         too_long = malformed_date (txt @ ascii '' reaches back further than goz can compare'')
     in case seconds_of unit of
          None \<Rightarrow> Inr None
        | Some seconds \<Rightarrow>
            if count = [] then Inr None
            else (case parse_unsigned (nat I64_MAX) count of
                None \<Rightarrow> Inl too_long
              | Some n \<Rightarrow>
                  if n = 0 then Inl (malformed_date (txt @ ascii '': give a count above 0''))
                  else (case seconds of
                      Some secs \<Rightarrow>
                        (case checked (int n * (secs * SECOND)) of None \<Rightarrow> Inl too_long | Some t \<Rightarrow> Inr (Some (Ticks t)))
                    | None \<Rightarrow>
                        if unit = ascii ''year''
                        then (case checked (int n * 12) of None \<Rightarrow> Inl too_long | Some m \<Rightarrow> Inr (Some (Months m)))
                        else Inr (Some (Months (int n))))))"

definition date_number :: "nat \<Rightarrow> ustr \<Rightarrow> nat option" where
  "date_number len p = (if length p = len \<and> list_all is_digit p then parse_unsigned (2 ^ 32 - 1) p else None)"

text \<open>\<open>None\<close> when the text has none of the shapes; an error when it names no real month or day.\<close>

definition not_a_date :: "ustr \<Rightarrow> query_error + i64 \<times> i64" where
  "not_a_date low = Inl (malformed_date (low @ ascii '' is not a real date''))"

definition written_date :: "ustr \<Rightarrow> (query_error + i64 \<times> i64) option" where
  "written_date low =
    (let parts = split_on (\<lambda>c. c = 0x2D) low in
     do {
       year \<leftarrow> date_number 4 (hd parts);
       (let year = int year in
        case tl parts of
          [] \<Rightarrow> do { first \<leftarrow> local_day year 1 1; end \<leftarrow> local_day (year + 1) 1 1; Some (Inr (first, end)) }
        | [m] \<Rightarrow>
            do {
              month \<leftarrow> date_number 2 m;
              if \<not> (1 \<le> month \<and> month \<le> 12) then Some (not_a_date low)
              else do {
                (next_year, next_month) \<leftarrow> add_months year month 1;
                first \<leftarrow> local_day year month 1;
                end \<leftarrow> local_day next_year next_month 1;
                Some (Inr (first, end))
              }
            }
        | [m, d] \<Rightarrow>
            do {
              month \<leftarrow> date_number 2 m;
              day \<leftarrow> date_number 2 d;
              if \<not> (1 \<le> month \<and> month \<le> 12) \<or> day = 0 \<or> days_in_month year month < day then Some (not_a_date low)
              else do { first \<leftarrow> local_day year month day; Some (Inr (first, first + 1)) }
            }
        | _ \<Rightarrow> None)
     })"

text \<open>The results of the steps of \<open>point\<close>: an error ends it.\<close>

definition ok_or :: "'a option \<Rightarrow> query_error \<Rightarrow> query_error + 'a" where
  "ok_or x e = (case x of Some v \<Rightarrow> Inr v | None \<Rightarrow> Inl e)"

fun and_then :: "query_error + 'a \<Rightarrow> ('a \<Rightarrow> query_error + 'b) \<Rightarrow> query_error + 'b" where
  "and_then (Inl e) f = Inl e"
| "and_then (Inr v) f = f v"

definition out_of_range :: "ustr \<Rightarrow> query_error" where
  "out_of_range txt = malformed_date (txt @ ascii '' is outside the dates goz can compare'')"

definition local_now :: "local_clock \<Rightarrow> ustr \<Rightarrow> query_error + i64 \<times> i64" where
  "local_now clock txt =
    and_then (ok_or (lc_to_local clock (lc_now clock)) (out_of_range txt)) (\<lambda>t. Inr (t div DAY, t mod DAY))"

definition point_instant :: "local_clock \<Rightarrow> ustr \<Rightarrow> duration \<Rightarrow> query_error + date_value" where
  "point_instant clock txt dur =
    (case dur of
       Ticks ticks \<Rightarrow> and_then (ok_or (checked (lc_now clock - ticks)) (out_of_range txt)) (\<lambda>t. Inr (Instant t))
     | Months months \<Rightarrow>
         and_then (local_now clock txt) (\<lambda>(today, time_of_day).
           case civil today of (year, month, day) \<Rightarrow>
             and_then (ok_or (add_months year month (- months)) (out_of_range txt)) (\<lambda>(year, month).
               and_then (ok_or (do {
                   d \<leftarrow> local_day year month (min day (days_in_month year month));
                   t \<leftarrow> checked (d * DAY);
                   t \<leftarrow> checked (t + time_of_day);
                   lc_to_utc clock t }) (out_of_range txt))
                 (\<lambda>t. Inr (Instant t)))))"

definition point_days :: "local_clock \<Rightarrow> ustr \<Rightarrow> ustr \<Rightarrow> query_error + i64 \<times> i64" where
  "point_days clock txt low =
    (if low = ascii ''today'' then and_then (local_now clock txt) (\<lambda>(today, _). Inr (today, today + 1))
     else if low = ascii ''yesterday'' then and_then (local_now clock txt) (\<lambda>(today, _). Inr (today - 1, today))
     else
       (let calendar = (case strip_prefix (ascii ''this'') low of
            Some unit \<Rightarrow> Some (unit, 0)
          | None \<Rightarrow> map_option (\<lambda>unit. (unit, -1)) (strip_prefix (ascii ''last'') low));
          written = and_then (ok_or (written_date low) (malformed_date (txt @ ascii
            '' is not a date; use today, yesterday, thisweek, lastmonth, thisyear, a count such as 7days or last2hours, YYYY, YYYY-MM, YYYY-MM-DD, or unknown'')))
            id
        in case calendar of
             Some (unit, offset) \<Rightarrow>
               if unit \<in> set [ascii ''week'', ascii ''month'', ascii ''year'']
               then and_then (local_now clock txt) (\<lambda>(today, _).
                 ok_or (calendar_period unit offset today (lc_week_start clock)) (out_of_range txt))
               else written
           | None \<Rightarrow> written))"

text \<open>A local midnight, as UTC ticks. FILETIME starts in 1601.\<close>

definition midnight :: "local_clock \<Rightarrow> ustr \<Rightarrow> i64 \<Rightarrow> query_error + i64" where
  "midnight clock txt day =
    ok_or (do { t \<leftarrow> checked (day * DAY); t \<leftarrow> (if 0 \<le> t then Some t else None); lc_to_utc clock t }) (out_of_range txt)"

definition point :: "local_clock \<Rightarrow> ustr \<Rightarrow> query_error + date_value" where
  "point clock txt =
    (let txt = trim txt; low = lowercase txt in
     and_then (parse_duration low txt) (\<lambda>d.
       case d of
         Some dur \<Rightarrow> point_instant clock txt dur
       | None \<Rightarrow>
           and_then (point_days clock txt low) (\<lambda>(first, end).
             and_then (midnight clock txt first) (\<lambda>start.
               and_then (midnight clock txt end) (\<lambda>stop. Inr (Period start stop))))))"

text \<open>The operators, the two-character ones first.\<close>

fun strip_first :: "string list \<Rightarrow> ustr \<Rightarrow> (string \<times> ustr) option" where
  "strip_first [] v = None"
| "strip_first (op # ops) v = (case strip_prefix (ascii op) v of Some rest \<Rightarrow> Some (op, rest) | None \<Rightarrow> strip_first ops v)"

definition date_side :: "local_clock \<Rightarrow> ustr \<Rightarrow> query_error + date_value option" where
  "date_side clock txt =
    (let txt = trim txt in if txt = [] then Inr None else and_then (point clock txt) (\<lambda>v. Inr (Some v)))"

definition date_filter_of :: "ustr \<Rightarrow> local_clock \<Rightarrow> query_error + date_filter" where
  "date_filter_of val clock =
    (let val = trim val in
     if lowercase val = ascii ''unknown'' then Inr UnknownDate
     else (case split_once (ascii ''..'') val of
         Some (low, up) \<Rightarrow>
           and_then (date_side clock low) (\<lambda>l. and_then (date_side clock up) (\<lambda>u.
             let lo = (case l of Some v \<Rightarrow> value_first v | None \<Rightarrow> I64_MIN);
                 hi = (case u of Some v \<Rightarrow> value_last v | None \<Rightarrow> I64_MAX)
             in if hi < lo then Inl (malformed_date (val @ ascii '' runs backwards; write the earlier date first''))
                else Inr (Within lo hi)))
       | None \<Rightarrow>
           (case strip_first [''>='', ''<='', ''>'', ''<'', ''=''] val of
              Some (op, rest) \<Rightarrow>
                and_then (point clock rest) (\<lambda>v. Inr
                  (if op = ''>='' then Within (value_first v) I64_MAX
                   else if op = ''>'' then Within (saturate (value_last v + 1)) I64_MAX
                   else if op = ''<='' then Within I64_MIN (value_last v)
                   else if op = ''<'' then Within I64_MIN (saturate (value_first v - 1))
                   else alone v))
            | None \<Rightarrow> and_then (point clock val) (\<lambda>v. Inr (alone v)))))"

section \<open>Filters\<close>

lemma date_and_matches: "date_matches (date_and f g) t \<longleftrightarrow> date_matches f t \<and> date_matches g t"
  by (cases f; cases g; cases t) (auto simp: I64_MAX_def I64_MIN_def)

lemma wrap_i64_id: "i64_ok x \<Longrightarrow> wrap_i64 x = x"
  by (simp add: wrap_i64_def i64_ok_def I64_MIN_def I64_MAX_def)

section \<open>Calendar periods\<close>

text \<open>The month of a local day, counted from January of year 0.\<close>

definition month_of :: "i64 \<Rightarrow> int" where
  "month_of d = (case civil d of (year, month, _) \<Rightarrow> 12 * year + int month - 1)"

definition year_of :: "i64 \<Rightarrow> int" where "year_of d = fst (civil d)"

lemma civil_bounds:
  assumes "civil d = (y, m, k)"
  shows "1 \<le> m" "m \<le> 12" "1 \<le> k" "k \<le> 31"
  using civil_valid[of "d - DAYS_1601_TO_1970" y m k] assms days_in_month_le[of y m]
  by (auto simp: valid_date_def civil_def)

lemma local_day_le:
  assumes "local_day y m k = Some f" "valid_date y m k"
  shows "f \<le> d \<longleftrightarrow> date_key (y, m, k) \<le> date_key (civil d)"
  using assms days_le_iff[OF assms(2), of "d - DAYS_1601_TO_1970"]
  by (auto simp: local_day_def civil_def split: if_splits)

lemma local_day_month:
  assumes "local_day y m 1 = Some f" "1 \<le> m" "m \<le> 12"
  shows "f \<le> d \<longleftrightarrow> 12 * y + int m - 1 \<le> month_of d"
proof -
  obtain y' m' k where c: "civil d = (y', m', k)" by (cases "civil d")
  have "valid_date y m 1" using assms by (simp add: valid_date_def days_in_month_def)
  then have "f \<le> d \<longleftrightarrow> (12 * y + int m) * 32 + 1 \<le> (12 * y' + int m') * 32 + int k" using local_day_le assms(1) c by simp
  moreover have "a * 32 + 1 \<le> b * 32 + int k \<longleftrightarrow> a \<le> b" for a b :: int using civil_bounds(3,4)[OF c] by (auto simp: le_less)
  ultimately have "f \<le> d \<longleftrightarrow> 12 * y + int m \<le> 12 * y' + int m'" by (simp only:)
  then show ?thesis by (simp add: month_of_def c) linarith
qed

lemma year_month_of: "year_of d = month_of d div 12"
proof -
  obtain y m k where c: "civil d = (y, m, k)" by (cases "civil d")
  show ?thesis using civil_bounds[OF c] by (simp add: year_of_def month_of_def c)
qed

lemma le_zdiv:
  assumes "0 < k"
  shows "q \<le> x div k \<longleftrightarrow> k * q \<le> (x::int)"
proof
  assume "q \<le> x div k"
  then have "k * q \<le> k * (x div k)" using assms by simp
  also have "\<dots> \<le> x" using assms pos_mod_sign[of k x] mult_div_mod_eq[of k x] by linarith
  finally show "k * q \<le> x" .
next
  assume "k * q \<le> x"
  then have "(k * q) div k \<le> x div k" using assms by (rule zdiv_mono1)
  then show "q \<le> x div k" using assms by simp
qed

lemma div_7_eq: "7 * q + w \<le> d \<and> d < 7 * q + w + 7 \<longleftrightarrow> (d - w) div 7 = (q::int)"
  using le_zdiv[of 7 q "d - w"] le_zdiv[of 7 "q + 1" "d - w"] by auto

lemma local_day_year: "local_day y 1 1 = Some f \<Longrightarrow> f \<le> d \<longleftrightarrow> y \<le> year_of d"
  using local_day_month[of y 1 f d] by (simp add: year_month_of le_zdiv)

lemma local_day_date:
  assumes "local_day y m k = Some f" "valid_date y m k"
  shows "f \<le> d \<and> d < f + 1 \<longleftrightarrow> civil d = (y, m, k)"
proof -
  have "civil f = (y, m, k)" using assms civil_of_days by (auto simp: local_day_def civil_def split: if_splits)
  moreover have "civil a = civil b \<Longrightarrow> a = b" for a b
    using date_key_le[of "a - DAYS_1601_TO_1970" "b - DAYS_1601_TO_1970"] date_key_le[of "b - DAYS_1601_TO_1970" "a - DAYS_1601_TO_1970"]
    by (simp add: civil_def)
  ultimately have "civil d = (y, m, k) \<longleftrightarrow> d = f" by metis
  then show ?thesis by auto
qed

lemma add_months_Some:
  assumes "add_months y m delta = Some (y', m')" "1 \<le> m"
  shows "1 \<le> m'" "m' \<le> 12" "12 * y' + int m' - 1 = 12 * y + int m - 1 + delta"
proof -
  define i where "i = y * 12 + (int m - 1) + delta"
  have e: "y' = i div 12" "m' = nat (i mod 12) + 1" using assms(1) by (auto simp: add_months_def checked_def i_def split: if_splits)
  have "0 \<le> i mod 12" "i mod 12 < 12" by simp_all
  then show "1 \<le> m'" "m' \<le> 12" "12 * y' + int m' - 1 = 12 * y + int m - 1 + delta"
    using div_mult_mod_eq[of i 12] by (simp_all add: e nat_le_iff i_def)
qed

text \<open>The days of this or another week, month or year, said of the day itself.\<close>

definition in_period :: "ustr \<Rightarrow> i64 \<Rightarrow> i64 \<Rightarrow> nat \<Rightarrow> i64 \<Rightarrow> bool" where
  "in_period unit offset today week_start d \<longleftrightarrow>
    (if unit = ascii ''week'' then (d - int week_start) div 7 = (today - int week_start) div 7 + offset
     else if unit = ascii ''month'' then month_of d = month_of today + offset
     else year_of d = year_of today + offset)"

lemma calendar_period_days:
  assumes "calendar_period unit offset today week_start = Some (first, stop)"
  shows "first \<le> d \<and> d < stop \<longleftrightarrow> in_period unit offset today week_start d"
proof -
  consider "unit = ascii ''week''" | "unit = ascii ''month''" "unit \<noteq> ascii ''week''"
    | "unit \<noteq> ascii ''week''" "unit \<noteq> ascii ''month''" by blast
  then show ?thesis
  proof cases
    case 1
    have "first = 7 * ((today - int week_start) div 7 + offset) + int week_start" "stop = first + 7"
      using assms 1 minus_mod_eq_mult_div[of "today - int week_start" 7] by (auto simp: calendar_period_def Let_def)
    then show ?thesis using 1 div_7_eq[of "(today - int week_start) div 7 + offset" "int week_start" d]
      by (simp add: in_period_def)
  next
    case 2
    obtain y m k where c: "civil today = (y, m, k)" by (cases "civil today")
    obtain y1 m1 y2 m2 where a: "add_months y m offset = Some (y1, m1)" "add_months y1 m1 1 = Some (y2, m2)"
      "local_day y1 m1 1 = Some first" "local_day y2 m2 1 = Some stop"
      using assms 2 by (auto simp: calendar_period_def c split: Option.bind_splits)
    note s = add_months_Some[OF a(1) civil_bounds(1)[OF c]]
    note t = add_months_Some[OF a(2) s(1)]
    have "month_of today = 12 * y + int m - 1" by (simp add: month_of_def c)
    then show ?thesis using local_day_month[OF a(3) s(1,2), of d] local_day_month[OF a(4) t(1,2), of d] s(3) t(3) 2
      by (simp add: in_period_def) linarith
  next
    case 3
    then have "local_day (year_of today + offset) 1 1 = Some first" "local_day (year_of today + offset + 1) 1 1 = Some stop"
      using assms by (auto simp: calendar_period_def year_of_def Let_def split: Option.bind_splits)
    then have "first \<le> d \<longleftrightarrow> year_of today + offset \<le> year_of d" "stop \<le> d \<longleftrightarrow> year_of today + offset + 1 \<le> year_of d"
      by (blast dest: local_day_year)+
    then show ?thesis using 3 by (simp add: in_period_def) linarith
  qed
qed

section \<open>Dates against the clock\<close>

text \<open>
  What the theorems take from the clock. The zone answers for every wall-clock time from 1601 to the year 16000, and no
  daylight-saving change falls on a midnight: the instant it names for a midnight splits the times before it on the wall
  clock from those at or after it.
\<close>

definition zone_total :: "local_clock \<Rightarrow> bool" where
  "zone_total clock \<longleftrightarrow> (\<forall>l. 0 \<le> l \<and> l < 2 ^ 62 \<longrightarrow> (\<exists>u. lc_to_utc clock l = Some u \<and> I64_MIN < u \<and> u < I64_MAX))"

definition midnights_split :: "local_clock \<Rightarrow> bool" where
  "midnights_split clock \<longleftrightarrow> (\<forall>day u t l. lc_to_utc clock (day * DAY) = Some u \<and> lc_to_local clock t = Some l \<longrightarrow>
    (u \<le> t \<longleftrightarrow> day * DAY \<le> l))"

lemma DAY_pos: "0 < DAY" by (simp add: DAY_def SECOND_def)

lemma midnight_splits:
  assumes "zone_total clock" "midnights_split clock" "0 \<le> day" "day \<le> 5000000"
  obtains u where "midnight clock txt day = Inr u" "I64_MIN < u" "u < I64_MAX"
    "\<And>t l. lc_to_local clock t = Some l \<Longrightarrow> u \<le> t \<longleftrightarrow> day \<le> l div DAY"
proof -
  have r: "0 \<le> day * DAY" "day * DAY < 2 ^ 62" using assms(3,4) by (simp_all add: DAY_def SECOND_def)
  then obtain u where u: "lc_to_utc clock (day * DAY) = Some u" "I64_MIN < u" "u < I64_MAX"
    using assms(1) by (auto simp: zone_total_def)
  have "midnight clock txt day = Inr u"
    using r u by (simp add: midnight_def checked_def i64_ok_def I64_MIN_def I64_MAX_def ok_or_def)
  moreover have "u \<le> t \<longleftrightarrow> day \<le> l div DAY" if "lc_to_local clock t = Some l" for t l
    using assms(2) u(1) that le_zdiv[OF DAY_pos, of day l] by (simp add: midnights_split_def mult.commute)
  ultimately show thesis using that u by blast
qed

text \<open>A comparison with a period of days.\<close>

definition days_compare :: "string \<Rightarrow> (i64 \<Rightarrow> bool) \<Rightarrow> i64 \<Rightarrow> bool" where
  "days_compare op P d \<longleftrightarrow>
    (if op = ''>='' then \<exists>p. P p \<and> p \<le> d else if op = ''>'' then \<forall>p. P p \<longrightarrow> p < d
     else if op = ''<='' then \<exists>p. P p \<and> d \<le> p else if op = ''<'' then \<forall>p. P p \<longrightarrow> d < p else P d)"

definition op_filter :: "string \<Rightarrow> i64 \<Rightarrow> i64 \<Rightarrow> date_filter" where
  "op_filter op start stop =
    (if op = ''>='' then Within start I64_MAX else if op = ''>'' then Within stop I64_MAX
     else if op = ''<='' then Within I64_MIN (stop - 1) else if op = ''<'' then Within I64_MIN (start - 1)
     else Within start (stop - 1))"

lemma op_filter_matches:
  assumes P: "\<And>d. P d \<longleftrightarrow> first \<le> d \<and> d < after" "first < after"
    and u: "start \<le> t \<longleftrightarrow> first \<le> d" "stop \<le> t \<longleftrightarrow> after \<le> d" and t: "i64_ok t"
  shows "date_matches (op_filter op start stop) (Some t) \<longleftrightarrow> days_compare op P d"
proof -
  have "(\<exists>p. P p \<and> p \<le> d) \<longleftrightarrow> first \<le> d" unfolding P(1) using P(2) by (auto intro!: exI[of _ first])
  moreover have "(\<forall>p. P p \<longrightarrow> p < d) \<longleftrightarrow> after \<le> d" unfolding P(1) using P(2) by (auto dest!: spec[of _ "after - 1"])
  moreover have "(\<exists>p. P p \<and> d \<le> p) \<longleftrightarrow> d < after" unfolding P(1) using P(2) by (auto intro!: exI[of _ "after - 1"])
  moreover have "(\<forall>p. P p \<longrightarrow> d < p) \<longleftrightarrow> d < first" unfolding P(1) using P(2) by (auto dest!: spec[of _ first])
  moreover have "P d \<longleftrightarrow> start \<le> t \<and> t \<le> stop - 1" using P(1)[of d] u by linarith
  ultimately show ?thesis using u t by (simp add: op_filter_def days_compare_def i64_ok_def) linarith
qed

section \<open>The words and digits of a date\<close>

text \<open>The characters of a date: letters, digits and the hyphen.\<close>

definition date_char :: "u32 \<Rightarrow> bool" where
  "date_char c \<longleftrightarrow> is_ascii_alphabetic c \<or> is_digit c \<or> c = 0x2D"

lemma date_char_not: "date_char c \<Longrightarrow> \<not> is_whitespace c \<and> c \<noteq> 0x2E \<and> c \<notin> {0x3C, 0x3D, 0x3E}"
  unfolding date_char_def is_ascii_alphabetic_def is_digit_def is_whitespace_def
  by (auto simp: word_le_nat_alt)

lemma trim_id:
  assumes "s \<noteq> []" "\<not> is_whitespace (hd s)" "\<not> is_whitespace (last s)"
  shows "trim s = s"
proof -
  have "trim_start s = s" using assms(1,2) by (cases s) (simp_all add: trim_start_def)
  moreover have "trim_start (rev s) = rev s" using assms(1,3) by (cases s rule: rev_cases) (simp_all add: trim_start_def)
  ultimately show ?thesis by (simp add: trim_def)
qed

lemma split_once_None: "sep \<noteq> [] \<Longrightarrow> hd sep \<notin> set s \<Longrightarrow> split_once sep s = None"
  by (induction s) (auto simp: strip_prefix_def neq_Nil_conv split: option.splits)

definition date_ops :: "string list" where "date_ops = [''>='', ''<='', ''>'', ''<'', ''='']"

lemma strip_first_op:
  assumes "op \<in> set date_ops" "v \<noteq> []" "hd v \<notin> {0x3C, 0x3D, 0x3E}"
  shows "strip_first [''>='', ''<='', ''>'', ''<'', ''=''] (ascii op @ v) = Some (op, v)"
  using assms by (cases v) (auto simp: date_ops_def ascii_def strip_prefix_def)

lemma strip_first_none:
  assumes "v \<noteq> []" "hd v \<notin> {0x3C, 0x3D, 0x3E}"
  shows "strip_first [''>='', ''<='', ''>'', ''<'', ''=''] v = None"
  using assms by (cases v) (auto simp: ascii_def strip_prefix_def)

definition op_value :: "string \<Rightarrow> date_value \<Rightarrow> date_filter" where
  "op_value op v =
    (if op = ''>='' then Within (value_first v) I64_MAX
     else if op = ''>'' then Within (saturate (value_last v + 1)) I64_MAX
     else if op = ''<='' then Within I64_MIN (value_last v)
     else if op = ''<'' then Within I64_MIN (saturate (value_first v - 1))
     else alone v)"

lemma date_filter_op:
  assumes op: "op \<in> set ([] # date_ops)" and v: "v \<noteq> []" "list_all date_char v" "lowercase v \<noteq> ascii ''unknown''"
  shows "date_filter_of (ascii op @ v) clock = and_then (point clock v) (\<lambda>x. Inr (op_value op x))"
proof -
  have c: "date_char x" if "x \<in> set v" for x using v(2) that by (simp add: list_all_iff)
  have h: "hd v \<notin> {0x3C, 0x3D, 0x3E}" "\<not> is_whitespace (hd v)" "\<not> is_whitespace (last v)"
    using date_char_not[OF c[of "hd v"]] date_char_not[OF c[of "last v"]] v(1) by auto
  have ops: "x \<in> {0x3C, 0x3D, 0x3E}" if "x \<in> set (ascii op)" for x using op that by (auto simp: ascii_def date_ops_def)
  have ops': "\<not> is_whitespace x \<and> x \<noteq> 0x2E" if "x \<in> {0x3C, 0x3D, 0x3E}" for x :: u32 using that by (auto simp: is_whitespace_def)
  have "\<not> is_whitespace (hd (ascii op @ v))" using h(2) ops ops' by (cases "ascii op") auto
  then have t: "trim (ascii op @ v) = ascii op @ v" using h(3) v(1) by (intro trim_id) auto
  have "0x2E \<notin> set (ascii op @ v)" using ops ops' date_char_not[OF c] by auto
  then have dots: "split_once (ascii ''..'') (ascii op @ v) = None" by (intro split_once_None) (simp_all add: ascii_def)
  have u: "lowercase (ascii op @ v) \<noteq> ascii ''unknown''"
    using op v(3) by (auto simp: ascii_def lowercase_def lower_def date_ops_def)
  show ?thesis
  proof (cases op)
    case Nil
    then show ?thesis using t dots u strip_first_none[OF v(1) h(1)]
      by (simp add: date_filter_of_def Let_def op_value_def ascii_def)
  next
    case (Cons a as)
    then have "strip_first [''>='', ''<='', ''>'', ''<'', ''=''] (ascii op @ v) = Some (op, v)"
      using strip_first_op op v(1) h(1) by auto
    then show ?thesis using t dots u by (simp add: date_filter_of_def Let_def op_value_def)
  qed
qed

lemma op_value_period:
  assumes "I64_MIN < start" "start < I64_MAX" "I64_MIN < stop" "stop < I64_MAX"
  shows "op_value op (Period start stop) = op_filter op start stop"
proof -
  have "wrap_i64 (stop - 1) = stop - 1" using assms(3,4) by (intro wrap_i64_id) (simp add: i64_ok_def)
  moreover have "saturate stop = stop" "saturate (start - 1) = start - 1" using assms by (simp_all add: saturate_def)
  ultimately show ?thesis by (simp add: op_value_def op_filter_def)
qed

section \<open>Calendar words\<close>

lemma civil_local_day: "local_day y m k = Some f \<Longrightarrow> valid_date y m k \<Longrightarrow> civil f = (y, m, k)"
  using civil_of_days by (auto simp: local_day_def civil_def split: if_splits)

lemma valid_first: "1 \<le> m \<Longrightarrow> m \<le> 12 \<Longrightarrow> valid_date y m 1"
  by (simp add: valid_date_def days_in_month_def)

lemma local_day_1601: "local_day 1601 1 1 = Some 0"
  by (simp add: local_day_def days_from_civil_def DAYS_1601_TO_1970_def)

lemma local_day_10001: "local_day 10001 1 1 = Some 3068037"
  by (simp add: local_day_def days_from_civil_def DAYS_1601_TO_1970_def)

lemma year_of_range: "0 \<le> d \<Longrightarrow> d < 3068037 \<Longrightarrow> 1601 \<le> year_of d \<and> year_of d \<le> 10000"
  using local_day_year[OF local_day_1601, of d] local_day_year[OF local_day_10001, of d] by simp

lemma local_day_range:
  assumes "1601 \<le> y" "y \<le> 10001" "1 \<le> m" "m \<le> 12"
  obtains f where "local_day y m 1 = Some f" "0 \<le> f" "f \<le> 4000000" "civil f = (y, m, 1)"
proof -
  obtain f where f: "local_day y m 1 = Some f" using assms by (auto simp: local_day_def)
  have c: "civil f = (y, m, 1)" using civil_local_day[OF f valid_first] assms by simp
  have "0 \<le> f" using local_day_year[OF local_day_1601, of f] assms(1) by (simp add: year_of_def c)
  moreover have "local_day 10002 1 1 = Some 3068402" by (simp add: local_day_def days_from_civil_def DAYS_1601_TO_1970_def)
  then have "f < 3068402" using local_day_year[of 10002 3068402 f] assms(2) by (simp add: year_of_def c)
  ultimately show thesis using that f c by simp
qed

lemma add_months_range:
  assumes "1601 \<le> y" "y \<le> 20000" "1 \<le> m" "m \<le> 12" "-1 \<le> delta" "delta \<le> 1"
  obtains y' m' where "add_months y m delta = Some (y', m')"
  using assms that by (auto simp: add_months_def checked_def i64_ok_def I64_MIN_def I64_MAX_def)

lemma calendar_period_Some:
  assumes "unit \<in> {ascii ''week'', ascii ''month'', ascii ''year''}" "offset = 0 \<or> offset = -1"
    and today: "1000 \<le> today" "today \<le> 3000000" and "week_start \<le> 6"
  obtains first stop where "calendar_period unit offset today week_start = Some (first, stop)"
    "0 \<le> first" "first < stop" "stop \<le> 5000000"
proof -
  have y: "1603 \<le> year_of today" "year_of today \<le> 10000"
    using local_day_year[of 1603 730 today] year_of_range[of today] today
    by (simp_all add: local_day_def days_from_civil_def DAYS_1601_TO_1970_def)
  obtain y0 m0 k0 where c: "civil today = (y0, m0, k0)" by (cases "civil today")
  note b = civil_bounds[OF c]
  have y0: "1603 \<le> y0" "y0 \<le> 10000" using y by (simp_all add: year_of_def c)
  consider "unit = ascii ''week''" | "unit = ascii ''month''" "unit \<noteq> ascii ''week''"
    | "unit \<noteq> ascii ''week''" "unit \<noteq> ascii ''month''" by blast
  then show thesis
  proof cases
    case 1
    have "0 \<le> (today - int week_start) mod 7" "(today - int week_start) mod 7 < 7" by simp_all
    then show ?thesis using 1 assms(2) today
      by (intro that[of "today - (today - int week_start) mod 7 + 7 * offset" "today - (today - int week_start) mod 7 + 7 * offset + 7"])
        (auto simp: calendar_period_def Let_def)
  next
    case 2
    obtain y1 m1 where a1: "add_months y0 m0 offset = Some (y1, m1)" by (rule add_months_range[of y0 m0 offset]) (use y0 b assms(2) in auto)
    note s = add_months_Some[OF a1 b(1)]
    have y1: "1602 \<le> y1" "y1 \<le> 10000" using s y0 b(1,2) assms(2) by linarith+
    obtain y2 m2 where a2: "add_months y1 m1 1 = Some (y2, m2)" by (rule add_months_range[of y1 m1 1]) (use y1 s(1,2) in auto)
    note r = add_months_Some[OF a2 s(1)]
    have y2: "1602 \<le> y2" "y2 \<le> 10001" using r s(1,2) y1 by linarith+
    obtain f where f: "local_day y1 m1 1 = Some f" "0 \<le> f" "f \<le> 4000000" "civil f = (y1, m1, 1)"
      by (rule local_day_range[of y1 m1]) (use y1 s(1,2) in auto)
    obtain g where g: "local_day y2 m2 1 = Some g" "0 \<le> g" "g \<le> 4000000" "civil g = (y2, m2, 1)"
      by (rule local_day_range[of y2 m2]) (use y2 r(1,2) in auto)
    have "f < g" using local_day_month[OF g(1) r(1,2), of f] r(3) by (simp add: month_of_def f(4))
    then show ?thesis using 2 a1 a2 f g by (intro that[of f g]) (simp_all add: calendar_period_def c)
  next
    case 3
    have o: "1602 \<le> y0 + offset" "y0 + offset \<le> 10000" using y0 assms(2) by auto
    obtain f where f: "local_day (y0 + offset) 1 1 = Some f" "0 \<le> f" "f \<le> 4000000" "civil f = (y0 + offset, 1, 1)"
      by (rule local_day_range[of "y0 + offset" 1]) (use o in auto)
    obtain g where g: "local_day (y0 + offset + 1) 1 1 = Some g" "0 \<le> g" "g \<le> 4000000" "civil g = (y0 + offset + 1, 1, 1)"
      by (rule local_day_range[of "y0 + offset + 1" 1]) (use o in auto)
    have "f < g" using local_day_year[OF g(1), of f] by (simp add: year_of_def f(4))
    then show ?thesis using 3 f g by (intro that[of f g]) (simp_all add: calendar_period_def c Let_def)
  qed
qed

definition calendar_words :: "string list" where
  "calendar_words = [''today'', ''yesterday'', ''thisweek'', ''lastweek'', ''thismonth'', ''lastmonth'', ''thisyear'', ''lastyear'']"

definition word_days :: "string \<Rightarrow> nat \<Rightarrow> i64 \<Rightarrow> i64 \<Rightarrow> bool" where
  "word_days w week_start today d \<longleftrightarrow>
    (if w = ''today'' then d = today
     else if w = ''yesterday'' then d = today - 1
     else if w = ''thisweek'' then (d - int week_start) div 7 = (today - int week_start) div 7
     else if w = ''lastweek'' then (d - int week_start) div 7 = (today - int week_start) div 7 - 1
     else if w = ''thismonth'' then month_of d = month_of today
     else if w = ''lastmonth'' then month_of d = month_of today - 1
     else if w = ''thisyear'' then year_of d = year_of today
     else year_of d = year_of today - 1)"

lemma in_period_word:
  assumes "pre = ''this'' \<and> offset = 0 \<or> pre = ''last'' \<and> offset = -1" "unit \<in> {''week'', ''month'', ''year''}"
  shows "in_period (ascii unit) offset today week_start d \<longleftrightarrow> word_days (pre @ unit) week_start today d"
  using assms by (auto simp: in_period_def word_days_def ascii_def)

lemma point_days_period:
  assumes "pre = ''this'' \<and> offset = 0 \<or> pre = ''last'' \<and> offset = -1" "unit \<in> {''week'', ''month'', ''year''}"
  shows "point_days clock txt (ascii (pre @ unit)) = and_then (local_now clock txt) (\<lambda>(today, _).
    ok_or (calendar_period (ascii unit) offset today (lc_week_start clock)) (out_of_range txt))"
  using assms by (auto simp: point_days_def ascii_def strip_prefix_def Let_def)

lemma calendar_word_cases:
  assumes "w \<in> set calendar_words"
  obtains "w = ''today''" | "w = ''yesterday''"
    | pre unit offset where "w = pre @ unit" "pre = ''this'' \<and> offset = (0::int) \<or> pre = ''last'' \<and> offset = -1" "unit \<in> {''week'', ''month'', ''year''}"
proof -
  have "w = ''today'' \<or> w = ''yesterday'' \<or> (\<exists>unit \<in> {''week'', ''month'', ''year''}. w = ''this'' @ unit \<or> w = ''last'' @ unit)"
    using assms by (simp add: calendar_words_def)
  then show thesis using that by blast
qed

lemma point_days_word:
  assumes w: "w \<in> set calendar_words" and now: "lc_to_local clock (lc_now clock) = Some l"
    and l: "1000 \<le> l div DAY" "l div DAY \<le> 3000000" and "lc_week_start clock \<le> 6"
  obtains first stop where "point_days clock txt (ascii w) = Inr (first, stop)" "0 \<le> first" "first < stop" "stop \<le> 5000000"
    "\<And>d. word_days w (lc_week_start clock) (l div DAY) d \<longleftrightarrow> first \<le> d \<and> d < stop"
proof -
  have n: "local_now clock txt = Inr (l div DAY, l mod DAY)" by (simp add: local_now_def now ok_or_def)
  show thesis using w
  proof (cases rule: calendar_word_cases)
    case 1
    show ?thesis by (rule that[of "l div DAY" "l div DAY + 1"]) (use 1 n l in \<open>auto simp: point_days_def word_days_def\<close>)
  next
    case 2
    show ?thesis by (rule that[of "l div DAY - 1" "l div DAY"]) (use 2 n l in \<open>auto simp: point_days_def word_days_def ascii_def\<close>)
  next
    case (3 pre unit offset)
    obtain first stop where p: "calendar_period (ascii unit) offset (l div DAY) (lc_week_start clock) = Some (first, stop)"
      "0 \<le> first" "first < stop" "stop \<le> 5000000"
      by (rule calendar_period_Some[of "ascii unit" offset "l div DAY" "lc_week_start clock"]) (use 3 l assms(5) in auto)
    show ?thesis
    proof (rule that[of first stop])
      show "point_days clock txt (ascii w) = Inr (first, stop)" using point_days_period[OF 3(2,3)] n p(1) by (simp add: 3(1) ok_or_def)
      show "word_days w (lc_week_start clock) (l div DAY) d \<longleftrightarrow> first \<le> d \<and> d < stop" for d
        using calendar_period_days[OF p(1), of d] in_period_word[OF 3(2,3)] by (simp add: 3(1))
    qed (use p in auto)
  qed
qed

lemma parse_duration_no_count:
  "takeWhile is_digit (or_self (strip_prefix (ascii ''last'') low) low) = [] \<Longrightarrow> parse_duration low txt = Inr None"
  by (simp add: parse_duration_def Let_def split: option.split)

lemma parse_duration_word: "w \<in> set calendar_words \<Longrightarrow> parse_duration (ascii w) txt = Inr None"
  by (rule parse_duration_no_count)
    (auto simp: calendar_words_def ascii_def strip_prefix_def is_digit_def or_self_def)

lemma lower_date_char: "date_char (lower c) \<Longrightarrow> date_char c"
  by (auto simp: date_char_def lower_def is_ascii_alphabetic_def is_digit_def word_le_nat_alt split: if_splits)

lemma lowercase_date_chars: "list_all date_char (lowercase v) \<Longrightarrow> list_all date_char v"
  by (induction v) (auto simp: lowercase_def dest: lower_date_char)

text \<open>From the days a value names to its filter, whatever the operator before it.\<close>

lemma date_filter_days:
  assumes zone: "zone_total clock" "midnights_split clock"
    and op: "op \<in> set ([] # date_ops)" and v: "lowercase v = low" "low \<noteq> []" "list_all date_char low" "low \<noteq> ascii ''unknown''"
    and dur: "parse_duration low v = Inr None" and days: "point_days clock v low = Inr (first, stop)"
    and r: "0 \<le> first" "first < stop" "stop \<le> 5000000"
    and P: "\<And>d. P d \<longleftrightarrow> first \<le> d \<and> d < stop"
  obtains f where "date_filter_of (ascii op @ v) clock = Inr f"
    "\<And>t l. i64_ok t \<Longrightarrow> lc_to_local clock t = Some l \<Longrightarrow> date_matches f (Some t) \<longleftrightarrow> days_compare op P (l div DAY)"
proof -
  have vv: "v \<noteq> []" "list_all date_char v" using v lowercase_date_chars by (auto simp: lowercase_def)
  then have c: "\<not> is_whitespace (hd v)" "\<not> is_whitespace (last v)"
    using date_char_not by (simp_all add: list_all_iff)
  obtain a where a: "midnight clock v first = Inr a" "I64_MIN < a" "a < I64_MAX"
    "\<And>t l. lc_to_local clock t = Some l \<Longrightarrow> a \<le> t \<longleftrightarrow> first \<le> l div DAY"
    by (rule midnight_splits[OF zone, of first v]) (use r in auto)
  obtain b where b: "midnight clock v stop = Inr b" "I64_MIN < b" "b < I64_MAX"
    "\<And>t l. lc_to_local clock t = Some l \<Longrightarrow> b \<le> t \<longleftrightarrow> stop \<le> l div DAY"
    by (rule midnight_splits[OF zone, of stop v]) (use r in auto)
  have "point clock v = Inr (Period a b)"
    using trim_id[OF vv(1) c] v(1) dur days a(1) b(1) by (simp add: point_def Let_def)
  then have "date_filter_of (ascii op @ v) clock = Inr (op_filter op a b)"
    using date_filter_op[OF op vv, of clock] v(1,4) op_value_period[OF a(2,3) b(2,3)] by simp
  then show thesis using that op_filter_matches[OF P r(2) a(4) b(4)] by blast
qed


definition fixed_clock :: "i64 \<Rightarrow> i64 \<Rightarrow> nat \<Rightarrow> local_clock" where
  "fixed_clock now offset week_start =
    \<lparr>lc_now = now, lc_to_local = (\<lambda>t. checked (t + offset)), lc_to_utc = (\<lambda>l. checked (l - offset)), lc_week_start = week_start\<rparr>"

lemma fixed_clock_zone:
  assumes "\<bar>offset\<bar> \<le> DAY"
  shows "zone_total (fixed_clock now offset ws)" "midnights_split (fixed_clock now offset ws)"
  using assms by (auto simp: zone_total_def midnights_split_def fixed_clock_def checked_def i64_ok_def I64_MIN_def I64_MAX_def
    DAY_def SECOND_def split: if_splits)


section \<open>Written dates\<close>

text \<open>A number in decimal with leading zeros, and the texts \<open>YYYY\<close>, \<open>YYYY-MM\<close> and \<open>YYYY-MM-DD\<close>.\<close>

definition digit_char :: "nat \<Rightarrow> u32" where "digit_char k = word_of_nat (0x30 + k mod 10)"

fun pad :: "nat \<Rightarrow> nat \<Rightarrow> ustr" where
  "pad 0 k = []"
| "pad (Suc n) k = pad n (k div 10) @ [digit_char k]"

fun date_text :: "nat list \<Rightarrow> ustr" where
  "date_text [y, m] = pad 4 y @ 0x2D # pad 2 m"
| "date_text [y, m, k] = pad 4 y @ 0x2D # pad 2 m @ 0x2D # pad 2 k"
| "date_text ns = pad 4 (hd ns)"

lemma length_pad [simp]: "length (pad n k) = n"
  by (induction n k rule: pad.induct) simp_all

lemma unat_digit [simp]: "unat (digit_char k) = 0x30 + k mod 10"
proof -
  have "k mod 10 < 10" by simp
  then have "0x30 + k mod 10 < 2 ^ 32" by simp
  then show ?thesis unfolding digit_char_def by (simp only: unat_of_nat len_bit0 len_num1) simp
qed

lemma is_digit_digit [simp]: "is_digit (digit_char k)"
  using mod_less_divisor[of 10 k] by (simp add: is_digit_def word_le_nat_alt less_Suc_eq_le)

lemma pad_digits: "c \<in> set (pad n k) \<Longrightarrow> is_digit c"
  by (induction n k rule: pad.induct) auto

lemma digits_value_append: "digits_value acc (a @ b) = do { v \<leftarrow> digits_value acc a; digits_value v b }"
  by (induction a arbitrary: acc) auto

lemma digits_value_pad: "k < 10 ^ n \<Longrightarrow> digits_value 0 (pad n k) = Some k"
proof (induction n k rule: pad.induct)
  case (2 n k)
  then have "k div 10 < 10 ^ n" by (simp add: less_mult_imp_div_less mult.commute)
  then show ?case using 2 by (simp add: digits_value_append)
qed simp

lemma date_number_pad:
  assumes "0 < n" "n \<le> 4" "k < 10 ^ n"
  shows "date_number n (pad n k) = Some k"
proof -
  have "(10::nat) ^ n \<le> 10 ^ 4" using assms(2) by (intro power_increasing) simp_all
  then have k: "k \<le> 4294967295" using assms(3) by simp
  obtain c s where p: "pad n k = c # s" using assms(1) by (cases "pad n k") (auto dest: arg_cong[where f = length])
  then have "c \<noteq> 0x2B" using pad_digits[of c n k] by (auto simp: is_digit_def)
  then have "parse_unsigned (2 ^ 32 - 1) (pad n k) = Some k"
    using digits_value_pad[OF assms(3)] p k by (simp add: parse_unsigned_def)
  then show ?thesis using pad_digits by (simp add: date_number_def list_all_iff)
qed

lemma pad_no_hyphen: "c \<in> set (pad n k) \<Longrightarrow> c \<noteq> 0x2D"
  using pad_digits[of c n k] by (auto simp: is_digit_def)

lemma split_date_text:
  "split_on (\<lambda>c. c = 0x2D) (date_text [y]) = [pad 4 y]"
  "split_on (\<lambda>c. c = 0x2D) (date_text [y, m]) = [pad 4 y, pad 2 m]"
  "split_on (\<lambda>c. c = 0x2D) (date_text [y, m, k]) = [pad 4 y, pad 2 m, pad 2 k]"
proof -
  have one: "split_on (\<lambda>c. c = 0x2D) (pad n j) = [pad n j]" for n j
    using pad_no_hyphen by (intro split_on_no_sep) blast
  have more: "split_on (\<lambda>c. c = 0x2D) (pad n j @ 0x2D # s) = pad n j # split_on (\<lambda>c. c = 0x2D) s" for n j s
    using pad_no_hyphen by (intro split_on_append) blast+
  show "split_on (\<lambda>c. c = 0x2D) (date_text [y]) = [pad 4 y]"
    "split_on (\<lambda>c. c = 0x2D) (date_text [y, m]) = [pad 4 y, pad 2 m]"
    "split_on (\<lambda>c. c = 0x2D) (date_text [y, m, k]) = [pad 4 y, pad 2 m, pad 2 k]"
    by (simp_all only: date_text.simps list.sel one more)
qed

text \<open>The numbers of a date with the widths of its text, those of a real date, and the days they name.\<close>

fun date_widths :: "nat list \<Rightarrow> bool" where
  "date_widths (y # ns) \<longleftrightarrow> y < 10000 \<and> length ns \<le> 2 \<and> list_all (\<lambda>n. n < 100) ns"
| "date_widths [] \<longleftrightarrow> False"

fun real_date :: "nat list \<Rightarrow> bool" where
  "real_date [y] \<longleftrightarrow> True"
| "real_date [y, m] \<longleftrightarrow> 1 \<le> m \<and> m \<le> 12"
| "real_date [y, m, k] \<longleftrightarrow> valid_date (int y) m k"
| "real_date _ \<longleftrightarrow> False"

fun named_day :: "nat list \<Rightarrow> i64 \<Rightarrow> bool" where
  "named_day [y] d \<longleftrightarrow> year_of d = int y"
| "named_day [y, m] d \<longleftrightarrow> month_of d = 12 * int y + int m - 1"
| "named_day [y, m, k] d \<longleftrightarrow> civil d = (int y, m, k)"
| "named_day _ d \<longleftrightarrow> False"

lemma date_widths_cases:
  assumes "date_widths ns"
  obtains y where "ns = [y]" "y < 10000" | y m where "ns = [y, m]" "y < 10000" "m < 100"
    | y m k where "ns = [y, m, k]" "y < 10000" "m < 100" "k < 100"
proof -
  obtain y r where "ns = y # r" using assms by (cases ns) auto
  then show thesis using assms that by (cases r; cases "tl r"; cases "tl (tl r)") auto
qed

lemma written_date_unreal:
  assumes "date_widths ns" "\<not> real_date ns"
  shows "written_date (date_text ns) = Some (not_a_date (date_text ns))"
  using assms(1)
proof (cases rule: date_widths_cases)
  case 1
  then show ?thesis using assms(2) by simp
next
  case (2 y m)
  then show ?thesis using assms(2) date_number_pad[of 4 y] date_number_pad[of 2 m]
    by (auto simp: written_date_def split_date_text simp del: date_text.simps)
next
  case (3 y m k)
  then show ?thesis using assms(2) date_number_pad[of 4 y] date_number_pad[of 2 m] date_number_pad[of 2 k]
    by (auto simp: written_date_def split_date_text valid_date_def simp del: date_text.simps)
qed

lemma written_date_real:
  assumes "date_widths ns" "real_date ns" "1601 \<le> hd ns"
  obtains first stop where "written_date (date_text ns) = Some (Inr (first, stop))" "0 \<le> first" "first < stop" "stop \<le> 5000000"
    "\<And>d. named_day ns d \<longleftrightarrow> first \<le> d \<and> d < stop"
  using assms(1)
proof (cases rule: date_widths_cases)
  case (1 y)
  obtain f where f: "local_day (int y) 1 1 = Some f" "0 \<le> f" "f \<le> 4000000" "civil f = (int y, 1, 1)"
    by (rule local_day_range[of "int y" 1]) (use 1 assms in auto)
  obtain g where g: "local_day (int y + 1) 1 1 = Some g" "0 \<le> g" "g \<le> 4000000" "civil g = (int y + 1, 1, 1)"
    by (rule local_day_range[of "int y + 1" 1]) (use 1 assms in auto)
  have "written_date (date_text ns) = Some (Inr (f, g))"
    using 1 f g date_number_pad[of 4 y] by (simp add: written_date_def split_date_text Let_def del: date_text.simps)
  moreover have "f < g" using local_day_year[OF g(1), of f] by (simp add: year_of_def f(4))
  moreover have "named_day ns d \<longleftrightarrow> f \<le> d \<and> d < g" for d
    using local_day_year[OF f(1), of d] local_day_year[OF g(1), of d] 1(1) by auto
  ultimately show thesis using that f g by force
next
  case (2 y m)
  have m: "1 \<le> m" "m \<le> 12" using assms(2) 2 by auto
  obtain y2 m2 where a: "add_months (int y) m 1 = Some (y2, m2)"
    by (rule add_months_range[of "int y" m 1]) (use 2 m assms in auto)
  note r = add_months_Some[OF a m(1)]
  obtain f where f: "local_day (int y) m 1 = Some f" "0 \<le> f" "f \<le> 4000000" "civil f = (int y, m, 1)"
    by (rule local_day_range[of "int y" m]) (use 2 m assms in auto)
  have y2: "1601 \<le> y2" "y2 \<le> 10001" using r m 2 assms(3) by auto
  obtain g where g: "local_day y2 m2 1 = Some g" "0 \<le> g" "g \<le> 4000000" "civil g = (y2, m2, 1)"
    by (rule local_day_range[of y2 m2]) (use y2 r in auto)
  have "written_date (date_text ns) = Some (Inr (f, g))"
    using 2 m a f g date_number_pad[of 4 y] date_number_pad[of 2 m] by (simp add: written_date_def split_date_text Let_def del: date_text.simps)
  moreover have "f < g" using local_day_month[OF g(1) r(1,2), of f] r(3) by (simp add: month_of_def f(4))
  moreover have "named_day ns d \<longleftrightarrow> f \<le> d \<and> d < g" for d
    using local_day_month[OF f(1) m, of d] local_day_month[OF g(1) r(1,2), of d] r(3) 2(1) by auto
  ultimately show thesis using that f g by force
next
  case (3 y m k)
  have v: "valid_date (int y) m k" using assms(2) 3 by simp
  obtain f where f: "local_day (int y) m k = Some f" using 3 by (auto simp: local_day_def)
  have "0 \<le> f" "f < 3068037"
    using local_day_year[OF local_day_1601, of f] local_day_year[OF local_day_10001, of f] civil_local_day[OF f v] 3 assms(3)
    by (simp_all add: year_of_def)
  moreover have "written_date (date_text ns) = Some (Inr (f, f + 1))"
    using 3 v f date_number_pad[of 4 y] date_number_pad[of 2 m] date_number_pad[of 2 k]
    by (auto simp: written_date_def split_date_text valid_date_def Let_def simp del: date_text.simps)
  moreover have "named_day ns d \<longleftrightarrow> f \<le> d \<and> d < f + 1" for d using local_day_date[OF f v, of d] 3(1) by simp
  ultimately show thesis using that by force
qed

lemma date_text_shape:
  assumes "date_widths ns"
  obtains c s r where "date_text ns = c # s" "is_digit c" "date_text ns = pad 4 (hd ns) @ r" "r = [] \<or> hd r = 0x2D \<and> is_digit (last r)"
proof -
  obtain r where r: "date_text ns = pad 4 (hd ns) @ r" "r = [] \<or> hd r = 0x2D \<and> is_digit (last r)"
    using assms by (cases rule: date_widths_cases) (auto simp: numeral_2_eq_2)
  obtain c s where c: "pad 4 (hd ns) = c # s" by (cases "pad 4 (hd ns)") (auto dest: arg_cong[where f = length])
  then have "is_digit c" using pad_digits[of c 4 "hd ns"] by simp
  then show thesis using that r c by simp
qed

lemma date_text_chars: "date_widths ns \<Longrightarrow> list_all date_char (date_text ns)"
  by (cases ns rule: date_widths_cases) (auto simp: list_all_iff date_char_def dest: pad_digits)

lemma lower_digit: "is_digit c \<Longrightarrow> lower c = c"
  by (auto simp: is_digit_def lower_def word_le_nat_alt)

lemma lowercase_date_text: "date_widths ns \<Longrightarrow> lowercase (date_text ns) = date_text ns"
  unfolding lowercase_def
  by (cases ns rule: date_widths_cases) (auto simp: lower_def intro!: map_idI lower_digit dest: pad_digits)

lemma digit_prefixes:
  assumes "is_digit c"
  shows "strip_prefix (ascii ''this'') (c # s) = None" "strip_prefix (ascii ''last'') (c # s) = None"
    "c # s \<noteq> ascii ''today''" "c # s \<noteq> ascii ''yesterday''" "c # s \<noteq> ascii ''unknown''"
  using assms by (auto simp: strip_prefix_def ascii_def is_digit_def)

lemma seconds_of_hyphen: "u = [] \<or> hd u = 0x2D \<Longrightarrow> seconds_of u = None"
  by (cases u) (simp_all add: seconds_of_def ascii_def)

lemma strip_s_digit: "u = [] \<or> is_digit (last u) \<Longrightarrow> or_self (strip_suffix (ascii ''s'') u) u = u"
  by (cases u rule: rev_cases) (auto simp: or_self_def strip_suffix_def strip_prefix_def ascii_def is_digit_def)

lemma parse_duration_date_text:
  assumes "date_widths ns"
  shows "parse_duration (date_text ns) txt = Inr None"
proof -
  obtain c s r where t: "date_text ns = c # s" "is_digit c" "date_text ns = pad 4 (hd ns) @ r" "r = [] \<or> hd r = 0x2D \<and> is_digit (last r)"
    by (rule date_text_shape[OF assms])
  have l: "or_self (strip_prefix (ascii ''last'') (date_text ns)) (date_text ns) = date_text ns"
    using digit_prefixes(2)[OF t(2), of s] t(1) by (simp add: or_self_def)
  have "dropWhile is_digit r = r" using t(4) by (cases r) (auto simp: is_digit_def)
  then have "dropWhile is_digit (date_text ns) = r" using pad_digits by (subst t(3)) (simp add: dropWhile_append2)
  moreover have "seconds_of (or_self (strip_suffix (ascii ''s'') r) r) = None" using t(4) strip_s_digit[of r] seconds_of_hyphen[of r] by auto
  ultimately show ?thesis unfolding parse_duration_def l by (simp add: Let_def)
qed

lemma point_days_date_text:
  assumes "date_widths ns" "written_date (date_text ns) = Some w"
  shows "point_days clock txt (date_text ns) = w"
proof -
  obtain c s r where t: "date_text ns = c # s" "is_digit c" by (rule date_text_shape[OF assms(1)])
  show ?thesis using digit_prefixes[OF t(2), of s] assms(2) by (simp add: point_days_def Let_def t(1) ok_or_def)
qed


lemma pad_2: "pad 2 k = [digit_char (k div 10), digit_char k]"
  by (simp add: numeral_2_eq_2)

lemma pad_4: "pad 4 k = pad 2 (k div 10 div 10) @ [digit_char (k div 10), digit_char k]"
proof -
  have "4 = Suc (Suc 2)" by simp
  then show ?thesis by (simp only: pad.simps append_assoc append_Cons append_Nil)
qed


end
