(* ===== verification/Query_Parse.thy ===== *)
theory Query_Parse
  imports Glob Dates
begin

text \<open>
  The query language (\<open>query/parse.rs\<close>): tokens, functions, sizes and the parsed query. The Unicode tables of case
  folding and the clock are parameters.
\<close>

section \<open>Parsed queries\<close>

datatype kind = KFile | KFolder

record size_range =
  sr_min :: nat
  sr_max :: nat

definition size_contains :: "size_range \<Rightarrow> nat \<Rightarrow> bool" where
  "size_contains r n \<longleftrightarrow> sr_min r \<le> n \<and> n \<le> sr_max r"

record filters =
  fl_ext :: "u8 list list option"
  fl_size :: "size_range option"
  fl_kind :: "kind option"
  fl_date :: "date_filter option"

record parsed_query =
  q_name_terms :: "u8 list list"
  q_path_terms :: "u8 list list"
  q_wildcards :: "wildcard list"
  q_path_wildcards :: "wildcard list"
  q_filters :: filters
  q_match_case :: bool

definition is_text_empty :: "parsed_query \<Rightarrow> bool" where
  "is_text_empty q \<longleftrightarrow> q_name_terms q = [] \<and> q_path_terms q = [] \<and> q_wildcards q = [] \<and> q_path_wildcards q = []"

definition MAX_QUERY_TERMS :: nat where "MAX_QUERY_TERMS = 256"

definition term_count :: "parsed_query \<Rightarrow> nat" where
  "term_count q = length (q_name_terms q) + length (q_path_terms q) + length (q_wildcards q) + length (q_path_wildcards q) +
    (case fl_ext (q_filters q) of Some exts \<Rightarrow> length exts | None \<Rightarrow> 0)"

definition case_directive :: "ustr \<Rightarrow> bool option" where
  "case_directive txt =
    (let low = lowercase txt in
     if low = ascii ''case:'' \<or> low = ascii ''case:1'' then Some True
     else if low = ascii ''case:0'' then Some False else None)"

definition match_path_directive :: "ustr \<Rightarrow> bool option" where
  "match_path_directive txt =
    (let low = lowercase txt in
     if low = ascii ''matchpath:'' \<or> low = ascii ''matchpath:1'' then Some True
     else if low = ascii ''matchpath:0'' then Some False else None)"

section \<open>Tokens\<close>

text \<open>The place of a function's colon counts code points, as the text is one list of them.\<close>

record token =
  tok_text :: ustr
  tok_quoted :: bool
  tok_func_colon :: "nat option"

fun tokenize_loop :: "ustr \<Rightarrow> token list \<Rightarrow> ustr \<Rightarrow> bool \<Rightarrow> bool \<Rightarrow> nat option \<Rightarrow> bool \<Rightarrow> query_error + token list" where
  "tokenize_loop [] tokens cur in_quotes token_quoted func_colon has_content =
    Inr (if has_content then tokens @ [\<lparr>tok_text = cur, tok_quoted = token_quoted, tok_func_colon = func_colon\<rparr>] else tokens)"
| "tokenize_loop (ch # input) tokens cur in_quotes token_quoted func_colon has_content =
    (if in_quotes then
       (if ch = 0x22 then tokenize_loop input tokens cur False token_quoted func_colon has_content
        else tokenize_loop input tokens (cur @ [ch]) True token_quoted func_colon has_content)
     else if ch = 0x22 then tokenize_loop input tokens cur True True func_colon True
     else if ch = 0x7C \<or> ch = 0x21 then Inl (UnsupportedOperator ch)
     else if is_whitespace ch then
       (if has_content
        then tokenize_loop input (tokens @ [\<lparr>tok_text = cur, tok_quoted = token_quoted, tok_func_colon = func_colon\<rparr>])
          [] False False None False
        else tokenize_loop input tokens cur False token_quoted func_colon False)
     else tokenize_loop input tokens (cur @ [ch]) False token_quoted
       (if ch = 0x3A \<and> \<not> token_quoted \<and> func_colon = None then Some (length cur) else func_colon) True)"

definition tokenize :: "ustr \<Rightarrow> query_error + token list" where
  "tokenize input = tokenize_loop input [] [] False False None False"

section \<open>Sizes\<close>

definition U64_MAX :: nat where "U64_MAX = 2 ^ 64 - 1"
definition KB :: nat where "KB = 1024"
definition MB :: nat where "MB = 1024 * KB"
definition GB :: nat where "GB = 1024 * MB"
definition TB :: nat where "TB = 1024 * GB"

fun strip_unit :: "(string \<times> nat) list \<Rightarrow> ustr \<Rightarrow> ustr \<times> nat" where
  "strip_unit [] s = (s, 1)"
| "strip_unit ((u, mult) # us) s = (case strip_suffix (ascii u) s of Some n \<Rightarrow> (n, mult) | None \<Rightarrow> strip_unit us s)"

definition parse_bytes :: "ustr \<Rightarrow> nat option" where
  "parse_bytes s =
    (let low = lowercase (trim s);
         (num, mult) = strip_unit [(''tb'', TB), (''gb'', GB), (''mb'', MB), (''kb'', KB), (''b'', 1)] low
     in do {
       val \<leftarrow> parse_unsigned U64_MAX (trim num);
       if val * mult \<le> U64_MAX then Some (val * mult) else None
     })"

definition named_size :: "ustr \<Rightarrow> size_range option" where
  "named_size low =
    (if low = ascii ''empty'' then Some \<lparr>sr_min = 0, sr_max = 0\<rparr>
     else if low = ascii ''tiny'' then Some \<lparr>sr_min = 0, sr_max = 10 * KB\<rparr>
     else if low = ascii ''small'' then Some \<lparr>sr_min = 10 * KB, sr_max = 100 * KB\<rparr>
     else if low = ascii ''medium'' then Some \<lparr>sr_min = 100 * KB, sr_max = MB\<rparr>
     else if low = ascii ''large'' then Some \<lparr>sr_min = MB, sr_max = 16 * MB\<rparr>
     else if low = ascii ''huge'' then Some \<lparr>sr_min = 16 * MB, sr_max = 128 * MB\<rparr>
     else if low = ascii ''gigantic'' then Some \<lparr>sr_min = 128 * MB, sr_max = U64_MAX\<rparr>
     else None)"

definition malformed_size :: "ustr \<Rightarrow> query_error" where
  "malformed_size detail = Malformed ''size:'' detail"

definition size_compare :: "string \<Rightarrow> nat \<Rightarrow> size_range" where
  "size_compare op n =
    (if op = ''>='' then \<lparr>sr_min = n, sr_max = U64_MAX\<rparr>
     else if op = ''>'' then \<lparr>sr_min = min (n + 1) U64_MAX, sr_max = U64_MAX\<rparr>
     else if op = ''<='' then \<lparr>sr_min = 0, sr_max = n\<rparr>
     else \<lparr>sr_min = 0, sr_max = n - 1\<rparr>)"

definition parse_size :: "ustr \<Rightarrow> query_error + size_range" where
  "parse_size val =
    (let v = trim val in
     case named_size (lowercase v) of
       Some r \<Rightarrow> Inr r
     | None \<Rightarrow>
         (case split_once (ascii ''..'') v of
            Some (lo, hi) \<Rightarrow>
              and_then (if trim lo = [] then Inr 0 else ok_or (parse_bytes lo) (malformed_size lo)) (\<lambda>mn.
                and_then (if trim hi = [] then Inr U64_MAX else ok_or (parse_bytes hi) (malformed_size hi)) (\<lambda>mx.
                  Inr \<lparr>sr_min = mn, sr_max = mx\<rparr>))
          | None \<Rightarrow>
              (case strip_first [''>='', ''<='', ''>'', ''<''] v of
                 Some (op, rest) \<Rightarrow> and_then (ok_or (parse_bytes rest) (malformed_size rest)) (\<lambda>n. Inr (size_compare op n))
               | None \<Rightarrow>
                   and_then (ok_or (parse_bytes (or_self (strip_prefix (ascii ''='') v) v)) (malformed_size v)) (\<lambda>n.
                     Inr \<lparr>sr_min = n, sr_max = n\<rparr>))))"

section \<open>Queries\<close>

definition push_text_term :: "(u8 list \<Rightarrow> u8 list) \<Rightarrow> ustr \<Rightarrow> bool \<Rightarrow> bool \<Rightarrow> parsed_query \<Rightarrow> parsed_query" where
  "push_text_term fold_term txt quoted as_path q =
    (if txt = [] then q
     else
       (let is_path = as_path \<or> 0x5C \<in> set txt \<or> 0x2F \<in> set txt;
            wild = (0x2A \<in> set txt \<or> 0x3F \<in> set txt) \<and> (is_path \<or> \<not> quoted)
        in if is_path then
             (let path = fold_term (encode_all (map (\<lambda>c. if c = 0x2F then 0x5C else c) txt)) in
              if wild then q\<lparr>q_path_wildcards := q_path_wildcards q @ [wildcard_compile path]\<rparr>
              else q\<lparr>q_path_terms := q_path_terms q @ [path]\<rparr>)
           else if wild then q\<lparr>q_wildcards := q_wildcards q @ [wildcard_compile (fold_term (encode_all txt))]\<rparr>
           else q\<lparr>q_name_terms := q_name_terms q @ [fold_term (encode_all txt)]\<rparr>))"

definition parse_exts :: "unicode \<Rightarrow> ustr \<Rightarrow> u8 list list" where
  "parse_exts U val =
    map (\<lambda>s. fold_name U (encode_all (dropWhile (\<lambda>c. c = 0x2E) s)))
      (filter (\<lambda>s. s \<noteq> []) (split_on (\<lambda>c. c = 0x3B) val))"

definition update_filters :: "(filters \<Rightarrow> filters) \<Rightarrow> parsed_query \<Rightarrow> parsed_query" where
  "update_filters f q = q\<lparr>q_filters := f (q_filters q)\<rparr>"

text \<open>One token of the loop of \<open>parse\<close>.\<close>

definition parse_token ::
  "unicode \<Rightarrow> local_clock option \<Rightarrow> (u8 list \<Rightarrow> u8 list) \<Rightarrow> bool \<Rightarrow> token \<Rightarrow> parsed_query \<Rightarrow> query_error + parsed_query" where
  "parse_token U clock fold_term match_path tok q =
    (let txt = tok_text tok;
         plain = Inr (push_text_term fold_term txt (tok_quoted tok) match_path q)
     in case tok_func_colon tok of
          None \<Rightarrow> plain
        | Some colon \<Rightarrow>
            if case_directive txt \<noteq> None \<or> match_path_directive txt \<noteq> None then Inr q
            else
              (let func = lowercase (take colon txt);
                   val = drop (colon + 1) txt;
                   text_term = (\<lambda>as_path q. Inr (push_text_term fold_term val (tok_quoted tok) as_path q))
               in if func = ascii ''ext'' then
                    (let exts = parse_exts U val in
                     Inr (if exts \<noteq> [] then update_filters (fl_ext_update (\<lambda>_. Some exts)) q else q))
                  else if func = ascii ''size'' then
                    and_then (parse_size val) (\<lambda>r. Inr (update_filters (fl_size_update (\<lambda>_. Some r)) q))
                  else if func \<in> set [ascii ''dm'', ascii ''datemodified'', ascii ''date-modified''] then
                    and_then (ok_or clock NoClock) (\<lambda>c. and_then (date_filter_of val c) (\<lambda>date.
                      Inr (update_filters (fl_date_update (\<lambda>d. Some (case d of None \<Rightarrow> date | Some d \<Rightarrow> date_and d date))) q)))
                  else if func = ascii ''path'' then text_term True q
                  else if func = ascii ''file'' then text_term match_path (update_filters (fl_kind_update (\<lambda>_. Some KFile)) q)
                  else if func = ascii ''folder'' \<or> func = ascii ''dir'' then
                    text_term match_path (update_filters (fl_kind_update (\<lambda>_. Some KFolder)) q)
                  else if func = ascii ''matchpath'' then
                    Inl (Malformed ''matchpath:'' (ascii ''expected matchpath:, matchpath:0 or matchpath:1, got matchpath:'' @ val))
                  else if func = ascii ''case'' then
                    Inl (Malformed ''case:'' (ascii ''expected case:, case:0 or case:1, got case:'' @ val))
                  else if length (encode_all func) = 1 then plain
                  else if 1 < length (encode_all func) \<and> list_all is_ascii_alphabetic func
                    then Inl (UnknownFunction (take (colon + 1) txt))
                  else plain))"

fun parse_tokens ::
  "unicode \<Rightarrow> local_clock option \<Rightarrow> (u8 list \<Rightarrow> u8 list) \<Rightarrow> bool \<Rightarrow> token list \<Rightarrow> parsed_query \<Rightarrow> query_error + parsed_query" where
  "parse_tokens U clock fold_term match_path [] q = Inr q"
| "parse_tokens U clock fold_term match_path (tok # toks) q =
    and_then (parse_token U clock fold_term match_path tok q) (parse_tokens U clock fold_term match_path toks)"

definition last_directive :: "(ustr \<Rightarrow> bool option) \<Rightarrow> token list \<Rightarrow> bool \<Rightarrow> bool" where
  "last_directive directive tokens fallback =
    (case rev (List.map_filter (\<lambda>t. directive (tok_text t)) (filter (\<lambda>t. tok_func_colon t \<noteq> None) tokens)) of
       [] \<Rightarrow> fallback | b # _ \<Rightarrow> b)"

definition empty_query :: "bool \<Rightarrow> parsed_query" where
  "empty_query match_case =
    \<lparr>q_name_terms = [], q_path_terms = [], q_wildcards = [], q_path_wildcards = [],
     q_filters = \<lparr>fl_ext = None, fl_size = None, fl_kind = None, fl_date = None\<rparr>, q_match_case = match_case\<rparr>"

definition fold_term_for :: "unicode \<Rightarrow> bool \<Rightarrow> u8 list \<Rightarrow> u8 list" where
  "fold_term_for U match_case s = (if match_case then s else fold_name U s)"

definition parse :: "unicode \<Rightarrow> ustr \<Rightarrow> bool \<Rightarrow> local_clock option \<Rightarrow> query_error + parsed_query" where
  "parse U input match_case clock =
    and_then (tokenize input) (\<lambda>tokens.
      let match_case = last_directive case_directive tokens match_case;
          match_path = last_directive match_path_directive tokens False
      in and_then (parse_tokens U clock (fold_term_for U match_case) match_path tokens (empty_query match_case)) (\<lambda>q.
           if MAX_QUERY_TERMS < term_count q then Inl (TooManyTerms (term_count q)) else Inr q))"

definition parse_query_with_case :: "unicode \<Rightarrow> ustr \<Rightarrow> bool \<Rightarrow> query_error + parsed_query" where
  "parse_query_with_case U input match_case = parse U input match_case None"

definition parse_query :: "unicode \<Rightarrow> ustr \<Rightarrow> query_error + parsed_query" where
  "parse_query U input = parse_query_with_case U input False"

definition parse_query_at :: "unicode \<Rightarrow> ustr \<Rightarrow> bool \<Rightarrow> local_clock \<Rightarrow> query_error + parsed_query" where
  "parse_query_at U input match_case clock = parse U input match_case (Some clock)"

section \<open>The grammar of tokens\<close>

text \<open>A token is a run of plain and quoted pieces.\<close>

datatype piece = Plain ustr | Quoted ustr

fun piece_text :: "piece \<Rightarrow> ustr" where
  "piece_text (Plain s) = s"
| "piece_text (Quoted s) = s"

fun piece_written :: "piece \<Rightarrow> ustr" where
  "piece_written (Plain s) = s"
| "piece_written (Quoted s) = 0x22 # s @ [0x22]"

definition plain_char :: "u32 \<Rightarrow> bool" where
  "plain_char c \<longleftrightarrow> c \<noteq> 0x22 \<and> c \<noteq> 0x7C \<and> c \<noteq> 0x21 \<and> \<not> is_whitespace c"

fun piece_ok :: "piece \<Rightarrow> bool" where
  "piece_ok (Plain s) \<longleftrightarrow> s \<noteq> [] \<and> list_all plain_char s"
| "piece_ok (Quoted s) \<longleftrightarrow> 0x22 \<notin> set s"

definition pieces_ok :: "piece list \<Rightarrow> bool" where
  "pieces_ok ps \<longleftrightarrow> ps \<noteq> [] \<and> list_all piece_ok ps"

fun first_colon :: "nat \<Rightarrow> ustr \<Rightarrow> nat option" where
  "first_colon n [] = None"
| "first_colon n (c # s) = (if c = 0x3A then Some n else first_colon (n + 1) s)"

text \<open>The first colon of the pieces before the first quoted one.\<close>

definition unquoted_start :: "piece list \<Rightarrow> ustr" where
  "unquoted_start ps = concat (map piece_text (takeWhile (\<lambda>p. \<exists>s. p = Plain s) ps))"

definition token_of :: "piece list \<Rightarrow> token" where
  "token_of ps = \<lparr>tok_text = concat (map piece_text ps), tok_quoted = list_ex (\<lambda>p. \<exists>s. p = Quoted s) ps,
    tok_func_colon = first_colon 0 (unquoted_start ps)\<rparr>"

definition written :: "piece list \<Rightarrow> ustr" where
  "written ps = concat (map piece_written ps)"

fun query_text :: "piece list list \<Rightarrow> ustr" where
  "query_text [] = []"
| "query_text [ps] = written ps"
| "query_text (ps # qs) = written ps @ 0x20 # query_text qs"

definition colon_after :: "bool \<Rightarrow> nat option \<Rightarrow> nat \<Rightarrow> ustr \<Rightarrow> nat option" where
  "colon_after quoted fc n s = (if quoted \<or> fc \<noteq> None then fc else first_colon n s)"

lemma first_colon_append: "first_colon n (a @ b) = (case first_colon n a of Some i \<Rightarrow> Some i | None \<Rightarrow> first_colon (n + length a) b)"
  by (induction a arbitrary: n) (auto split: option.split)

lemma tokenize_plain:
  "list_all plain_char s \<Longrightarrow> s \<noteq> [] \<or> has \<Longrightarrow> tokenize_loop (s @ rest) ts cur False tq fc has =
    tokenize_loop rest ts (cur @ s) False tq (colon_after tq fc (length cur) s) True"
  by (induction s arbitrary: cur fc has) (auto simp: plain_char_def colon_after_def)

lemma tokenize_quoted:
  "0x22 \<notin> set s \<Longrightarrow> tokenize_loop (s @ 0x22 # rest) ts cur True tq fc has = tokenize_loop rest ts (cur @ s) False tq fc has"
  by (induction s arbitrary: cur) auto

lemma tokenize_pieces:
  assumes "list_all piece_ok ps" "ps \<noteq> [] \<or> has"
  shows "tokenize_loop (written ps @ rest) ts cur False tq fc has =
    tokenize_loop rest ts (cur @ concat (map piece_text ps)) False (tq \<or> list_ex (\<lambda>p. \<exists>s. p = Quoted s) ps)
      (colon_after tq fc (length cur) (unquoted_start ps)) True"
  using assms
proof (induction ps arbitrary: cur tq fc has)
  case (Cons p ps)
  show ?case
  proof (cases p)
    case (Plain s)
    then show ?thesis using Cons.IH[of True "cur @ s" tq "colon_after tq fc (length cur) s"] Cons.prems tokenize_plain[of s has "written ps @ rest" ts cur tq fc]
      by (auto simp: written_def unquoted_start_def colon_after_def first_colon_append split: option.splits)
  next
    case (Quoted s)
    then show ?thesis using Cons.IH[of True "cur @ s" True fc] Cons.prems tokenize_quoted[of s "written ps @ rest" ts cur True fc True]
      by (auto simp: written_def unquoted_start_def colon_after_def)
  qed
qed (auto simp: written_def unquoted_start_def colon_after_def)

lemma tokenize_loop_texts:
  assumes "list_all pieces_ok qs"
  shows "tokenize_loop (query_text qs) ts [] False False None False = Inr (ts @ map token_of qs)"
  using assms
proof (induction qs arbitrary: ts rule: query_text.induct)
  case (2 ps)
  then show ?case using tokenize_pieces[of ps False "[]" ts "[]" False None]
    by (simp add: pieces_ok_def token_of_def colon_after_def)
next
  case (3 ps p qs)
  have "is_whitespace 0x20" by (simp add: is_whitespace_def)
  then show ?case using 3 tokenize_pieces[of ps False "0x20 # query_text (p # qs)" ts "[]" False None]
    by (simp add: pieces_ok_def token_of_def colon_after_def)
qed simp

section \<open>Operators\<close>

text \<open>The characters of a query outside double quotes.\<close>

fun unquoted :: "bool \<Rightarrow> ustr \<Rightarrow> ustr" where
  "unquoted inside [] = []"
| "unquoted inside (c # s) = (if c = 0x22 then unquoted (\<not> inside) s else if inside then unquoted inside s else c # unquoted inside s)"

definition operators :: "ustr \<Rightarrow> ustr" where
  "operators s = filter (\<lambda>c. c = 0x7C \<or> c = 0x21) (unquoted False s)"

lemma tokenize_loop_operators:
  "(\<exists>toks. tokenize_loop input ts cur inside tq fc has = Inr toks \<and> filter (\<lambda>c. c = 0x7C \<or> c = 0x21) (unquoted inside input) = []) \<or>
   (\<exists>c cs. tokenize_loop input ts cur inside tq fc has = Inl (UnsupportedOperator c) \<and>
      filter (\<lambda>c. c = 0x7C \<or> c = 0x21) (unquoted inside input) = c # cs)"
  by (induction input arbitrary: ts cur inside tq fc has) (auto simp: is_whitespace_def)

text \<open>
  C34. The tokenizer reads the grammar back: for any tokens, each a run of plain and double-quoted pieces, written one
  after the other with spaces, it returns exactly those tokens, in order, with their text, whether a piece was quoted, and
  the place of the colon of a function, which is the first colon before any quoted piece.
\<close>

theorem tokenize_reads_back:
  assumes "list_all pieces_ok qs"
  shows "tokenize (query_text qs) = Inr (map token_of qs)"
  using tokenize_loop_texts[OF assms] by (simp add: tokenize_def)

theorem tokenize_reads_back_witness:
  "tokenize (query_text [[Plain (ascii ''path:''), Quoted (ascii ''a b'')], [Plain (ascii ''c:d'')]]) =
     Inr [\<lparr>tok_text = ascii ''path:a b'', tok_quoted = True, tok_func_colon = Some 4\<rparr>,
          \<lparr>tok_text = ascii ''c:d'', tok_quoted = False, tok_func_colon = Some 1\<rparr>]"
proof -
  have "list_all pieces_ok [[Plain (ascii ''path:''), Quoted (ascii ''a b'')], [Plain (ascii ''c:d'')]]"
    by (simp add: pieces_ok_def plain_char_def ascii_def is_whitespace_def)
  from tokenize_reads_back[OF this] show ?thesis by (simp add: token_of_def unquoted_start_def ascii_def)
qed

text \<open>
  C35. The boolean operators are refused exactly when they stand outside double quotes: a query is cut into tokens when
  it has none there, and otherwise parsing it fails naming the first one.
\<close>

theorem operators_rejected:
  "case operators input of
     [] \<Rightarrow> \<exists>tokens. tokenize input = Inr tokens
   | c # _ \<Rightarrow> parse U input match_case clock = Inl (UnsupportedOperator c)"
  using tokenize_loop_operators[of input "[]" "[]" False False None False]
  by (auto simp: operators_def tokenize_def parse_def)

section \<open>Quoted text\<close>

definition literal_text :: "ustr \<Rightarrow> bool" where
  "literal_text s \<longleftrightarrow> s \<noteq> [] \<and> 0x22 \<notin> set s \<and> 0x5C \<notin> set s \<and> 0x2F \<notin> set s"

lemma token_of_quoted: "token_of [Quoted s] = \<lparr>tok_text = s, tok_quoted = True, tok_func_colon = None\<rparr>"
  by (simp add: token_of_def unquoted_start_def)

lemma parse_tokens_quoted:
  "list_all literal_text ts \<Longrightarrow>
    parse_tokens U clock f False (map (\<lambda>s. token_of [Quoted s]) ts) q = Inr (q\<lparr>q_name_terms := q_name_terms q @ map (\<lambda>s. f (encode_all s)) ts\<rparr>)"
  by (induction ts arbitrary: q) (auto simp: token_of_quoted parse_token_def push_text_term_def literal_text_def)

lemma last_directive_none: "list_all (\<lambda>t. tok_func_colon t = None) tokens \<Longrightarrow> last_directive d tokens b = b"
  by (simp add: last_directive_def list_all_iff filter_False map_filter_simps)

text \<open>
  C36. Quoting makes any text literal: a query of quoted texts without a quote or a path separator, whatever wildcards,
  colons, operators or spaces they hold, asks for exactly those texts in the name, folded unless case matters, and for
  nothing else; with more than 256 of them it is refused with their number.
\<close>

theorem quoted_text_is_literal:
  assumes "list_all literal_text ts"
  shows "parse U (query_text (map (\<lambda>s. [Quoted s]) ts)) match_case clock =
    (if length ts \<le> 256
     then Inr ((empty_query match_case)\<lparr>q_name_terms := map (\<lambda>s. if match_case then encode_all s else fold_name U (encode_all s)) ts\<rparr>)
     else Inl (TooManyTerms (length ts)))"
proof -
  have "list_all pieces_ok (map (\<lambda>s. [Quoted s]) ts)" using assms by (auto simp: list_all_iff pieces_ok_def literal_text_def)
  then have t: "tokenize (query_text (map (\<lambda>s. [Quoted s]) ts)) = Inr (map (\<lambda>s. token_of [Quoted s]) ts)"
    using tokenize_loop_texts[of _ "[]"] by (simp add: tokenize_def comp_def)
  have "last_directive d (map (\<lambda>s. token_of [Quoted s]) ts) b = b" for d b
    by (rule last_directive_none) (simp add: list_all_iff token_of_quoted)
  then show ?thesis using parse_tokens_quoted[OF assms] t
    by (auto simp: parse_def Let_def empty_query_def term_count_def MAX_QUERY_TERMS_def fold_term_for_def)
qed

theorem quoted_text_is_literal_witness:
  "parse ascii_unicode (query_text [[Quoted (ascii ''a|b'')], [Quoted (ascii ''C*'')]]) True None =
    Inr ((empty_query True)\<lparr>q_name_terms := [[0x61, 0x7C, 0x62], [0x43, 0x2A]]\<rparr>)"
proof -
  have "list_all literal_text [ascii ''a|b'', ascii ''C*'']" by (simp add: literal_text_def ascii_def)
  from quoted_text_is_literal[OF this, of ascii_unicode True None] show ?thesis
    by (simp add: ascii_def encode_all_def encode_code_point_def)
qed

section \<open>Sizes as written\<close>

text \<open>A count in decimal digits and its unit.\<close>

definition size_units :: "(string \<times> nat) list" where
  "size_units = [([], 1), (''b'', 1), (''kb'', 1024), (''mb'', 1024 ^ 2), (''gb'', 1024 ^ 3), (''tb'', 1024 ^ 4)]"

definition size_ops :: "string list" where "size_ops = [[], ''='', ''>='', ''<='', ''>'', ''<'']"

definition size_relation :: "string \<Rightarrow> nat \<Rightarrow> nat \<Rightarrow> bool" where
  "size_relation op s v \<longleftrightarrow>
    (if op = ''>='' then v \<le> s else if op = ''<='' then s \<le> v else if op = ''>'' then v < s else if op = ''<'' then s < v else s = v)"

lemma not_digit_letters: "\<not> is_digit 0x62" "\<not> is_digit 0x6B" "\<not> is_digit 0x6D" "\<not> is_digit 0x67" "\<not> is_digit 0x74"
  by (simp_all add: is_digit_def)

lemma strip_unit_digits:
  assumes "d \<noteq> []" "is_digit (last d)" "(u, mult) \<in> set size_units"
  shows "strip_unit [(''tb'', TB), (''gb'', GB), (''mb'', MB), (''kb'', KB), (''b'', 1)] (d @ ascii u) = (d, mult)"
proof -
  obtain e c where d: "d = e @ [c]" "is_digit c" using assms(1,2) by (cases d rule: rev_cases) auto
  then have "c \<noteq> 0x62" "c \<noteq> 0x6B" "c \<noteq> 0x6D" "c \<noteq> 0x67" "c \<noteq> 0x74" using not_digit_letters by auto
  then show ?thesis using assms(3) d(1)
    by (auto simp: size_units_def ascii_def strip_suffix_def strip_prefix_def TB_def GB_def MB_def KB_def)
qed

lemma digits_chars:
  assumes "c \<in> set (pad k n)"
  shows "\<not> is_whitespace c" "c \<notin> {0x2E, 0x3C, 0x3D, 0x3E, 0x2B}" "lower c = c"
  using pad_digits[OF assms] date_char_not[of c] lower_digit[of c] by (auto simp: date_char_def is_digit_def)

lemma unit_chars:
  assumes "(u, mult) \<in> set size_units" "c \<in> set (ascii u)"
  shows "\<not> is_whitespace c" "c \<noteq> 0x2E" "lower c = c"
  using assms by (auto simp: size_units_def ascii_def is_whitespace_def lower_def)

lemma parse_bytes_digits:
  assumes k: "0 < k" "n < 10 ^ k" and u: "(u, mult) \<in> set size_units"
  shows "parse_bytes (pad k n @ ascii u) = (if n * mult \<le> U64_MAX then Some (n * mult) else None)"
proof -
  have p: "pad k n \<noteq> []" using k(1) by (cases "pad k n") (auto dest: arg_cong[where f = length])
  have ws: "\<not> is_whitespace c" if "c \<in> set (pad k n @ ascii u)" for c using that digits_chars(1) unit_chars(1)[OF u] by auto
  have t: "trim (pad k n @ ascii u) = pad k n @ ascii u" "trim (pad k n) = pad k n"
    by (rule trim_id; use p ws[OF hd_in_set] ws[OF last_in_set] ws[of "hd (pad k n)"] ws[of "last (pad k n)"] in \<open>simp del: hd_append last_append\<close>)+
  have l: "lowercase (pad k n @ ascii u) = pad k n @ ascii u"
    unfolding lowercase_def by (rule map_idI) (use digits_chars(3) unit_chars(3)[OF u] in auto)
  have "parse_unsigned U64_MAX (pad k n) = (if n \<le> U64_MAX then Some n else None)"
    using digits_value_pad[OF k(2)] p digits_chars(2)[of "hd (pad k n)" k n]
    by (cases "pad k n") (auto simp: parse_unsigned_def)
  moreover have "1 \<le> mult" using u by (auto simp: size_units_def)
  then have "n * mult \<le> U64_MAX \<Longrightarrow> n \<le> U64_MAX" using le_trans[of n "n * mult" U64_MAX] by simp
  ultimately show ?thesis
    using strip_unit_digits[OF p _ u] pad_digits[of "last (pad k n)" k n] p t l by (auto simp: parse_bytes_def)
qed

lemma named_size_other: "c \<notin> {0x65, 0x74, 0x73, 0x6D, 0x6C, 0x68, 0x67} \<Longrightarrow> named_size (c # s) = None"
  by (simp add: named_size_def ascii_def)

lemma named_size_digit: "is_digit c \<or> c \<in> {0x3C, 0x3D, 0x3E} \<Longrightarrow> named_size (c # s) = None"
  by (rule named_size_other) (auto simp: is_digit_def)

lemma parse_size_digits:
  assumes k: "0 < k" "n < 10 ^ k" and u: "(u, mult) \<in> set size_units" and op: "op \<in> set size_ops" and fits: "n * mult \<le> U64_MAX"
  shows "parse_size (ascii op @ pad k n @ ascii u) =
    Inr (if op \<in> {[], ''=''} then \<lparr>sr_min = n * mult, sr_max = n * mult\<rparr> else size_compare op (n * mult))"
proof -
  let ?v = "pad k n @ ascii u"
  obtain c s where p: "pad k n = c # s" using k(1) by (cases "pad k n") (auto dest: arg_cong[where f = length])
  have c: "is_digit c" "c \<notin> {0x3C, 0x3D, 0x3E}" using p pad_digits[of c k n] digits_chars(2)[of c k n] by auto
  have ops: "x \<in> {0x3C, 0x3D, 0x3E}" if "x \<in> set (ascii op)" for x using op that by (auto simp: ascii_def size_ops_def)
  have ok: "\<not> is_whitespace x \<and> x \<noteq> 0x2E" if "x \<in> set (ascii op @ ?v)" for x
    using that ops[of x] digits_chars(1,2)[of x k n] unit_chars(1,2)[OF u, of x] by (auto simp: is_whitespace_def)
  have t: "trim (ascii op @ ?v) = ascii op @ ?v"
    by (rule trim_id) (use p ok[OF hd_in_set] ok[OF last_in_set] in \<open>simp_all del: hd_append last_append\<close>)
  have "0x2E \<notin> set (ascii op @ ?v)" using ok by blast
  then have dots: "split_once (ascii ''..'') (ascii op @ ?v) = None" by (intro split_once_None) (simp_all add: ascii_def)
  have "lowercase (ascii op @ ?v) = hd (ascii op @ ?v) # tl (lowercase (ascii op @ ?v)) \<and> (is_digit (hd (ascii op @ ?v)) \<or> hd (ascii op @ ?v) \<in> {0x3C, 0x3D, 0x3E})"
    using op p c lower_digit[OF c(1)] by (auto simp: size_ops_def ascii_def lowercase_def lower_def)
  then have named: "named_size (lowercase (ascii op @ ?v)) = None" using named_size_digit by metis
  note b = parse_bytes_digits[OF k u]
  show ?thesis using op t dots named b fits p c(2)
    by (auto simp: size_ops_def parse_size_def Let_def strip_prefix_def ascii_def or_self_def ok_or_def)
qed

text \<open>
  C37. A size means what it says: an operator, a decimal count of any number of digits and a unit, with the value in 64
  bits, is accepted, and a size passes exactly when it is in that relation to the count times the unit. Only two ends of
  the range are left out, below 0 and above the largest size.
\<close>

theorem size_comparison_exact:
  assumes "0 < k" "n < 10 ^ k" "(u, mult) \<in> set size_units" "op \<in> set size_ops" "n * mult \<le> U64_MAX"
    and "op = ''<'' \<Longrightarrow> 0 < n * mult" "op = ''>'' \<Longrightarrow> n * mult < U64_MAX"
  shows "\<exists>r. parse_size (ascii op @ pad k n @ ascii u) = Inr r \<and>
    (\<forall>s. s \<le> U64_MAX \<longrightarrow> size_contains r s = size_relation op s (n * mult))"
proof -
  define v where "v = n * mult"
  have "size_contains (if op \<in> {[], ''=''} then \<lparr>sr_min = v, sr_max = v\<rparr> else size_compare op v) s = size_relation op s v"
    if "s \<le> U64_MAX" for s
    using assms(4,6,7) that unfolding v_def[symmetric]
    by (auto simp: size_ops_def size_contains_def size_relation_def size_compare_def)
  then show ?thesis using parse_size_digits[OF assms(1-5)] unfolding v_def by blast
qed

theorem size_comparison_exact_witness:
  "\<exists>r. parse_size (ascii ''>=10mb'') = Inr r \<and> size_contains r 10485760 \<and> \<not> size_contains r 10485759"
proof -
  have "ascii ''>='' @ pad 2 10 @ ascii ''mb'' = ascii ''>=10mb''" by (simp add: pad_2 digit_char_def ascii_def)
  moreover have "(''mb'', 1024 ^ 2) \<in> set size_units" "''>='' \<in> set size_ops" by (simp_all add: size_units_def size_ops_def)
  ultimately obtain r where r: "parse_size (ascii ''>=10mb'') = Inr r" "\<forall>s. s \<le> U64_MAX \<longrightarrow> size_contains r s = size_relation ''>='' s (10 * 1024 ^ 2)"
    using size_comparison_exact[of 2 10 "''mb''" "1024 ^ 2" "''>=''"] by (auto simp: U64_MAX_def)
  then show ?thesis using r(2)[rule_format, of 10485760] r(2)[rule_format, of 10485759] by (simp add: U64_MAX_def size_relation_def)
qed

text \<open>The left-out ends: \<open>size:<0\<close> accepts empty files, and above the largest size accepts that size.\<close>

lemma size_ends:
  "parse_size (ascii ''<0'') = Inr \<lparr>sr_min = 0, sr_max = 0\<rparr>"
  "size_compare ''>'' U64_MAX = \<lparr>sr_min = U64_MAX, sr_max = U64_MAX\<rparr>"
proof -
  have "ascii ''<'' @ pad 1 0 @ ascii [] = ascii ''<0''" by (simp add: digit_char_def ascii_def)
  moreover have "([], 1) \<in> set size_units" "''<'' \<in> set size_ops" by (simp_all add: size_units_def size_ops_def)
  ultimately show "parse_size (ascii ''<0'') = Inr \<lparr>sr_min = 0, sr_max = 0\<rparr>"
    using parse_size_digits[of 1 0 "[]" 1 "''<''"] by (simp add: size_compare_def)
  show "size_compare ''>'' U64_MAX = \<lparr>sr_min = U64_MAX, sr_max = U64_MAX\<rparr>" by (simp add: size_compare_def)
qed

end
