(* ===== verification/Volume.thy ===== *)
theory Volume
  imports Name_Compact Entry_Table Frn_Map Usn_Ops Layout
begin

text \<open>
  \<open>VolumeIndex\<close> of \<open>goz-core/src/index/volume.rs\<close>: the entry table, the names, the record map and
  the scope index of one volume, with every rule that mutates them. An operation is a function on
  the state in the option monad: \<^const>\<open>None\<close> is a panic or a loop that never ends. The hash
  function comes from the environment; the hash map of the scope index is a map.
\<close>

section \<open>State\<close>

definition NTFS_ROOT_FRN :: frn where "NTFS_ROOT_FRN = 0x0005000000000005"
definition LOST_FOUND_NAME :: "u8 list" where
  "LOST_FOUND_NAME = [36, 76, 111, 115, 116, 70, 111, 117, 110, 100]"
definition PLACEHOLDER_NAME :: "u8 list" where
  "PLACEHOLDER_NAME = [36, 80, 108, 97, 99, 101, 104, 111, 108, 100, 101, 114]"
definition LOST_FOUND_FRN :: frn where "LOST_FOUND_FRN = - 1"
definition MAX_PATH_HOPS :: nat where "MAX_PATH_HOPS = 4096"

record wtf_name =
  wn_bytes :: "u8 list"
  wn_lossy :: bool

record link_target =
  lt_parent :: entry_idx
  lt_name :: wtf_name

datatype path_status = PathOk | InLostFound | CycleDetected | Removed

datatype anomaly = DeleteOfUnknown frn

record index_stats =
  st_placeholders_created :: u64
  st_delete_of_unknown :: u64
  st_rename_old_seen :: u64
  st_stale_slots :: u64
  st_link_reconciles_dropped :: u64

record apply_outcome =
  ao_needs_stat :: "frn list"
  ao_needs_link_reconcile :: "frn list"
  ao_anomalies :: "anomaly list"
  ao_wants_compact :: bool

datatype upsert_result = UpsertOk | NeedsReconcile

record volume =
  v_entries :: entry_table
  v_names :: name_store
  v_by_frn :: frn_map
  v_root :: entry_idx
  v_lost_found :: entry_idx
  v_generation :: u64
  v_stats :: index_stats
  v_dirty :: u64
  v_dir_children :: "entry_idx \<times> u64 \<Rightarrow> entry_idx list option"
  v_cycle_suspects :: "entry_idx list"

definition stats_default :: index_stats where
  "stats_default = \<lparr>st_placeholders_created = 0, st_delete_of_unknown = 0, st_rename_old_seen = 0,
     st_stale_slots = 0, st_link_reconciles_dropped = 0\<rparr>"

definition outcome_default :: apply_outcome where
  "outcome_default = \<lparr>ao_needs_stat = [], ao_needs_link_reconcile = [], ao_anomalies = [], ao_wants_compact = False\<rparr>"

text \<open>An operation of the entry table, on the volume that owns it.\<close>

definition on_entries :: "(entry_table \<Rightarrow> entry_table option) \<Rightarrow> volume \<Rightarrow> volume option" where
  "on_entries f V = map_option (\<lambda>t. V\<lparr>v_entries := t\<rparr>) (f (v_entries V))"

definition on_names :: "(name_store \<Rightarrow> name_store option) \<Rightarrow> volume \<Rightarrow> volume option" where
  "on_names f V = map_option (\<lambda>nm. V\<lparr>v_names := nm\<rparr>) (f (v_names V))"

definition bump_dirty :: "volume \<Rightarrow> volume" where "bump_dirty V = V\<lparr>v_dirty := v_dirty V + 1\<rparr>"

section \<open>Chains\<close>

definition link_same_name :: "entry_idx \<Rightarrow> name_id \<Rightarrow> volume \<Rightarrow> volume option" where
  "link_same_name i nid V =
    do {
      old_head \<leftarrow> chain_head (v_names V) nid;
      t \<leftarrow> t_set_next_same i old_head (v_entries V);
      t \<leftarrow> t_set_prev_same i NIL t;
      t \<leftarrow> (if old_head \<noteq> NIL then t_set_prev_same old_head i t else Some t);
      nm \<leftarrow> set_chain_head nid i (v_names V);
      Some (V\<lparr>v_entries := t, v_names := nm\<rparr>)
    }"

definition unlink_same_name :: "entry_idx \<Rightarrow> volume \<Rightarrow> volume option" where
  "unlink_same_name i V =
    do {
      nid \<leftarrow> t_name_id (v_entries V) i;
      prv \<leftarrow> t_prev_same (v_entries V) i;
      nxt \<leftarrow> t_next_same (v_entries V) i;
      nm \<leftarrow> (if prv = NIL then set_chain_head nid nxt (v_names V) else Some (v_names V));
      t \<leftarrow> (if prv = NIL then Some (v_entries V) else t_set_next_same prv nxt (v_entries V));
      t \<leftarrow> (if nxt \<noteq> NIL then t_set_prev_same nxt prv t else Some t);
      t \<leftarrow> t_set_next_same i NIL t;
      t \<leftarrow> t_set_prev_same i NIL t;
      Some (V\<lparr>v_entries := t, v_names := nm\<rparr>)
    }"

definition link_child :: "entry_idx \<Rightarrow> volume \<Rightarrow> volume option" where
  "link_child i = on_entries (\<lambda>t.
    do {
      p \<leftarrow> t_parent t i;
      if p = NIL then Some t
      else do {
        old_head \<leftarrow> t_first_child t p;
        t \<leftarrow> t_set_next_child i old_head t;
        t \<leftarrow> t_set_prev_child i NIL t;
        t \<leftarrow> (if old_head \<noteq> NIL then t_set_prev_child old_head i t else Some t);
        t_set_first_child p i t
      }
    })"

definition unlink_child :: "entry_idx \<Rightarrow> volume \<Rightarrow> volume option" where
  "unlink_child i = on_entries (\<lambda>t.
    do {
      p \<leftarrow> t_parent t i;
      if p = NIL then Some t
      else do {
        prv \<leftarrow> t_prev_child t i;
        nxt \<leftarrow> t_next_child t i;
        t \<leftarrow> (if prv = NIL then t_set_first_child p nxt t else t_set_next_child prv nxt t);
        t \<leftarrow> (if nxt \<noteq> NIL then t_set_prev_child nxt prv t else Some t);
        t \<leftarrow> t_set_next_child i NIL t;
        t_set_prev_child i NIL t
      }
    })"

section \<open>The scope index\<close>

definition folded_name :: "volume \<Rightarrow> entry_idx \<Rightarrow> u8 list option" where
  "folded_name V i = do { nid \<leftarrow> t_name_id (v_entries V) i; folded_bytes_of (v_names V) nid }"

definition dir_key_hash :: "env \<Rightarrow> u8 list \<Rightarrow> u64" where "dir_key_hash E folded = e_hash E folded"

definition dir_key :: "env \<Rightarrow> volume \<Rightarrow> entry_idx \<Rightarrow> (entry_idx \<times> u64) option" where
  "dir_key E V i = do { p \<leftarrow> t_parent (v_entries V) i; f \<leftarrow> folded_name V i; Some (p, dir_key_hash E f) }"

definition dir_index_insert :: "env \<Rightarrow> entry_idx \<Rightarrow> volume \<Rightarrow> volume option" where
  "dir_index_insert E i V =
    do {
      fl \<leftarrow> t_flags (v_entries V) i;
      if \<not> contains fl DIR \<or> contains fl PLACEHOLDER \<or> i = v_root V \<or> i = v_lost_found V then Some V
      else do {
        k \<leftarrow> dir_key E V i;
        let slot = (case v_dir_children V k of Some s \<Rightarrow> s | None \<Rightarrow> []);
        Some (V\<lparr>v_dir_children := (v_dir_children V)(k \<mapsto> (if i \<in> set slot then slot else slot @ [i]))\<rparr>)
      }
    }"

definition dir_index_remove :: "env \<Rightarrow> entry_idx \<Rightarrow> volume \<Rightarrow> volume option" where
  "dir_index_remove E i V =
    do {
      fl \<leftarrow> t_flags (v_entries V) i;
      if \<not> contains fl DIR then Some V
      else do {
        k \<leftarrow> dir_key E V i;
        Some (case v_dir_children V k of
                None \<Rightarrow> V
              | Some slot \<Rightarrow>
                  let slot' = filter (\<lambda>d. d \<noteq> i) slot
                  in V\<lparr>v_dir_children := (v_dir_children V)(k := (if slot' = [] then None else Some slot'))\<rparr>)
      }
    }"

fun find_dir :: "volume \<Rightarrow> u8 list \<Rightarrow> entry_idx list \<Rightarrow> entry_idx option option" where
  "find_dir V f [] = Some None"
| "find_dir V f (d # ds) = do { g \<leftarrow> folded_name V d; if g = f then Some (Some d) else find_dir V f ds }"

definition child_dir :: "env \<Rightarrow> volume \<Rightarrow> entry_idx \<Rightarrow> u8 list \<Rightarrow> entry_idx option option" where
  "child_dir E V p f =
    (case v_dir_children V (p, dir_key_hash E f) of None \<Rightarrow> Some None | Some cands \<Rightarrow> find_dir V f cands)"

section \<open>Removing entries\<close>

partial_function (option) orphan_loop :: "env \<Rightarrow> entry_idx \<Rightarrow> volume \<Rightarrow> volume option" where
  "orphan_loop E cur V =
    (if cur = NIL then Some V
     else do {
       nx \<leftarrow> t_next_child (v_entries V) cur;
       V \<leftarrow> dir_index_remove E cur V;
       V \<leftarrow> on_entries (t_set_parent cur (v_lost_found V)) V;
       V \<leftarrow> link_child cur V;
       V \<leftarrow> dir_index_insert E cur V;
       orphan_loop E nx (bump_dirty V)
     })"

definition orphan_children :: "env \<Rightarrow> entry_idx \<Rightarrow> volume \<Rightarrow> volume option" where
  "orphan_children E dir V =
    do {
      cur \<leftarrow> t_first_child (v_entries V) dir;
      V \<leftarrow> orphan_loop E cur V;
      on_entries (t_set_first_child dir NIL) V
    }"

definition remove_entry :: "env \<Rightarrow> entry_idx \<Rightarrow> volume \<Rightarrow> volume option" where
  "remove_entry E i V =
    do {
      V \<leftarrow> dir_index_remove E i V;
      V \<leftarrow> unlink_same_name i V;
      V \<leftarrow> unlink_child i V;
      V \<leftarrow> orphan_children E i V;
      nid \<leftarrow> t_name_id (v_entries V) i;
      V \<leftarrow> on_names (release E nid) V;
      V \<leftarrow> on_entries (tombstone i) V;
      Some (bump_dirty V)
    }"

partial_function (option) tombstone_chain :: "env \<Rightarrow> entry_idx \<Rightarrow> volume \<Rightarrow> volume option" where
  "tombstone_chain E cur V =
    (if cur = NIL then Some V
     else do {
       nx \<leftarrow> t_next_link (v_entries V) cur;
       V \<leftarrow> remove_entry E cur V;
       tombstone_chain E nx V
     })"

definition reclaim_stale_slot :: "env \<Rightarrow> u64 \<Rightarrow> entry_idx \<Rightarrow> volume \<Rightarrow> volume option" where
  "reclaim_stale_slot E rec head V =
    do {
      V \<leftarrow> tombstone_chain E head V;
      Some (V\<lparr>v_by_frn := frn_remove rec (v_by_frn V), v_stats := (v_stats V)\<lparr>st_stale_slots := st_stale_slots (v_stats V) + 1\<rparr>\<rparr>)
    }"

definition delete_frn :: "env \<Rightarrow> frn \<Rightarrow> volume \<Rightarrow> (bool \<times> volume) option" where
  "delete_frn E f V =
    (let rec = record_number f in
     case frn_get (v_by_frn V) rec of
       None \<Rightarrow> Some (False, V)
     | Some head \<Rightarrow> do {
         g \<leftarrow> t_frn (v_entries V) head;
         if g \<noteq> f then Some (False, V)
         else do {
           V \<leftarrow> tombstone_chain E head V;
           Some (True, V\<lparr>v_by_frn := frn_remove rec (v_by_frn V)\<rparr>)
         }
       })"

section \<open>Inserting entries\<close>

definition head_of :: "volume \<Rightarrow> frn \<Rightarrow> entry_idx option option" where
  "head_of V f =
    (case frn_get (v_by_frn V) (record_number f) of
       None \<Rightarrow> Some None
     | Some head \<Rightarrow> do { g \<leftarrow> t_frn (v_entries V) head; Some (if g = f then Some head else None) })"

text \<open>Interning a name, allocating an entry that bears it and linking it into its chains.\<close>

definition new_entry ::
  "env \<Rightarrow> frn \<Rightarrow> entry_idx \<Rightarrow> u8 list \<Rightarrow> entry_flags \<Rightarrow> u64 \<Rightarrow> i64 \<Rightarrow> volume \<Rightarrow> (entry_idx \<times> volume) option" where
  "new_entry E f p name fl sz mt V =
    do {
      (nid, nm) \<leftarrow> intern E name (v_names V);
      (i, t) \<leftarrow> alloc f p nid fl sz mt NIL (v_entries V);
      V \<leftarrow> link_same_name i nid (V\<lparr>v_names := nm, v_entries := t\<rparr>);
      V \<leftarrow> link_child i V;
      Some (i, V)
    }"

definition resolve_or_placeholder_parent :: "env \<Rightarrow> frn \<Rightarrow> volume \<Rightarrow> (entry_idx \<times> volume) option" where
  "resolve_or_placeholder_parent E pf V =
    (let rec = record_number pf;
         create = (\<lambda>V. do {
           (i, V) \<leftarrow> new_entry E pf (v_lost_found V) PLACEHOLDER_NAME (with_flag DIR PLACEHOLDER True) SIZE_UNKNOWN MTIME_UNKNOWN V;
           Some (i, bump_dirty (V\<lparr>v_by_frn := frn_set rec i (v_by_frn V),
             v_stats := (v_stats V)\<lparr>st_placeholders_created := st_placeholders_created (v_stats V) + 1\<rparr>\<rparr>))
         })
     in case frn_get (v_by_frn V) rec of
          Some i \<Rightarrow> do {
            g \<leftarrow> t_frn (v_entries V) i;
            if g = pf then Some (i, V)
            else do { V \<leftarrow> reclaim_stale_slot E rec i V; create V }
          }
        | None \<Rightarrow> create V)"

definition resolve_link_parent :: "env \<Rightarrow> frn \<Rightarrow> frn \<Rightarrow> volume \<Rightarrow> (entry_idx \<times> volume) option" where
  "resolve_link_parent E f pf V =
    (if pf \<noteq> f \<and> record_number pf = record_number f then Some (v_lost_found V, V)
     else resolve_or_placeholder_parent E pf V)"

fun at_or_below :: "volume \<Rightarrow> entry_idx \<Rightarrow> nat \<Rightarrow> entry_idx \<Rightarrow> bool option" where
  "at_or_below V ancestor 0 node = Some False"
| "at_or_below V ancestor (Suc hops) node =
    (if node = ancestor then Some True
     else if node = NIL \<or> node = v_root V \<or> node = v_lost_found V then Some False
     else do { p \<leftarrow> t_parent (v_entries V) node; at_or_below V ancestor hops p })"

definition is_at_or_below :: "volume \<Rightarrow> entry_idx \<Rightarrow> entry_idx \<Rightarrow> bool option" where
  "is_at_or_below V node ancestor = at_or_below V ancestor MAX_PATH_HOPS node"

definition note_cycle :: "entry_idx \<Rightarrow> entry_idx \<Rightarrow> volume \<Rightarrow> volume option" where
  "note_cycle i p V =
    do {
      b \<leftarrow> is_at_or_below V p i;
      Some (if b \<and> i \<notin> set (v_cycle_suspects V) then V\<lparr>v_cycle_suspects := v_cycle_suspects V @ [i]\<rparr> else V)
    }"

definition rewrite_entry :: "env \<Rightarrow> entry_idx \<Rightarrow> entry_idx \<Rightarrow> u8 list \<Rightarrow> bool \<Rightarrow> bool \<Rightarrow> volume \<Rightarrow> volume option" where
  "rewrite_entry E i p name lossy is_dir V =
    do {
      V \<leftarrow> dir_index_remove E i V;
      V \<leftarrow> unlink_same_name i V;
      old \<leftarrow> t_name_id (v_entries V) i;
      V \<leftarrow> on_names (release E old) V;
      (nid, nm) \<leftarrow> intern E name (v_names V);
      V \<leftarrow> on_entries (t_set_name_id i nid) (V\<lparr>v_names := nm\<rparr>);
      V \<leftarrow> link_same_name i nid V;
      V \<leftarrow> note_cycle i p V;
      V \<leftarrow> unlink_child i V;
      V \<leftarrow> on_entries (t_set_parent i p) V;
      V \<leftarrow> link_child i V;
      fl \<leftarrow> t_flags (v_entries V) i;
      V \<leftarrow> on_entries (t_set_flags i (with_flag (with_flag (with_flag fl DIR is_dir) NON_UNICODE_NAME lossy) PLACEHOLDER False)) V;
      V \<leftarrow> dir_index_insert E i V;
      Some (bump_dirty V)
    }"

definition upsert_link :: "env \<Rightarrow> frn \<Rightarrow> frn \<Rightarrow> u8 list \<Rightarrow> bool \<Rightarrow> bool \<Rightarrow> volume \<Rightarrow> (upsert_result \<times> volume) option" where
  "upsert_link E f pf name lossy is_dir V =
    (let rec = record_number f in
     do {
       V \<leftarrow> (case frn_get (v_by_frn V) rec of
               Some head \<Rightarrow> do {
                 g \<leftarrow> t_frn (v_entries V) head;
                 if g \<noteq> f then reclaim_stale_slot E rec head V else Some V }
             | None \<Rightarrow> Some V);
       (p, V) \<leftarrow> resolve_link_parent E f pf V;
       (case frn_get (v_by_frn V) rec of
          Some head \<Rightarrow> do {
            nl \<leftarrow> t_next_link (v_entries V) head;
            if nl = NIL then do { V \<leftarrow> rewrite_entry E head p name lossy is_dir V; Some (UpsertOk, V) }
            else Some (NeedsReconcile, V) }
        | None \<Rightarrow> do {
            (i, V) \<leftarrow> new_entry E f p name (with_flag (with_flag EMPTY DIR is_dir) NON_UNICODE_NAME lossy)
              SIZE_UNKNOWN MTIME_UNKNOWN V;
            V \<leftarrow> dir_index_insert E i (V\<lparr>v_by_frn := frn_set rec i (v_by_frn V)\<rparr>);
            Some (UpsertOk, bump_dirty V) })
     })"

section \<open>Hard links\<close>

partial_function (option) has_link_loop :: "volume \<Rightarrow> entry_idx \<Rightarrow> u8 list \<Rightarrow> entry_idx \<Rightarrow> bool option" where
  "has_link_loop V p name cur =
    (if cur = NIL then Some False
     else do {
       q \<leftarrow> t_parent (v_entries V) cur;
       same \<leftarrow> (if q = p then do { nid \<leftarrow> t_name_id (v_entries V) cur; b \<leftarrow> raw_bytes (v_names V) nid; Some (b = name) }
                else Some False);
       if same then Some True
       else do { nx \<leftarrow> t_next_link (v_entries V) cur; has_link_loop V p name nx }
     })"

definition chain_has_link :: "volume \<Rightarrow> frn \<Rightarrow> entry_idx \<Rightarrow> u8 list \<Rightarrow> bool option" where
  "chain_has_link V f p name =
    do { h \<leftarrow> head_of V f; (case h of None \<Rightarrow> Some False | Some head \<Rightarrow> has_link_loop V p name head) }"

partial_function (option) chain_tail :: "entry_table \<Rightarrow> entry_idx \<Rightarrow> entry_idx option" where
  "chain_tail t cur = do { nx \<leftarrow> t_next_link t cur; if nx = NIL then Some cur else chain_tail t nx }"

definition add_link :: "env \<Rightarrow> frn \<Rightarrow> entry_idx \<Rightarrow> u8 list \<Rightarrow> bool \<Rightarrow> volume \<Rightarrow> volume option" where
  "add_link E f p name lossy V =
    do {
      (i, V) \<leftarrow> new_entry E f p name (with_flag EMPTY NON_UNICODE_NAME lossy) SIZE_UNKNOWN MTIME_UNKNOWN V;
      V \<leftarrow> (let rec = record_number f in
            case frn_get (v_by_frn V) rec of
              Some head \<Rightarrow> do { tl \<leftarrow> chain_tail (v_entries V) head; on_entries (t_set_next_link tl i) V }
            | None \<Rightarrow> Some (V\<lparr>v_by_frn := frn_set rec i (v_by_frn V)\<rparr>));
      Some (bump_dirty V)
    }"

partial_function (option) collect_chain :: "entry_table \<Rightarrow> entry_idx \<Rightarrow> entry_idx list option" where
  "collect_chain t cur =
    (if cur = NIL then Some []
     else do { nx \<leftarrow> t_next_link t cur; rest \<leftarrow> collect_chain t nx; Some (cur # rest) })"

definition current_chain :: "env \<Rightarrow> frn \<Rightarrow> volume \<Rightarrow> (entry_idx list \<times> volume) option" where
  "current_chain E f V =
    (let rec = record_number f in
     case frn_get (v_by_frn V) rec of
       None \<Rightarrow> Some ([], V)
     | Some head \<Rightarrow> do {
         g \<leftarrow> t_frn (v_entries V) head;
         if g = f then do { c \<leftarrow> collect_chain (v_entries V) head; Some (c, V) }
         else do { V \<leftarrow> reclaim_stale_slot E rec head V; Some ([], V) }
       })"

fun live_parents :: "volume \<Rightarrow> link_target list \<Rightarrow> entry_idx list option" where
  "live_parents V [] = Some []"
| "live_parents V (x # xs) =
    do {
      dead \<leftarrow> is_tombstone (v_entries V) (lt_parent x);
      rest \<leftarrow> live_parents V xs;
      Some ((if dead then v_lost_found V else lt_parent x) # rest)
    }"

text \<open>The position of the first unused entry of the chain with a parent and a name.\<close>

fun match_pos :: "volume \<Rightarrow> entry_idx \<Rightarrow> u8 list \<Rightarrow> nat \<Rightarrow> (entry_idx \<times> bool) list \<Rightarrow> nat option option" where
  "match_pos V p name k [] = Some None"
| "match_pos V p name k ((e, used) # es) =
    do {
      hit \<leftarrow> (if used then Some False
              else do {
                q \<leftarrow> t_parent (v_entries V) e;
                if q = p then do { nid \<leftarrow> t_name_id (v_entries V) e; b \<leftarrow> raw_bytes (v_names V) nid; Some (b = name) }
                else Some False
              });
      if hit then Some (Some k) else match_pos V p name (k + 1) es
    }"

fun place_links ::
  "env \<Rightarrow> frn \<Rightarrow> bool \<Rightarrow> u64 \<Rightarrow> i64 \<Rightarrow> (link_target \<times> entry_idx) list \<Rightarrow> (entry_idx \<times> bool) list \<Rightarrow> entry_idx list \<Rightarrow>
    volume \<Rightarrow> ((entry_idx \<times> bool) list \<times> entry_idx list \<times> volume) option" where
  "place_links E f is_dir sz mt [] cur kept V = Some (cur, kept, V)"
| "place_links E f is_dir sz mt ((x, p) # xs) cur kept V =
    do {
      pos \<leftarrow> match_pos V p (wn_bytes (lt_name x)) 0 cur;
      (case pos of
         Some k \<Rightarrow> do {
           (e, _) \<leftarrow> idx cur k;
           cur \<leftarrow> upd cur k (e, True);
           place_links E f is_dir sz mt xs cur (kept @ [e]) V }
       | None \<Rightarrow> do {
           (i, V) \<leftarrow> new_entry E f p (wn_bytes (lt_name x))
             (with_flag (with_flag EMPTY DIR is_dir) NON_UNICODE_NAME (wn_lossy (lt_name x))) sz mt V;
           V \<leftarrow> dir_index_insert E i V;
           place_links E f is_dir sz mt xs cur (kept @ [i]) (bump_dirty V) })
    }"

fun drop_unused :: "env \<Rightarrow> (entry_idx \<times> bool) list \<Rightarrow> volume \<Rightarrow> volume option" where
  "drop_unused E [] V = Some V"
| "drop_unused E ((e, used) # es) V =
    do { V \<leftarrow> (if used then Some V else remove_entry E e V); drop_unused E es V }"

fun relink :: "entry_idx list \<Rightarrow> volume \<Rightarrow> volume option" where
  "relink [] V = Some V"
| "relink (e # es) V =
    do { V \<leftarrow> on_entries (t_set_next_link e (case es of [] \<Rightarrow> NIL | e' # _ \<Rightarrow> e')) V; relink es V }"

definition set_chain_links :: "env \<Rightarrow> frn \<Rightarrow> bool \<Rightarrow> link_target list \<Rightarrow> volume \<Rightarrow> volume option" where
  "set_chain_links E f is_dir desired V =
    do {
      (current, V) \<leftarrow> current_chain E f V;
      parents \<leftarrow> live_parents V desired;
      (sz, mt) \<leftarrow> (case current of
          [] \<Rightarrow> Some (SIZE_UNKNOWN, MTIME_UNKNOWN)
        | e # _ \<Rightarrow> do { sz \<leftarrow> t_size (v_entries V) e; mt \<leftarrow> t_mtime (v_entries V) e; Some (sz, mt) });
      (cur, kept, V) \<leftarrow> place_links E f is_dir sz mt (zip desired parents) (map (\<lambda>e. (e, False)) current) [] V;
      V \<leftarrow> drop_unused E cur V;
      V \<leftarrow> relink kept V;
      h \<leftarrow> idx kept 0;
      Some (V\<lparr>v_by_frn := frn_set (record_number f) h (v_by_frn V)\<rparr>)
    }"

section \<open>Ingestion\<close>

definition insert_enum :: "env \<Rightarrow> parsed_usn_record \<Rightarrow> volume \<Rightarrow> volume option" where
  "insert_enum E r V =
    do { (_, V) \<leftarrow> upsert_link E (pu_frn r) (pu_parent_frn r) (pu_name r) (pu_name_lossy r) (pu_is_dir r) V; Some V }"

fun resolve_names :: "env \<Rightarrow> frn \<Rightarrow> layout_name list \<Rightarrow> volume \<Rightarrow> (link_target list \<times> volume) option" where
  "resolve_names E f [] V = Some ([], V)"
| "resolve_names E f (n # ns) V =
    do {
      (p, V) \<leftarrow> resolve_link_parent E f (ln_parent_frn n) V;
      (rest, V) \<leftarrow> resolve_names E f ns V;
      Some (\<lparr>lt_parent = p, lt_name = \<lparr>wn_bytes = ln_name n, wn_lossy = ln_name_lossy n\<rparr>\<rparr> # rest, V)
    }"

fun add_missing_links :: "env \<Rightarrow> frn \<Rightarrow> layout_name list \<Rightarrow> volume \<Rightarrow> volume option" where
  "add_missing_links E f [] V = Some V"
| "add_missing_links E f (n # ns) V =
    do {
      (p, V) \<leftarrow> resolve_link_parent E f (ln_parent_frn n) V;
      have_link \<leftarrow> chain_has_link V f p (ln_name n);
      V \<leftarrow> (if have_link then Some V else add_link E f p (ln_name n) (ln_name_lossy n) V);
      add_missing_links E f ns V
    }"

partial_function (option) stat_loop :: "u64 option \<Rightarrow> i64 option \<Rightarrow> entry_idx \<Rightarrow> volume \<Rightarrow> volume option" where
  "stat_loop sz mt cur V =
    (if cur = NIL then Some V
     else do {
       V \<leftarrow> (case sz of Some s \<Rightarrow> on_entries (t_set_size cur s) V | None \<Rightarrow> Some V);
       V \<leftarrow> (case mt of Some m \<Rightarrow> on_entries (t_set_mtime cur m) V | None \<Rightarrow> Some V);
       nx \<leftarrow> t_next_link (v_entries V) cur;
       stat_loop sz mt nx V
     })"

definition lf_is_dir :: "layout_file \<Rightarrow> bool" where
  "lf_is_dir file \<longleftrightarrow> lf_attributes file AND FILE_ATTRIBUTE_DIRECTORY \<noteq> 0"

definition enrich_links :: "env \<Rightarrow> layout_file \<Rightarrow> volume \<Rightarrow> volume option" where
  "enrich_links E file V =
    do {
      V \<leftarrow> (if \<not> lf_is_dir file then add_missing_links E (lf_frn file) (filter (\<lambda>n. \<not> ln_dos_only n) (lf_names file)) V
            else Some V);
      h \<leftarrow> head_of V (lf_frn file);
      (case h of
         None \<Rightarrow> Some V
       | Some head \<Rightarrow> stat_loop (if lf_is_dir file then None else lf_size file) (lf_mtime_ft file) head V)
    }"

definition enrich :: "env \<Rightarrow> layout_file \<Rightarrow> volume \<Rightarrow> volume option" where
  "enrich E file V =
    do {
      h \<leftarrow> head_of V (lf_frn file);
      (case h of
         None \<Rightarrow> do {
           (desired, V) \<leftarrow> resolve_names E (lf_frn file) (filter (\<lambda>n. \<not> ln_dos_only n) (lf_names file)) V;
           if desired = [] then Some V
           else do { V \<leftarrow> set_chain_links E (lf_frn file) (lf_is_dir file) desired V; enrich_links E file V } }
       | Some _ \<Rightarrow> enrich_links E file V)
    }"

definition insert_layout :: "env \<Rightarrow> layout_file \<Rightarrow> volume \<Rightarrow> volume option" where
  "insert_layout E file V =
    do {
      V \<leftarrow> (case find (\<lambda>n. \<not> ln_dos_only n) (lf_names file) of
               Some n \<Rightarrow>
                 if ln_parent_frn n \<noteq> lf_frn file
                 then do { (_, V) \<leftarrow> upsert_link E (lf_frn file) (ln_parent_frn n) (ln_name n) (ln_name_lossy n) (lf_is_dir file) V; Some V }
                 else Some V
             | None \<Rightarrow> Some V);
      enrich E file V
    }"

section \<open>Live changes\<close>

definition apply_op :: "env \<Rightarrow> usn_op \<Rightarrow> apply_outcome \<times> volume \<Rightarrow> (apply_outcome \<times> volume) option" where
  "apply_op E op s =
    (case s of (out, V) \<Rightarrow>
      (case op of
         Upsert f pf name lossy is_dir \<Rightarrow> do {
           (r, V) \<leftarrow> upsert_link E f pf name lossy is_dir V;
           Some (if r = NeedsReconcile then out\<lparr>ao_needs_link_reconcile := ao_needs_link_reconcile out @ [f]\<rparr> else out, V) }
       | Delete f \<Rightarrow> do {
           (known, V) \<leftarrow> delete_frn E f V;
           Some (if known then (out, V)
                 else (out\<lparr>ao_anomalies := ao_anomalies out @ [DeleteOfUnknown f]\<rparr>,
                       V\<lparr>v_stats := (v_stats V)\<lparr>st_delete_of_unknown := st_delete_of_unknown (v_stats V) + 1\<rparr>\<rparr>)) }
       | LinkDirty f \<Rightarrow> Some (out\<lparr>ao_needs_link_reconcile := ao_needs_link_reconcile out @ [f]\<rparr>, V)
       | StatDirty f \<Rightarrow> Some (out\<lparr>ao_needs_stat := ao_needs_stat out @ [f]\<rparr>, V)
       | RenameOldSeen f \<Rightarrow>
           Some (out, V\<lparr>v_stats := (v_stats V)\<lparr>st_rename_old_seen := st_rename_old_seen (v_stats V) + 1\<rparr>\<rparr>)))"

fun apply_ops :: "env \<Rightarrow> usn_op list \<Rightarrow> apply_outcome \<times> volume \<Rightarrow> (apply_outcome \<times> volume) option" where
  "apply_ops E [] s = Some s"
| "apply_ops E (op # ops) s = do { s \<leftarrow> apply_op E op s; apply_ops E ops s }"

fun retain_known :: "volume \<Rightarrow> frn list \<Rightarrow> frn list option" where
  "retain_known V [] = Some []"
| "retain_known V (f # fs) =
    do { h \<leftarrow> head_of V f; rest \<leftarrow> retain_known V fs; Some (if h = None then rest else f # rest) }"

fun keep_suspects :: "volume \<Rightarrow> entry_idx list \<Rightarrow> entry_idx list option" where
  "keep_suspects V [] = Some []"
| "keep_suspects V (i # is) =
    do {
      p \<leftarrow> t_parent (v_entries V) i;
      b \<leftarrow> is_at_or_below V p i;
      rest \<leftarrow> keep_suspects V is;
      Some (if b then i # rest else rest)
    }"

definition prune_cycle_suspects :: "volume \<Rightarrow> volume option" where
  "prune_cycle_suspects V = do { s \<leftarrow> keep_suspects V (v_cycle_suspects V); Some (V\<lparr>v_cycle_suspects := s\<rparr>) }"

definition apply_batch :: "env \<Rightarrow> parsed_usn_record list \<Rightarrow> volume \<Rightarrow> (apply_outcome \<times> volume) option" where
  "apply_batch E records V =
    do {
      (out, V) \<leftarrow> apply_ops E (concat (map ops_for records)) (outcome_default, V);
      V \<leftarrow> (if wants_merge (v_names V) then on_names merge_unranked V else Some V);
      stat \<leftarrow> retain_known V (ao_needs_stat out);
      V \<leftarrow> prune_cycle_suspects V;
      let V = V\<lparr>v_generation := v_generation V + 1\<rparr>;
      Some (out\<lparr>ao_needs_stat := stat, ao_wants_compact := should_compact (v_names V)\<rparr>, V)
    }"

definition note_link_reconciles_dropped :: "u64 \<Rightarrow> volume \<Rightarrow> volume" where
  "note_link_reconciles_dropped n V =
    V\<lparr>v_stats := (v_stats V)\<lparr>st_link_reconciles_dropped := st_link_reconciles_dropped (v_stats V) + n\<rparr>\<rparr>"

definition reconcile_links :: "env \<Rightarrow> frn \<Rightarrow> link_target list \<Rightarrow> volume \<Rightarrow> volume option" where
  "reconcile_links E f actual V =
    (if actual = [] then do { (_, V) \<leftarrow> delete_frn E f V; Some V }
     else do {
       h \<leftarrow> head_of V f;
       is_dir \<leftarrow> (case h of None \<Rightarrow> Some False | Some head \<Rightarrow> do { fl \<leftarrow> t_flags (v_entries V) head; Some (contains fl DIR) });
       set_chain_links E f is_dir actual V
     })"

definition set_stat :: "frn \<Rightarrow> u64 \<Rightarrow> i64 \<Rightarrow> volume \<Rightarrow> volume option" where
  "set_stat f sz mt V =
    do {
      h \<leftarrow> head_of V f;
      (case h of
         None \<Rightarrow> Some V
       | Some head \<Rightarrow> do {
           fl \<leftarrow> t_flags (v_entries V) head;
           stat_loop (if contains fl DIR then None else Some sz) (Some mt) head V })
    }"

section \<open>Compaction and publication\<close>

definition plan_compaction :: "volume \<Rightarrow> compacted_names option option" where
  "plan_compaction V = (if \<not> should_compact (v_names V) then Some None else map_option Some (plan_compact (v_names V)))"

fun remap_entries :: "name_id list \<Rightarrow> entry_idx list \<Rightarrow> entry_table \<Rightarrow> entry_table option" where
  "remap_entries remap [] t = Some t"
| "remap_entries remap (i # is) t =
    do {
      dead \<leftarrow> is_tombstone t i;
      t \<leftarrow> (if dead then Some t
            else do { nid \<leftarrow> t_name_id t i; new \<leftarrow> idx remap nid; t_set_name_id i new t });
      remap_entries remap is t
    }"

definition apply_compaction :: "env \<Rightarrow> compacted_names \<Rightarrow> volume \<Rightarrow> volume option" where
  "apply_compaction E plan V =
    do {
      (remap, nm) \<leftarrow> install_compacted E plan (v_names V);
      t \<leftarrow> remap_entries remap [0..<as_u32 (table_capacity (v_entries V))] (v_entries V);
      Some (V\<lparr>v_names := nm, v_entries := t\<rparr>)
    }"

definition optimize_storage :: "nat \<Rightarrow> volume \<Rightarrow> volume option" where
  "optimize_storage map_capacity V =
    do {
      V \<leftarrow> on_names build_order (V\<lparr>v_by_frn := densify_if_smaller map_capacity (v_by_frn V)\<rparr>);
      prune_cycle_suspects V
    }"

section \<open>A new index\<close>

definition volume_new :: "env \<Rightarrow> frn \<Rightarrow> frn_map \<Rightarrow> volume option" where
  "volume_new E root_frn m =
    do {
      (root_name, nm) \<leftarrow> intern E [] names_new;
      (root, t) \<leftarrow> alloc root_frn NIL root_name DIR SIZE_UNKNOWN MTIME_UNKNOWN NIL table_new;
      let m = frn_set (record_number root_frn) root m;
      (lf_name, nm) \<leftarrow> intern E LOST_FOUND_NAME nm;
      (lost_found, t) \<leftarrow> alloc LOST_FOUND_FRN NIL lf_name (with_flag DIR LOST_FOUND True) SIZE_UNKNOWN MTIME_UNKNOWN NIL t;
      V \<leftarrow> link_same_name root root_name
        \<lparr>v_entries = t, v_names = nm, v_by_frn = m, v_root = root, v_lost_found = lost_found, v_generation = 0,
         v_stats = stats_default, v_dirty = 0, v_dir_children = Map.empty, v_cycle_suspects = []\<rparr>;
      link_same_name lost_found lf_name V
    }"

section \<open>Reading the index\<close>

definition has_orphans :: "volume \<Rightarrow> bool option" where
  "has_orphans V = do { c \<leftarrow> t_first_child (v_entries V) (v_lost_found V); Some (c \<noteq> NIL) }"

definition has_parent_cycle :: "volume \<Rightarrow> bool" where
  "has_parent_cycle V \<longleftrightarrow> v_cycle_suspects V \<noteq> []"

definition may_have_unpresentable :: "volume \<Rightarrow> bool option" where
  "may_have_unpresentable V = do { b \<leftarrow> has_orphans V; Some (b \<or> has_parent_cycle V) }"

definition take_write_count :: "volume \<Rightarrow> u64 \<times> volume" where
  "take_write_count V = (v_dirty V, V\<lparr>v_dirty := 0\<rparr>)"

fun path_chain :: "volume \<Rightarrow> nat \<Rightarrow> entry_idx \<Rightarrow> entry_idx list option" where
  "path_chain V 0 cur = Some []"
| "path_chain V (Suc hops) cur =
    do {
      p \<leftarrow> t_parent (v_entries V) cur;
      if p = NIL then Some [cur] else do { rest \<leftarrow> path_chain V hops p; Some (cur # rest) }
    }"

fun emit_path :: "volume \<Rightarrow> entry_idx list \<Rightarrow> u8 list \<Rightarrow> u8 list option" where
  "emit_path V [] out = Some out"
| "emit_path V (e # es) out =
    (if e = v_root V then emit_path V es out
     else do {
       nid \<leftarrow> t_name_id (v_entries V) e;
       b \<leftarrow> raw_bytes (v_names V) nid;
       emit_path V es ((if out = [] then [] else out @ [92]) @ b)
     })"

definition path_of :: "volume \<Rightarrow> entry_idx \<Rightarrow> u8 list \<Rightarrow> (path_status \<times> u8 list) option" where
  "path_of V i out =
    do {
      dead \<leftarrow> is_tombstone (v_entries V) i;
      if dead then Some (Removed, out)
      else do {
        chain \<leftarrow> path_chain V MAX_PATH_HOPS i;
        top \<leftarrow> (if chain = [] then None else Some (last chain));
        p \<leftarrow> t_parent (v_entries V) top;
        if p \<noteq> NIL then Some (CycleDetected, out)
        else do {
          out \<leftarrow> emit_path V (rev chain) out;
          Some (if top = v_lost_found V then InLostFound else PathOk, out)
        }
      }
    }"

definition entry_if_frn :: "volume \<Rightarrow> entry_idx \<Rightarrow> frn \<Rightarrow> entry_idx option option" where
  "entry_if_frn V i f =
    (if table_capacity (v_entries V) \<le> i then Some None
     else do {
       dead \<leftarrow> is_tombstone (v_entries V) i;
       if dead then Some None
       else do { g \<leftarrow> t_frn (v_entries V) i; Some (if g = f then Some i else None) }
     })"

definition is_synthetic :: "volume \<Rightarrow> entry_idx \<Rightarrow> bool option" where
  "is_synthetic V i =
    do {
      fl \<leftarrow> t_flags (v_entries V) i;
      Some (i = v_root V \<or> i = v_lost_found V \<or> contains fl PLACEHOLDER \<or> contains fl LOST_FOUND)
    }"

definition name_may_bear_synthetic :: "volume \<Rightarrow> name_id \<Rightarrow> bool option" where
  "name_may_bear_synthetic V nid =
    do { raw \<leftarrow> raw_bytes (v_names V) nid; Some (raw = [] \<or> raw = LOST_FOUND_NAME \<or> raw = PLACEHOLDER_NAME) }"

definition name_order_stats :: "volume \<Rightarrow> u64 \<times> u64" where
  "name_order_stats V = (word_of_nat (length (ns_order (v_names V))), word_of_nat (length (ns_unranked (v_names V))))"

text \<open>The iterators, as the lists they yield.\<close>

partial_function (option) same_name_from :: "entry_table \<Rightarrow> entry_idx \<Rightarrow> entry_idx list option" where
  "same_name_from t cur =
    (if cur = NIL then Some []
     else do { nx \<leftarrow> t_next_same t cur; rest \<leftarrow> same_name_from t nx; Some (cur # rest) })"

definition name_chain :: "volume \<Rightarrow> name_id \<Rightarrow> entry_idx list option" where
  "name_chain V nid = do { h \<leftarrow> chain_head (v_names V) nid; same_name_from (v_entries V) h }"

partial_function (option) children_from :: "entry_table \<Rightarrow> entry_idx \<Rightarrow> entry_idx list option" where
  "children_from t cur =
    (if cur = NIL then Some []
     else do { nx \<leftarrow> t_next_child t cur; rest \<leftarrow> children_from t nx; Some (cur # rest) })"

definition children :: "volume \<Rightarrow> entry_idx \<Rightarrow> entry_idx list option" where
  "children V dir = do { c \<leftarrow> t_first_child (v_entries V) dir; children_from (v_entries V) c }"

record subtree_walk =
  sw_root :: entry_idx
  sw_cur :: entry_idx
  sw_depth :: nat

definition subtree_entries :: "volume \<Rightarrow> entry_idx \<Rightarrow> subtree_walk option" where
  "subtree_entries V root =
    do { c \<leftarrow> t_first_child (v_entries V) root; Some \<lparr>sw_root = root, sw_cur = c, sw_depth = 1\<rparr> }"

text \<open>The climb back: the next sibling of the nearest ancestor that has one, bounded by the depth.\<close>

fun climb :: "entry_table \<Rightarrow> entry_idx \<Rightarrow> entry_idx \<Rightarrow> nat \<Rightarrow> (entry_idx \<times> nat) option" where
  "climb t root at depth =
    do {
      sib \<leftarrow> t_next_child t at;
      if sib \<noteq> NIL then Some (sib, depth)
      else (case depth of
              0 \<Rightarrow> Some (NIL, depth)
            | Suc 0 \<Rightarrow> Some (NIL, depth)
            | Suc d \<Rightarrow> do {
                p \<leftarrow> t_parent t at;
                if p = root \<or> p = NIL then Some (NIL, d) else climb t root p d })
    }"

definition subtree_next :: "entry_table \<Rightarrow> subtree_walk \<Rightarrow> (entry_idx option \<times> subtree_walk) option" where
  "subtree_next t w =
    (if sw_cur w = NIL then Some (None, w)
     else do {
       down \<leftarrow> t_first_child t (sw_cur w);
       if down \<noteq> NIL then Some (Some (sw_cur w), w\<lparr>sw_cur := down, sw_depth := sw_depth w + 1\<rparr>)
       else do {
         (c, d) \<leftarrow> climb t (sw_root w) (sw_cur w) (sw_depth w);
         Some (Some (sw_cur w), w\<lparr>sw_cur := c, sw_depth := d\<rparr>)
       }
     })"

section \<open>Entry views\<close>

definition view_name :: "volume \<Rightarrow> entry_idx \<Rightarrow> u8 list option" where
  "view_name V i = do { nid \<leftarrow> t_name_id (v_entries V) i; raw_bytes (v_names V) nid }"

definition view_is_dir :: "volume \<Rightarrow> entry_idx \<Rightarrow> bool option" where
  "view_is_dir V i = do { fl \<leftarrow> t_flags (v_entries V) i; Some (contains fl DIR) }"

definition view_size :: "volume \<Rightarrow> entry_idx \<Rightarrow> u64 option option" where
  "view_size V i = do { s \<leftarrow> t_size (v_entries V) i; Some (if s \<noteq> SIZE_UNKNOWN then Some s else None) }"

definition view_mtime :: "volume \<Rightarrow> entry_idx \<Rightarrow> i64 option option" where
  "view_mtime V i = do { m \<leftarrow> t_mtime (v_entries V) i; Some (if m \<noteq> MTIME_UNKNOWN then Some m else None) }"

end
