(* ===== verification/Volume_Inv.thy ===== *)
theory Volume_Inv
  imports Volume Chains
begin

text \<open>
  What a volume index keeps: exact same-name and child chains, reference counts that match them,
  a scope index equal to one rebuilt from the entries, and live parents. The invariant names the
  entries an operation has taken out of each structure, so that the steps of an operation compose.
\<close>

section \<open>Columns of a volume\<close>

abbreviation live :: "volume \<Rightarrow> entry_idx set" where "live V \<equiv> live_of (et_flags (v_entries V))"
abbreviation par :: "volume \<Rightarrow> entry_idx \<Rightarrow> entry_idx" where "par V i \<equiv> et_parent (v_entries V) ! i"
abbreviation nid :: "volume \<Rightarrow> entry_idx \<Rightarrow> name_id" where "nid V i \<equiv> et_name_id (v_entries V) ! i"
abbreviation vflags :: "volume \<Rightarrow> entry_idx \<Rightarrow> entry_flags" where "vflags V i \<equiv> et_flags (v_entries V) ! i"
abbreviation slots :: "volume \<Rightarrow> nat" where "slots V \<equiv> length (et_flags (v_entries V))"

lemma cols_lengths:
  assumes "cols_ok t"
  shows "length (et_flags t) \<le> NIL" "length (et_frn t) = length (et_flags t)" "length (et_parent t) = length (et_flags t)"
    "length (et_name_id t) = length (et_flags t)" "length (et_size t) = length (et_flags t)"
    "length (et_mtime t) = length (et_flags t)" "length (et_next_link t) = length (et_flags t)"
    "length (et_next_same t) = length (et_flags t)" "length (et_prev_same t) = length (et_flags t)"
    "length (et_first_child t) = length (et_flags t)" "length (et_next_child t) = length (et_flags t)"
    "length (et_prev_child t) = length (et_flags t)"
  using assms by (simp_all add: cols_ok_def Let_def)

section \<open>The chain operations as column updates\<close>

definition t_same_linked :: "entry_idx list \<Rightarrow> entry_idx \<Rightarrow> name_id \<Rightarrow> entry_table \<Rightarrow> entry_table" where
  "t_same_linked hds i n t =
    t\<lparr>et_next_same := push_next hds (et_next_same t) n i, et_prev_same := push_prev hds (et_prev_same t) n i\<rparr>"

definition same_linked :: "entry_idx \<Rightarrow> name_id \<Rightarrow> volume \<Rightarrow> volume" where
  "same_linked i n V =
     V\<lparr>v_entries := t_same_linked (ns_head (v_names V)) i n (v_entries V),
       v_names := (v_names V)\<lparr>ns_head := (ns_head (v_names V))[n := i]\<rparr>\<rparr>"

definition t_same_unlinked :: "entry_idx \<Rightarrow> entry_table \<Rightarrow> entry_table" where
  "t_same_unlinked i t =
    t\<lparr>et_next_same := unlink_next (et_next_same t) (et_prev_same t) i,
      et_prev_same := unlink_prev (et_next_same t) (et_prev_same t) i\<rparr>"

definition same_unlinked :: "entry_idx \<Rightarrow> volume \<Rightarrow> volume" where
  "same_unlinked i V =
     V\<lparr>v_entries := t_same_unlinked i (v_entries V),
       v_names := (v_names V)\<lparr>ns_head := unlink_head (ns_head (v_names V)) (et_next_same (v_entries V)) (et_prev_same (v_entries V)) (nid V i) i\<rparr>\<rparr>"

definition t_child_linked :: "entry_idx \<Rightarrow> entry_table \<Rightarrow> entry_table" where
  "t_child_linked i t =
    (let hds = et_first_child t; p = et_parent t ! i in
     if p = NIL then t
     else t\<lparr>et_first_child := hds[p := i], et_next_child := push_next hds (et_next_child t) p i,
            et_prev_child := push_prev hds (et_prev_child t) p i\<rparr>)"

definition t_child_unlinked :: "entry_idx \<Rightarrow> entry_table \<Rightarrow> entry_table" where
  "t_child_unlinked i t =
    (let p = et_parent t ! i; prv = et_prev_child t ! i; nxt = et_next_child t ! i;
         t1 = (if prv = NIL then t\<lparr>et_first_child := (et_first_child t)[p := nxt]\<rparr>
               else t\<lparr>et_next_child := (et_next_child t)[prv := nxt]\<rparr>);
         t2 = (if nxt \<noteq> NIL then t1\<lparr>et_prev_child := (et_prev_child t1)[nxt := prv]\<rparr> else t1);
         t3 = t2\<lparr>et_next_child := (et_next_child t2)[i := NIL]\<rparr>;
         t4 = t3\<lparr>et_prev_child := (et_prev_child t3)[i := NIL]\<rparr>
     in if p = NIL then t else t4)"

lemmas step_defs = on_entries_def on_names_def t_defs set_chain_head_def chain_head_def

lemma link_same_name_eq:
  assumes "cols_ok (v_entries V)" "i < slots V" "n < length (ns_head (v_names V))"
    "ns_head (v_names V) ! n = NIL \<or> ns_head (v_names V) ! n < slots V"
  shows "link_same_name i n V = Some (same_linked i n V)"
  using assms(2-) cols_lengths(4,8,9)[OF assms(1)]
  by (cases "ns_head (v_names V) ! n = NIL")
    (simp_all add: link_same_name_def step_defs same_linked_def t_same_linked_def push_next_def push_prev_def)

lemma unlink_same_name_eq:
  assumes "cols_ok (v_entries V)" "i < slots V" "nid V i < length (ns_head (v_names V))"
    "et_next_same (v_entries V) ! i = NIL \<or> et_next_same (v_entries V) ! i < slots V"
    "et_prev_same (v_entries V) ! i = NIL \<or> et_prev_same (v_entries V) ! i < slots V"
  shows "unlink_same_name i V = Some (same_unlinked i V)"
  using assms(2-) cols_lengths(4,8,9)[OF assms(1)]
  by (cases "et_next_same (v_entries V) ! i = NIL"; cases "et_prev_same (v_entries V) ! i = NIL")
    (simp_all add: unlink_same_name_def step_defs same_unlinked_def t_same_unlinked_def unlink_head_def unlink_next_def unlink_prev_def)

lemma link_child_eq:
  assumes "cols_ok (v_entries V)" "i < slots V" "par V i = NIL \<or> par V i < slots V"
    "par V i \<noteq> NIL \<Longrightarrow> et_first_child (v_entries V) ! par V i = NIL \<or> et_first_child (v_entries V) ! par V i < slots V"
  shows "link_child i V = Some (V\<lparr>v_entries := t_child_linked i (v_entries V)\<rparr>)"
proof -
  define t where "t = v_entries V"
  show ?thesis
    using assms(2-) cols_lengths(3,10,11,12)[OF assms(1)] unfolding link_child_def on_entries_def t_def[symmetric]
    by (cases "et_parent t ! i = NIL"; cases "et_first_child t ! (et_parent t ! i) = NIL")
      (simp_all add: t_defs t_child_linked_def push_next_def push_prev_def Let_def)
qed

lemma unlink_child_eq:
  assumes "cols_ok (v_entries V)" "i < slots V" "par V i = NIL \<or> par V i < slots V"
    "par V i \<noteq> NIL \<Longrightarrow> et_next_child (v_entries V) ! i = NIL \<or> et_next_child (v_entries V) ! i < slots V"
    "par V i \<noteq> NIL \<Longrightarrow> et_prev_child (v_entries V) ! i = NIL \<or> et_prev_child (v_entries V) ! i < slots V"
  shows "unlink_child i V = Some (V\<lparr>v_entries := t_child_unlinked i (v_entries V)\<rparr>)"
proof -
  define t where "t = v_entries V"
  show ?thesis
    using assms(2-) cols_lengths(3,10,11,12)[OF assms(1)] unfolding unlink_child_def on_entries_def t_def[symmetric]
    by (auto simp: t_defs t_child_unlinked_def Let_def)
qed

lemma t_same_fields [simp]:
  shows "et_frn (t_same_linked hds i n t) = et_frn t"
    "et_parent (t_same_linked hds i n t) = et_parent t"
    "et_name_id (t_same_linked hds i n t) = et_name_id t"
    "et_flags (t_same_linked hds i n t) = et_flags t"
    "et_size (t_same_linked hds i n t) = et_size t"
    "et_mtime (t_same_linked hds i n t) = et_mtime t"
    "et_next_link (t_same_linked hds i n t) = et_next_link t"
    "et_first_child (t_same_linked hds i n t) = et_first_child t"
    "et_next_child (t_same_linked hds i n t) = et_next_child t"
    "et_prev_child (t_same_linked hds i n t) = et_prev_child t"
    "et_free (t_same_linked hds i n t) = et_free t"
    "et_live (t_same_linked hds i n t) = et_live t"
    "et_next_same (t_same_linked hds i n t) = push_next hds (et_next_same t) n i"
    "et_prev_same (t_same_linked hds i n t) = push_prev hds (et_prev_same t) n i"
  by (simp_all add: t_same_linked_def)

lemma t_same_un_fields [simp]:
  shows "et_frn (t_same_unlinked i t) = et_frn t"
    "et_parent (t_same_unlinked i t) = et_parent t"
    "et_name_id (t_same_unlinked i t) = et_name_id t"
    "et_flags (t_same_unlinked i t) = et_flags t"
    "et_size (t_same_unlinked i t) = et_size t"
    "et_mtime (t_same_unlinked i t) = et_mtime t"
    "et_next_link (t_same_unlinked i t) = et_next_link t"
    "et_first_child (t_same_unlinked i t) = et_first_child t"
    "et_next_child (t_same_unlinked i t) = et_next_child t"
    "et_prev_child (t_same_unlinked i t) = et_prev_child t"
    "et_free (t_same_unlinked i t) = et_free t"
    "et_live (t_same_unlinked i t) = et_live t"
    "et_next_same (t_same_unlinked i t) = unlink_next (et_next_same t) (et_prev_same t) i"
    "et_prev_same (t_same_unlinked i t) = unlink_prev (et_next_same t) (et_prev_same t) i"
  by (simp_all add: t_same_unlinked_def)

lemma t_child_fields [simp]:
  shows "et_frn (t_child_linked i t) = et_frn t"
    "et_parent (t_child_linked i t) = et_parent t"
    "et_name_id (t_child_linked i t) = et_name_id t"
    "et_flags (t_child_linked i t) = et_flags t"
    "et_size (t_child_linked i t) = et_size t"
    "et_mtime (t_child_linked i t) = et_mtime t"
    "et_next_link (t_child_linked i t) = et_next_link t"
    "et_next_same (t_child_linked i t) = et_next_same t"
    "et_prev_same (t_child_linked i t) = et_prev_same t"
    "et_free (t_child_linked i t) = et_free t"
    "et_live (t_child_linked i t) = et_live t"
  by (simp_all add: t_child_linked_def Let_def)

lemma t_child_linked_cols:
  assumes "et_parent t ! i = p" "p \<noteq> NIL"
  shows "et_first_child (t_child_linked i t) = (et_first_child t)[p := i]"
    "et_next_child (t_child_linked i t) = push_next (et_first_child t) (et_next_child t) p i"
    "et_prev_child (t_child_linked i t) = push_prev (et_first_child t) (et_prev_child t) p i"
  using assms by (simp_all add: t_child_linked_def Let_def)

lemma t_child_un_fields [simp]:
  shows "et_frn (t_child_unlinked i t) = et_frn t"
    "et_parent (t_child_unlinked i t) = et_parent t"
    "et_name_id (t_child_unlinked i t) = et_name_id t"
    "et_flags (t_child_unlinked i t) = et_flags t"
    "et_size (t_child_unlinked i t) = et_size t"
    "et_mtime (t_child_unlinked i t) = et_mtime t"
    "et_next_link (t_child_unlinked i t) = et_next_link t"
    "et_next_same (t_child_unlinked i t) = et_next_same t"
    "et_prev_same (t_child_unlinked i t) = et_prev_same t"
    "et_free (t_child_unlinked i t) = et_free t"
    "et_live (t_child_unlinked i t) = et_live t"
  by (simp_all add: t_child_unlinked_def Let_def)

lemma t_child_unlinked_cols:
  assumes "et_parent t ! i = p" "p \<noteq> NIL"
  shows "et_first_child (t_child_unlinked i t) = unlink_head (et_first_child t) (et_next_child t) (et_prev_child t) p i"
    "et_next_child (t_child_unlinked i t) = unlink_next (et_next_child t) (et_prev_child t) i"
    "et_prev_child (t_child_unlinked i t) = unlink_prev (et_next_child t) (et_prev_child t) i"
  using assms by (simp_all add: t_child_unlinked_def unlink_head_def unlink_next_def unlink_prev_def Let_def)

section \<open>The invariant\<close>

definition dirent :: "volume \<Rightarrow> entry_idx \<Rightarrow> bool" where
  "dirent V i \<longleftrightarrow> contains (vflags V i) DIR \<and> \<not> contains (vflags V i) PLACEHOLDER \<and> i \<noteq> v_root V \<and> i \<noteq> v_lost_found V"

definition dirs :: "volume \<Rightarrow> entry_idx set" where
  "dirs V = {i \<in> live V. dirent V i}"

definition kids :: "volume \<Rightarrow> entry_idx set" where
  "kids V = {i \<in> live V. par V i \<noteq> NIL}"

definition dkey :: "env \<Rightarrow> volume \<Rightarrow> entry_idx \<Rightarrow> entry_idx \<times> u64" where
  "dkey E V i = (par V i, dir_key_hash E (folded_of (v_names V) (nid V i)))"

definition same_ok :: "volume \<Rightarrow> entry_idx set \<Rightarrow> bool" where
  "same_ok V S \<longleftrightarrow> chains_ok (ns_head (v_names V)) (et_next_same (v_entries V)) (et_prev_same (v_entries V)) (nid V) S"

definition child_ok :: "volume \<Rightarrow> entry_idx set \<Rightarrow> bool" where
  "child_ok V S \<longleftrightarrow> chains_ok (et_first_child (v_entries V)) (et_next_child (v_entries V)) (et_prev_child (v_entries V)) (par V) S"

definition refs_ok :: "volume \<Rightarrow> entry_idx set \<Rightarrow> bool" where
  "refs_ok V S \<longleftrightarrow>
    (\<forall>i \<in> S. nid V i < length (ns_refcount (v_names V))) \<and>
    (\<forall>n < length (ns_refcount (v_names V)). ns_refcount (v_names V) ! n = card {i \<in> S. nid V i = n})"

definition slot_ok :: "entry_idx set \<Rightarrow> entry_idx list option \<Rightarrow> bool" where
  "slot_ok A s \<longleftrightarrow> (case s of None \<Rightarrow> A = {} | Some xs \<Rightarrow> xs \<noteq> [] \<and> distinct xs \<and> set xs = A)"

definition dir_ok :: "env \<Rightarrow> volume \<Rightarrow> entry_idx set \<Rightarrow> bool" where
  "dir_ok E V S \<longleftrightarrow> (\<forall>k. slot_ok {i \<in> S. dkey E V i = k} (v_dir_children V k))"

definition core :: "env \<Rightarrow> volume \<Rightarrow> entry_idx set \<Rightarrow> entry_idx set \<Rightarrow> entry_idx set \<Rightarrow> entry_idx set \<Rightarrow> bool" where
  "core E V Xs Xr Xc Xd \<longleftrightarrow>
    table_ok (v_entries V) \<and> names_ok E (v_names V) \<and> order_ok (v_names V) \<and>
    same_ok V (live V - Xs) \<and> refs_ok V (live V - Xr) \<and> child_ok V (kids V - Xc) \<and> dir_ok E V (dirs V - Xd) \<and>
    (\<forall>i < slots V. par V i = NIL \<or> i \<in> live V \<and> par V i \<in> live V) \<and>
    v_lost_found V \<in> live V \<and> par V (v_lost_found V) = NIL"

lemma coreD:
  assumes "core E V Xs Xr Xc Xd"
  shows "table_ok (v_entries V)" "cols_ok (v_entries V)" "names_ok E (v_names V)" "order_ok (v_names V)"
    "same_ok V (live V - Xs)" "refs_ok V (live V - Xr)" "child_ok V (kids V - Xc)" "dir_ok E V (dirs V - Xd)"
    "\<And>i. i \<in> live V \<Longrightarrow> par V i = NIL \<or> par V i \<in> live V" "v_lost_found V \<in> live V" "par V (v_lost_found V) = NIL"
    "\<And>i. i \<in> live V \<Longrightarrow> i < slots V" "\<And>i. i \<in> live V \<Longrightarrow> i < NIL"
    "\<And>i. i < slots V \<Longrightarrow> par V i = NIL \<or> i \<in> live V \<and> par V i \<in> live V"
proof -
  show t: "table_ok (v_entries V)" "names_ok E (v_names V)" "order_ok (v_names V)"
    "same_ok V (live V - Xs)" "refs_ok V (live V - Xr)" "child_ok V (kids V - Xc)" "dir_ok E V (dirs V - Xd)"
    "v_lost_found V \<in> live V" "par V (v_lost_found V) = NIL"
    using assms unfolding core_def by blast+
  have all: "\<And>i. i < slots V \<Longrightarrow> par V i = NIL \<or> i \<in> live V \<and> par V i \<in> live V"
    using assms unfolding core_def by blast
  show "\<And>i. i < slots V \<Longrightarrow> par V i = NIL \<or> i \<in> live V \<and> par V i \<in> live V" by (rule all)
  show "\<And>i. i \<in> live V \<Longrightarrow> par V i = NIL \<or> par V i \<in> live V" using all live_of_less by blast
  show c: "cols_ok (v_entries V)" using t(1) by (simp add: table_ok_def)
  show "\<And>i. i \<in> live V \<Longrightarrow> i < slots V" by (rule live_of_less)
  then show "\<And>i. i \<in> live V \<Longrightarrow> i < NIL" using cols_lengths(1)[OF c] by (meson le_less_trans less_le_trans)
qed

subsection \<open>The scope index\<close>

lemma folded_name_at:
  assumes "core E V Xs Xr Xc Xd" "i \<in> live V - Xr"
  shows "folded_name V i = Some (folded_of (v_names V) (nid V i))" "dir_key E V i = Some (dkey E V i)"
proof -
  note D = coreD[OF assms(1)]
  have i: "i < slots V" using assms(2) D(12) by blast
  have "nid V i < length (ns_refcount (v_names V))" using D(6) assms(2) by (simp add: refs_ok_def)
  then have n: "nid V i < length (ns_pairs (v_names V))" using D(3) by (simp add: names_ok_def)
  show "folded_name V i = Some (folded_of (v_names V) (nid V i))"
    using i cols_lengths(4)[OF D(2)] by (simp add: folded_name_def t_name_id_def names_folded_bytes[OF D(3) n])
  then show "dir_key E V i = Some (dkey E V i)"
    using i cols_lengths(3)[OF D(2)] by (simp add: dir_key_def t_parent_def dkey_def)
qed

lemma slot_remove:
  "slot_ok A (Some xs) \<Longrightarrow> slot_ok (A - {i}) (let ys = filter (\<lambda>d. d \<noteq> i) xs in if ys = [] then None else Some ys)"
  by (auto simp: slot_ok_def Let_def filter_empty_conv)

lemma slot_insert:
  "slot_ok A m \<Longrightarrow> i \<notin> A \<Longrightarrow>
    slot_ok (insert i A) (Some (let s = (case m of Some s \<Rightarrow> s | None \<Rightarrow> []) in if i \<in> set s then s else s @ [i]))"
  by (cases m) (auto simp: slot_ok_def Let_def)

lemma slots_remove:
  assumes m: "\<forall>k. slot_ok {j \<in> S. key j = k} (m k)"
    and d: "d = (case m (key i) of None \<Rightarrow> m
      | Some xs \<Rightarrow> m(key i := (let ys = filter (\<lambda>d. d \<noteq> i) xs in if ys = [] then None else Some ys)))"
  shows "\<forall>k. slot_ok {j \<in> S - {i}. key j = k} (d k)"
proof
  fix k
  have same: "{j \<in> S - {i}. key j = k} = {j \<in> S. key j = k}" if "k \<noteq> key i" using that by auto
  have mine: "{j \<in> S - {i}. key j = key i} = {j \<in> S. key j = key i} - {i}" by auto
  have mk: "slot_ok {j \<in> S. key j = k} (m k)" "slot_ok {j \<in> S. key j = key i} (m (key i))" using m by blast+
  show "slot_ok {j \<in> S - {i}. key j = k} (d k)"
  proof (cases "m (key i)")
    case None
    then have "{j \<in> S. key j = key i} = {}" using mk(2) by (simp add: slot_ok_def)
    then have "{j \<in> S - {i}. key j = k} = {j \<in> S. key j = k}" by auto
    then show ?thesis using mk(1) None unfolding d by simp
  next
    case (Some xs)
    show ?thesis
    proof (cases "k = key i")
      case True
      show ?thesis unfolding True mine using slot_remove[of _ xs i] mk(2) Some unfolding d by simp
    next
      case False
      then show ?thesis using mk(1) Some unfolding same[OF False] d by simp
    qed
  qed
qed

lemma slots_insert:
  assumes m: "\<forall>k. slot_ok {j \<in> S. key j = k} (m k)" and i: "i \<notin> S"
  shows "\<forall>k. slot_ok {j \<in> insert i S. key j = k}
    ((m(key i \<mapsto> (let s = (case m (key i) of Some s \<Rightarrow> s | None \<Rightarrow> []) in if i \<in> set s then s else s @ [i]))) k)"
proof
  fix k
  have same: "{j \<in> insert i S. key j = k} = {j \<in> S. key j = k}" if "k \<noteq> key i" using that by auto
  have mine: "{j \<in> insert i S. key j = key i} = insert i {j \<in> S. key j = key i}" by auto
  have mk: "slot_ok {j \<in> S. key j = k} (m k)" "slot_ok {j \<in> S. key j = key i} (m (key i))" using m by blast+
  show "slot_ok {j \<in> insert i S. key j = k}
    ((m(key i \<mapsto> (let s = (case m (key i) of Some s \<Rightarrow> s | None \<Rightarrow> []) in if i \<in> set s then s else s @ [i]))) k)"
  proof (cases "k = key i")
    case True
    show ?thesis unfolding True mine using slot_insert[OF mk(2), of i] i by simp
  next
    case False
    then show ?thesis using mk(1) unfolding same[OF False] by simp
  qed
qed

lemma dir_children_core:
  assumes "core E V Xs Xr Xc Xd" "dir_ok E (V\<lparr>v_dir_children := d\<rparr>) (dirs V - Xd')"
  shows "core E (V\<lparr>v_dir_children := d\<rparr>) Xs Xr Xc Xd'"
proof -
  have "dirs (V\<lparr>v_dir_children := d\<rparr>) = dirs V" "kids (V\<lparr>v_dir_children := d\<rparr>) = kids V"
    by (simp_all add: dirs_def dirent_def kids_def)
  then show ?thesis using assms unfolding core_def same_ok_def refs_ok_def child_ok_def by simp
qed

lemma dkey_dir_children [simp]: "dkey E (V\<lparr>v_dir_children := d\<rparr>) = dkey E V"
  by (simp add: dkey_def fun_eq_iff)

lemma dir_index_remove_core:
  assumes "core E V Xs Xr Xc Xd" "i \<in> live V - Xr"
  shows "\<exists>d. dir_index_remove E i V = Some (V\<lparr>v_dir_children := d\<rparr>) \<and>
    core E (V\<lparr>v_dir_children := d\<rparr>) Xs Xr Xc (insert i Xd)"
proof -
  note D = coreD[OF assms(1)]
  have i: "i < slots V" using assms(2) D(12) by blast
  have m: "\<forall>k. slot_ok {j \<in> dirs V - Xd. dkey E V j = k} (v_dir_children V k)" using D(8) by (simp add: dir_ok_def)
  have eq: "dirs V - Xd - {i} = dirs V - insert i Xd" by auto
  show ?thesis
  proof (cases "contains (vflags V i) DIR")
    case True
    define d where "d = (case v_dir_children V (dkey E V i) of None \<Rightarrow> v_dir_children V
      | Some xs \<Rightarrow> (v_dir_children V)(dkey E V i := (let ys = filter (\<lambda>d. d \<noteq> i) xs in if ys = [] then None else Some ys)))"
    have "dir_index_remove E i V = Some (V\<lparr>v_dir_children := d\<rparr>)"
      using i folded_name_at(2)[OF assms] True
      by (simp add: dir_index_remove_def t_flags_def d_def Let_def split: option.splits)
    moreover have "dir_ok E (V\<lparr>v_dir_children := d\<rparr>) (dirs V - insert i Xd)"
      using slots_remove[OF m d_def] by (simp add: dir_ok_def eq)
    ultimately show ?thesis using dir_children_core[OF assms(1)] by blast
  next
    case False
    then have "dirs V - insert i Xd = dirs V - Xd" by (auto simp: dirs_def dirent_def)
    then have "dir_ok E (V\<lparr>v_dir_children := v_dir_children V\<rparr>) (dirs V - insert i Xd)" using D(8) by simp
    moreover have "dir_index_remove E i V = Some (V\<lparr>v_dir_children := v_dir_children V\<rparr>)"
      using i False by (simp add: dir_index_remove_def t_flags_def)
    ultimately show ?thesis using dir_children_core[OF assms(1)] by blast
  qed
qed

lemma dir_index_insert_core:
  assumes "core E V Xs Xr Xc Xd" "i \<in> live V - Xr" "i \<in> Xd"
  shows "\<exists>d. dir_index_insert E i V = Some (V\<lparr>v_dir_children := d\<rparr>) \<and>
    core E (V\<lparr>v_dir_children := d\<rparr>) Xs Xr Xc (Xd - {i})"
proof -
  note D = coreD[OF assms(1)]
  have i: "i < slots V" using assms(2) D(12) by blast
  have m: "\<forall>k. slot_ok {j \<in> dirs V - Xd. dkey E V j = k} (v_dir_children V k)" using D(8) by (simp add: dir_ok_def)
  show ?thesis
  proof (cases "dirent V i")
    case True
    define d where "d = (v_dir_children V)(dkey E V i \<mapsto>
      (let s = (case v_dir_children V (dkey E V i) of Some s \<Rightarrow> s | None \<Rightarrow> []) in if i \<in> set s then s else s @ [i]))"
    have "dir_index_insert E i V = Some (V\<lparr>v_dir_children := d\<rparr>)"
      using i folded_name_at(2)[OF assms(1,2)] True
      by (simp add: dir_index_insert_def t_flags_def dirent_def d_def Let_def split: option.splits)
    moreover have "insert i (dirs V - Xd) = dirs V - (Xd - {i})" using True assms(2,3) by (auto simp: dirs_def)
    then have "dir_ok E (V\<lparr>v_dir_children := d\<rparr>) (dirs V - (Xd - {i}))"
      using slots_insert[OF m, of i] assms(3) unfolding dir_ok_def dkey_dir_children by (simp add: d_def)
    ultimately show ?thesis using dir_children_core[OF assms(1)] by blast
  next
    case False
    then have "dirs V - (Xd - {i}) = dirs V - Xd" by (auto simp: dirs_def)
    then have "dir_ok E (V\<lparr>v_dir_children := v_dir_children V\<rparr>) (dirs V - (Xd - {i}))" using D(8) by simp
    moreover have "dir_index_insert E i V = Some (V\<lparr>v_dir_children := v_dir_children V\<rparr>)"
      using i False by (auto simp: dir_index_insert_def t_flags_def dirent_def)
    ultimately show ?thesis using dir_children_core[OF assms(1)] by blast
  qed
qed

subsection \<open>Same-name chains\<close>

lemma names_head_ok:
  assumes "names_ok E nm" "order_ok nm" "length hs = length (ns_head nm)"
  shows "names_ok E (nm\<lparr>ns_head := hs\<rparr>)" "order_ok (nm\<lparr>ns_head := hs\<rparr>)"
proof -
  let ?nm = "nm\<lparr>ns_head := hs\<rparr>"
  have same: "names_live ?nm = names_live nm" "folded_of ?nm = folded_of nm" "raw_of ?nm = raw_of nm"
    by (simp_all add: names_live_def folded_of_def raw_of_def fun_eq_iff)
  show "names_ok E ?nm" using assms(1,3) unfolding names_ok_def same by simp
  show "order_ok ?nm" by (rule order_ok_shrink[OF assms(2)]) (simp_all add: same)
qed

lemma folded_of_head [simp]: "folded_of (nm\<lparr>ns_head := hs\<rparr>) = folded_of nm" "raw_of (nm\<lparr>ns_head := hs\<rparr>) = raw_of nm"
  by (simp_all add: folded_of_def raw_of_def fun_eq_iff)

lemma same_fields [simp]:
  "v_entries (same_linked i n V) = t_same_linked (ns_head (v_names V)) i n (v_entries V)"
  "v_names (same_linked i n V) = (v_names V)\<lparr>ns_head := (ns_head (v_names V))[n := i]\<rparr>"
  "v_by_frn (same_linked i n V) = v_by_frn V" "v_root (same_linked i n V) = v_root V"
  "v_lost_found (same_linked i n V) = v_lost_found V" "v_dir_children (same_linked i n V) = v_dir_children V"
  "v_stats (same_linked i n V) = v_stats V" "v_cycle_suspects (same_linked i n V) = v_cycle_suspects V"
  by (simp_all add: same_linked_def)

lemma same_un_fields [simp]:
  "v_entries (same_unlinked i V) = t_same_unlinked i (v_entries V)"
  "v_names (same_unlinked i V) = (v_names V)\<lparr>ns_head := unlink_head (ns_head (v_names V)) (et_next_same (v_entries V)) (et_prev_same (v_entries V)) (nid V i) i\<rparr>"
  "v_by_frn (same_unlinked i V) = v_by_frn V" "v_root (same_unlinked i V) = v_root V"
  "v_lost_found (same_unlinked i V) = v_lost_found V" "v_dir_children (same_unlinked i V) = v_dir_children V"
  "v_stats (same_unlinked i V) = v_stats V" "v_cycle_suspects (same_unlinked i V) = v_cycle_suspects V"
  by (simp_all add: same_unlinked_def)

lemma table_ok_cong:
  "table_ok t \<Longrightarrow> et_flags t' = et_flags t \<Longrightarrow> et_free t' = et_free t \<Longrightarrow> et_live t' = et_live t \<Longrightarrow> cols_ok t' \<Longrightarrow> table_ok t'"
  by (simp add: table_ok_def free_ok_def)

lemma core_same_step:
  assumes core: "core E V Xs Xr Xc Xd"
    and V': "V' = V\<lparr>v_entries := t', v_names := (v_names V)\<lparr>ns_head := hs\<rparr>\<rparr>" "length hs = length (ns_head (v_names V))"
    and t': "t' = (v_entries V)\<lparr>et_next_same := a, et_prev_same := b\<rparr>" "length a = slots V" "length b = slots V"
    and ok: "chains_ok hs a b (nid V) (live V - Xs')"
  shows "core E V' Xs' Xr Xc Xd"
proof -
  note D = coreD[OF core]
  have cols: "cols_ok t'" using D(2) t' by (simp add: cols_ok_def Let_def)
  have tk: "table_ok t'" using table_ok_cong[OF D(1)] t'(1) cols by simp
  note nh = names_head_ok[OF D(3,4) V'(2)]
  have "dirs V' = dirs V" "kids V' = kids V" "dkey E V' = dkey E V"
    by (simp_all add: V' t' dirs_def dirent_def kids_def dkey_def fun_eq_iff)
  then show ?thesis
    using core tk nh ok unfolding core_def same_ok_def refs_ok_def child_ok_def dir_ok_def by (simp add: V'(1) t'(1))
qed

lemma unlink_same_core:
  assumes core: "core E V Xs Xr Xc Xd" and i: "i \<in> live V - Xs"
  shows "unlink_same_name i V = Some (same_unlinked i V)" "core E (same_unlinked i V) (insert i Xs) Xr Xc Xd"
proof -
  note D = coreD[OF core]
  have ch: "chains_ok (ns_head (v_names V)) (et_next_same (v_entries V)) (et_prev_same (v_entries V)) (nid V) (live V - Xs)"
    using D(5) by (simp add: same_ok_def)
  note nb = chains_ok_neighbours[OF ch i]
  show "unlink_same_name i V = Some (same_unlinked i V)"
    using nb i D(12) by (intro unlink_same_name_eq[OF D(2)]) auto
  have "live V - Xs - {i} = live V - insert i Xs" by auto
  then have ch': "chains_ok (unlink_head (ns_head (v_names V)) (et_next_same (v_entries V)) (et_prev_same (v_entries V)) (nid V i) i)
      (unlink_next (et_next_same (v_entries V)) (et_prev_same (v_entries V)) i)
      (unlink_prev (et_next_same (v_entries V)) (et_prev_same (v_entries V)) i) (nid V) (live V - insert i Xs)"
    using chains_ok_unlink[OF ch i refl] by simp
  show "core E (same_unlinked i V) (insert i Xs) Xr Xc Xd"
    by (rule core_same_step[OF core same_unlinked_def _ t_same_unlinked_def _ _ ch'])
      (simp_all add: cols_lengths(8,9)[OF D(2)])
qed

lemma link_same_core:
  assumes core: "core E V Xs Xr Xc Xd" and i: "i \<in> live V" "i \<in> Xs" "nid V i = n" "n < length (ns_head (v_names V))"
  shows "link_same_name i n V = Some (same_linked i n V)" "core E (same_linked i n V) (Xs - {i}) Xr Xc Xd"
proof -
  note D = coreD[OF core]
  have ch: "chains_ok (ns_head (v_names V)) (et_next_same (v_entries V)) (et_prev_same (v_entries V)) (nid V) (live V - Xs)"
    using D(5) by (simp add: same_ok_def)
  show "link_same_name i n V = Some (same_linked i n V)"
    using chains_ok_head(1)[OF ch i(4)] i D(12) by (intro link_same_name_eq[OF D(2)]) auto
  have "insert i (live V - Xs) = live V - (Xs - {i})" using i by auto
  then have ch': "chains_ok ((ns_head (v_names V))[n := i]) (push_next (ns_head (v_names V)) (et_next_same (v_entries V)) n i)
      (push_prev (ns_head (v_names V)) (et_prev_same (v_entries V)) n i) (nid V) (live V - (Xs - {i}))"
    using chains_ok_push[OF ch _ _ i(3,4)] i D(12)[OF i(1)] cols_lengths(8)[OF D(2)] by simp
  show "core E (same_linked i n V) (Xs - {i}) Xr Xc Xd"
    by (rule core_same_step[OF core same_linked_def _ t_same_linked_def _ _ ch'])
      (simp_all add: cols_lengths(8,9)[OF D(2)])
qed

subsection \<open>Child chains\<close>

lemma core_child_step:
  assumes core: "core E V Xs Xr Xc Xd"
    and fs: "et_flags t' = et_flags (v_entries V)" "et_frn t' = et_frn (v_entries V)" "et_parent t' = et_parent (v_entries V)"
      "et_name_id t' = et_name_id (v_entries V)" "et_size t' = et_size (v_entries V)" "et_mtime t' = et_mtime (v_entries V)"
      "et_next_link t' = et_next_link (v_entries V)" "et_next_same t' = et_next_same (v_entries V)"
      "et_prev_same t' = et_prev_same (v_entries V)" "et_free t' = et_free (v_entries V)" "et_live t' = et_live (v_entries V)"
    and len: "length (et_first_child t') = slots V" "length (et_next_child t') = slots V" "length (et_prev_child t') = slots V"
    and ok: "chains_ok (et_first_child t') (et_next_child t') (et_prev_child t') (par V) (kids V - Xc')"
  shows "core E (V\<lparr>v_entries := t'\<rparr>) Xs Xr Xc' Xd"
proof -
  note D = coreD[OF core]
  have cols: "cols_ok t'" using D(2) len by (simp add: cols_ok_def fs Let_def)
  have tk: "table_ok t'" using table_ok_cong[OF D(1)] fs cols by simp
  have "dirs (V\<lparr>v_entries := t'\<rparr>) = dirs V" "kids (V\<lparr>v_entries := t'\<rparr>) = kids V" "dkey E (V\<lparr>v_entries := t'\<rparr>) = dkey E V"
    by (simp_all add: fs dirs_def dirent_def kids_def dkey_def fun_eq_iff)
  then show ?thesis
    using core tk ok unfolding core_def same_ok_def refs_ok_def child_ok_def dir_ok_def by (simp add: fs)
qed

lemma unlink_child_core:
  assumes core: "core E V Xs Xr Xc Xd" and i: "i \<in> live V - Xc"
  shows "unlink_child i V = Some (V\<lparr>v_entries := t_child_unlinked i (v_entries V)\<rparr>)"
    "core E (V\<lparr>v_entries := t_child_unlinked i (v_entries V)\<rparr>) Xs Xr (insert i Xc) Xd"
proof -
  note D = coreD[OF core]
  have ch: "chains_ok (et_first_child (v_entries V)) (et_next_child (v_entries V)) (et_prev_child (v_entries V)) (par V) (kids V - Xc)"
    using D(7) by (simp add: child_ok_def)
  have kl: "kids V \<subseteq> live V" by (auto simp: kids_def)
  have nb: "par V i \<noteq> NIL \<Longrightarrow> i \<in> kids V - Xc" using i by (simp add: kids_def)
  show "unlink_child i V = Some (V\<lparr>v_entries := t_child_unlinked i (v_entries V)\<rparr>)"
    using chains_ok_neighbours(1,2)[OF ch nb] i D(9,12) kl by (intro unlink_child_eq[OF D(2)]) blast+
  show "core E (V\<lparr>v_entries := t_child_unlinked i (v_entries V)\<rparr>) Xs Xr (insert i Xc) Xd"
  proof (cases "par V i = NIL")
    case True
    then have "kids V - insert i Xc = kids V - Xc" by (auto simp: kids_def)
    moreover have "t_child_unlinked i (v_entries V) = v_entries V" using True by (simp add: t_child_unlinked_def)
    ultimately show ?thesis using core by (simp add: core_def)
  next
    case False
    have "kids V - Xc - {i} = kids V - insert i Xc" by auto
    then show ?thesis
      using chains_ok_unlink[OF ch nb[OF False] refl] t_child_unlinked_cols[OF refl False]
      by (intro core_child_step[OF core]) (simp_all add: cols_lengths(10,11,12)[OF D(2)])
  qed
qed

lemma link_child_core:
  assumes core: "core E V Xs Xr Xc Xd" and i: "i \<in> live V" "i \<in> Xc"
  shows "link_child i V = Some (V\<lparr>v_entries := t_child_linked i (v_entries V)\<rparr>)"
    "core E (V\<lparr>v_entries := t_child_linked i (v_entries V)\<rparr>) Xs Xr (Xc - {i}) Xd"
proof -
  note D = coreD[OF core]
  have ch: "chains_ok (et_first_child (v_entries V)) (et_next_child (v_entries V)) (et_prev_child (v_entries V)) (par V) (kids V - Xc)"
    using D(7) by (simp add: child_ok_def)
  have kl: "kids V \<subseteq> live V" by (auto simp: kids_def)
  have pl: "par V i \<noteq> NIL \<Longrightarrow> par V i < length (et_first_child (v_entries V))"
    using D(9)[OF i(1)] D(12) cols_lengths(10)[OF D(2)] by auto
  show "link_child i V = Some (V\<lparr>v_entries := t_child_linked i (v_entries V)\<rparr>)"
    using chains_ok_head(1)[OF ch pl] i D(9,12) kl by (intro link_child_eq[OF D(2)]) blast+
  show "core E (V\<lparr>v_entries := t_child_linked i (v_entries V)\<rparr>) Xs Xr (Xc - {i}) Xd"
  proof (cases "par V i = NIL")
    case True
    then have "kids V - (Xc - {i}) = kids V - Xc" by (auto simp: kids_def)
    moreover have "t_child_linked i (v_entries V) = v_entries V" using True by (simp add: t_child_linked_def)
    ultimately show ?thesis using core by (simp add: core_def)
  next
    case False
    then have "insert i (kids V - Xc) = kids V - (Xc - {i})" using i by (auto simp: kids_def)
    then show ?thesis
      using chains_ok_push[OF ch _ _ refl pl[OF False]] i D(12)[OF i(1)] t_child_linked_cols[OF refl False]
      by (intro core_child_step[OF core]) (simp_all add: cols_lengths(10,11,12)[OF D(2)])
  qed
qed

subsection \<open>Moving children away\<close>

lemma set_parent_core:
  assumes core: "core E V Xs Xr Xc Xd" and c: "c \<in> live V" "c \<in> Xc" "c \<in> Xd" "c \<noteq> v_lost_found V"
    and p: "p = NIL \<or> p \<in> live V"
  shows "on_entries (t_set_parent c p) V = Some (V\<lparr>v_entries := (v_entries V)\<lparr>et_parent := (et_parent (v_entries V))[c := p]\<rparr>\<rparr>)"
    "core E (V\<lparr>v_entries := (v_entries V)\<lparr>et_parent := (et_parent (v_entries V))[c := p]\<rparr>\<rparr>) Xs Xr Xc Xd"
proof -
  note D = coreD[OF core]
  let ?t = "(v_entries V)\<lparr>et_parent := (et_parent (v_entries V))[c := p]\<rparr>" and ?V = "V\<lparr>v_entries := (v_entries V)\<lparr>et_parent := (et_parent (v_entries V))[c := p]\<rparr>\<rparr>"
  have cl: "c < length (et_parent (v_entries V))" using c(1) D(12) cols_lengths(3)[OF D(2)] by simp
  then show "on_entries (t_set_parent c p) V = Some ?V" by (simp add: on_entries_def t_set_parent_def)
  have cols: "cols_ok ?t" using D(2) by (simp add: cols_ok_def Let_def)
  have tk: "table_ok ?t" using table_ok_cong[OF D(1)] cols by simp
  have pv: "par ?V j = (if j = c then p else par V j)" for j using cl by (simp add: nth_list_update)
  have kx: "x \<in> kids ?V \<longleftrightarrow> x \<in> kids V" if "x \<notin> Xc" for x
  proof -
    have "x \<noteq> c" using that c(2) by auto
    then show ?thesis by (simp add: kids_def)
  qed
  then have kd: "kids ?V - Xc = kids V - Xc" by blast
  have dr: "dirs ?V = dirs V" by (simp add: dirs_def dirent_def)
  have "child_ok ?V (kids ?V - Xc)"
  proof -
    have "chains_ok (et_first_child (v_entries V)) (et_next_child (v_entries V)) (et_prev_child (v_entries V)) (par V) (kids V - Xc)"
      using D(7) by (simp add: child_ok_def)
    then have "chains_ok (et_first_child (v_entries V)) (et_next_child (v_entries V)) (et_prev_child (v_entries V)) (par ?V) (kids V - Xc)"
      by (rule chains_ok_cong) (use c pv in auto)
    then show ?thesis unfolding kd by (simp add: child_ok_def)
  qed
  moreover have "dir_ok E ?V (dirs ?V - Xd)"
  proof -
    have "dkey E ?V j = dkey E V j" if "j \<in> dirs V - Xd" for j
    proof -
      have "j \<noteq> c" using that c(3) by auto
      then show ?thesis using pv[of j] by (simp add: dkey_def)
    qed
    then have "{j \<in> dirs V - Xd. dkey E ?V j = k} = {j \<in> dirs V - Xd. dkey E V j = k}" for k by auto
    then show ?thesis using D(8) unfolding dir_ok_def dr by simp
  qed
  moreover have "\<forall>j < slots ?V. par ?V j = NIL \<or> j \<in> live ?V \<and> par ?V j \<in> live ?V" using D(14) p pv c(1) by simp
  moreover have "par ?V (v_lost_found ?V) = NIL" using D(11) c(4) pv by simp
  ultimately show "core E ?V Xs Xr Xc Xd"
    using D(3-6,10) tk unfolding core_def same_ok_def refs_ok_def by simp
qed

definition orphan_step :: "env \<Rightarrow> entry_idx \<Rightarrow> volume \<Rightarrow> volume option" where
  "orphan_step E c V =
    do {
      V \<leftarrow> dir_index_remove E c V;
      V \<leftarrow> on_entries (t_set_parent c (v_lost_found V)) V;
      V \<leftarrow> link_child c V;
      V \<leftarrow> dir_index_insert E c V;
      Some (bump_dirty V)
    }"

lemma orphan_loop_Cons:
  "cur \<noteq> NIL \<Longrightarrow> orphan_loop E cur V =
    do { nx \<leftarrow> t_next_child (v_entries V) cur; V \<leftarrow> orphan_step E cur V; orphan_loop E nx V }"
  by (subst orphan_loop.simps) (simp add: orphan_step_def)

lemma orphan_loop_NIL [simp]: "orphan_loop E NIL V = Some V"
  by (subst orphan_loop.simps) simp

text \<open>What moving children leaves alone.\<close>

definition same_but_tree :: "volume \<Rightarrow> volume \<Rightarrow> bool" where
  "same_but_tree V V' \<longleftrightarrow>
    v_names V' = v_names V \<and> v_by_frn V' = v_by_frn V \<and> v_root V' = v_root V \<and> v_lost_found V' = v_lost_found V \<and>
    v_stats V' = v_stats V \<and> v_cycle_suspects V' = v_cycle_suspects V \<and> v_generation V' = v_generation V \<and>
    et_frn (v_entries V') = et_frn (v_entries V) \<and> et_flags (v_entries V') = et_flags (v_entries V) \<and>
    et_name_id (v_entries V') = et_name_id (v_entries V) \<and> et_size (v_entries V') = et_size (v_entries V) \<and>
    et_mtime (v_entries V') = et_mtime (v_entries V) \<and> et_next_link (v_entries V') = et_next_link (v_entries V)"

lemma same_but_tree_refl [simp]: "same_but_tree V V" by (simp add: same_but_tree_def)

lemma same_but_tree_trans: "same_but_tree U V \<Longrightarrow> same_but_tree V W \<Longrightarrow> same_but_tree U W"
  by (simp add: same_but_tree_def)

lemma bump_dirty_fields [simp]:
  "v_entries (bump_dirty V) = v_entries V" "v_names (bump_dirty V) = v_names V" "v_by_frn (bump_dirty V) = v_by_frn V"
  "v_root (bump_dirty V) = v_root V" "v_lost_found (bump_dirty V) = v_lost_found V" "v_stats (bump_dirty V) = v_stats V"
  "v_cycle_suspects (bump_dirty V) = v_cycle_suspects V" "v_dir_children (bump_dirty V) = v_dir_children V"
  "v_generation (bump_dirty V) = v_generation V"
  by (simp_all add: bump_dirty_def)

text \<open>The invariant reads only the entries, the names, the scope index and the two roots.\<close>

lemma core_cong:
  assumes "core E V Xs Xr Xc Xd" "v_entries V' = v_entries V" "v_names V' = v_names V"
    "v_dir_children V' = v_dir_children V" "v_root V' = v_root V" "v_lost_found V' = v_lost_found V"
  shows "core E V' Xs Xr Xc Xd"
proof -
  have "dirs V' = dirs V" "kids V' = kids V" "dkey E V' = dkey E V"
    using assms(2-) by (simp_all add: dirs_def dirent_def kids_def dkey_def fun_eq_iff)
  then show ?thesis using assms unfolding core_def same_ok_def refs_ok_def child_ok_def dir_ok_def by simp
qed

lemma orphan_step_core:
  assumes core: "core E V Xs Xr Xc Xd" and c: "c \<in> live V" "c \<notin> Xr" "c \<in> Xc" "c \<notin> Xd" "c \<noteq> v_lost_found V"
  shows "\<exists>V'. orphan_step E c V = Some V' \<and> core E V' Xs Xr (Xc - {c}) Xd \<and> same_but_tree V V' \<and>
    et_parent (v_entries V') = (et_parent (v_entries V))[c := v_lost_found V] \<and>
    (\<forall>j. j \<noteq> c \<longrightarrow> et_next_child (v_entries V') ! j = et_next_child (v_entries V) ! j)"
proof -
  obtain d1 where d1: "dir_index_remove E c V = Some (V\<lparr>v_dir_children := d1\<rparr>)"
      "core E (V\<lparr>v_dir_children := d1\<rparr>) Xs Xr Xc (insert c Xd)"
    using dir_index_remove_core[OF core, of c] c by blast
  let ?V1 = "V\<lparr>v_dir_children := d1\<rparr>"
  let ?V2 = "?V1\<lparr>v_entries := (v_entries ?V1)\<lparr>et_parent := (et_parent (v_entries ?V1))[c := v_lost_found ?V1]\<rparr>\<rparr>"
  have s2: "on_entries (t_set_parent c (v_lost_found ?V1)) ?V1 = Some ?V2" "core E ?V2 Xs Xr Xc (insert c Xd)"
    using set_parent_core[OF d1(2), of c "v_lost_found ?V1"] c coreD(10)[OF core] by simp_all
  let ?V3 = "?V2\<lparr>v_entries := t_child_linked c (v_entries ?V2)\<rparr>"
  have s3: "link_child c ?V2 = Some ?V3" "core E ?V3 Xs Xr (Xc - {c}) (insert c Xd)"
    using link_child_core[OF s2(2), of c] c by simp_all
  obtain d2 where s4: "dir_index_insert E c ?V3 = Some (?V3\<lparr>v_dir_children := d2\<rparr>)"
      "core E (?V3\<lparr>v_dir_children := d2\<rparr>) Xs Xr (Xc - {c}) (insert c Xd - {c})"
    using dir_index_insert_core[OF s3(2), of c] c by auto
  let ?V4 = "bump_dirty (?V3\<lparr>v_dir_children := d2\<rparr>)"
  have "insert c Xd - {c} = Xd" using c by auto
  then have "core E ?V4 Xs Xr (Xc - {c}) Xd"
    using core_cong[OF s4(2), of ?V4] by simp
  moreover have "orphan_step E c V = Some ?V4" using d1(1) s2(1) s3(1) s4(1) by (simp add: orphan_step_def)
  moreover have "same_but_tree V ?V4" by (simp add: same_but_tree_def)
  moreover have "\<forall>j. j \<noteq> c \<longrightarrow> et_next_child (v_entries ?V4) ! j = et_next_child (v_entries V) ! j"
    by (simp add: t_child_linked_def push_next_def Let_def)
  ultimately show ?thesis by (intro exI[of _ ?V4]) simp
qed

text \<open>Forgetting the children of one entry.\<close>

definition cut :: "entry_idx \<Rightarrow> volume \<Rightarrow> volume" where
  "cut i V = V\<lparr>v_entries := (v_entries V)\<lparr>et_first_child := (et_first_child (v_entries V))[i := NIL]\<rparr>\<rparr>"

lemma cut_fields [simp]:
  "v_names (cut i V) = v_names V" "v_by_frn (cut i V) = v_by_frn V" "v_root (cut i V) = v_root V"
  "v_lost_found (cut i V) = v_lost_found V" "v_stats (cut i V) = v_stats V" "v_dir_children (cut i V) = v_dir_children V"
  "v_cycle_suspects (cut i V) = v_cycle_suspects V" "v_generation (cut i V) = v_generation V"
  "et_frn (v_entries (cut i V)) = et_frn (v_entries V)" "et_parent (v_entries (cut i V)) = et_parent (v_entries V)"
  "et_name_id (v_entries (cut i V)) = et_name_id (v_entries V)" "et_flags (v_entries (cut i V)) = et_flags (v_entries V)"
  "et_size (v_entries (cut i V)) = et_size (v_entries V)" "et_mtime (v_entries (cut i V)) = et_mtime (v_entries V)"
  "et_next_link (v_entries (cut i V)) = et_next_link (v_entries V)" "et_next_child (v_entries (cut i V)) = et_next_child (v_entries V)"
  "et_prev_child (v_entries (cut i V)) = et_prev_child (v_entries V)"
  "et_first_child (v_entries (cut i V)) = (et_first_child (v_entries V))[i := NIL]"
  "et_next_same (v_entries (cut i V)) = et_next_same (v_entries V)" "et_prev_same (v_entries (cut i V)) = et_prev_same (v_entries V)"
  by (simp_all add: cut_def)

lemma dir_key_cut [simp]: "dir_key E (cut i V) c = dir_key E V c"
  by (simp add: dir_key_def folded_name_def t_parent_def t_name_id_def)

lemma cut_dir_children: "cut i (V\<lparr>v_dir_children := d\<rparr>) = (cut i V)\<lparr>v_dir_children := d\<rparr>"
  by (simp add: cut_def)

lemma dir_index_remove_cut: "dir_index_remove E c (cut i V) = map_option (cut i) (dir_index_remove E c V)"
  by (cases "t_flags (v_entries V) c"; cases "dir_key E V c")
    (auto simp: dir_index_remove_def t_flags_def cut_dir_children Let_def idx_def split: option.splits if_splits)

lemma dir_index_insert_cut: "dir_index_insert E c (cut i V) = map_option (cut i) (dir_index_insert E c V)"
  by (cases "t_flags (v_entries V) c"; cases "dir_key E V c")
    (auto simp: dir_index_insert_def t_flags_def cut_dir_children Let_def idx_def split: option.splits if_splits)

definition t_cut :: "entry_idx \<Rightarrow> entry_table \<Rightarrow> entry_table" where
  "t_cut i t = t\<lparr>et_first_child := (et_first_child t)[i := NIL]\<rparr>"

lemma on_entries_cut:
  assumes "f (t_cut i (v_entries V)) = map_option (t_cut i) (f (v_entries V))"
  shows "on_entries f (cut i V) = map_option (cut i) (on_entries f V)"
  using assms by (cases "f (v_entries V)") (simp_all add: on_entries_def cut_def t_cut_def)

lemma set_parent_cut: "on_entries (t_set_parent c p) (cut i V) = map_option (cut i) (on_entries (t_set_parent c p) V)"
  by (rule on_entries_cut) (simp add: t_set_parent_def upd_def t_cut_def)

lemma link_child_cut:
  assumes "par V c \<noteq> i"
  shows "link_child c (cut i V) = map_option (cut i) (link_child c V)"
  unfolding link_child_def
proof (rule on_entries_cut)
  define t where "t = v_entries V"
  have p: "et_parent t ! c \<noteq> i" using assms by (simp add: t_def)
  show "(t_parent (t_cut i (v_entries V)) c \<bind>
      (\<lambda>p. if p = NIL then Some (t_cut i (v_entries V)) else do {
        old_head \<leftarrow> t_first_child (t_cut i (v_entries V)) p;
        t \<leftarrow> t_set_next_child c old_head (t_cut i (v_entries V));
        t \<leftarrow> t_set_prev_child c NIL t;
        t \<leftarrow> (if old_head \<noteq> NIL then t_set_prev_child old_head c t else Some t);
        t_set_first_child p c t })) =
    map_option (t_cut i) (t_parent (v_entries V) c \<bind>
      (\<lambda>p. if p = NIL then Some (v_entries V) else do {
        old_head \<leftarrow> t_first_child (v_entries V) p;
        t \<leftarrow> t_set_next_child c old_head (v_entries V);
        t \<leftarrow> t_set_prev_child c NIL t;
        t \<leftarrow> (if old_head \<noteq> NIL then t_set_prev_child old_head c t else Some t);
        t_set_first_child p c t }))"
    unfolding t_def[symmetric] using p
    by (simp add: t_defs idx_def upd_def t_cut_def list_update_swap nth_list_update)
qed

lemma bump_dirty_cut: "bump_dirty (cut i V) = cut i (bump_dirty V)"
  by (simp add: bump_dirty_def cut_def)

lemma orphan_step_cut:
  assumes i: "i \<noteq> v_lost_found V"
  shows "orphan_step E c (cut i V) = map_option (cut i) (orphan_step E c V)"
proof (cases "dir_index_remove E c V")
  case None
  then show ?thesis by (simp add: orphan_step_def dir_index_remove_cut)
next
  case (Some V1)
  have lf: "v_lost_found V1 = v_lost_found V"
    using Some by (auto simp: dir_index_remove_def Let_def split: option.splits if_splits Option.bind_splits)
  show ?thesis
  proof (cases "on_entries (t_set_parent c (v_lost_found V1)) V1")
    case None
    then show ?thesis using Some by (simp add: orphan_step_def dir_index_remove_cut set_parent_cut)
  next
    case (Some V2)
    then have "par V2 c = v_lost_found V1" by (auto simp: on_entries_def t_set_parent_def upd_def split: if_splits)
    then have "link_child c (cut i V2) = map_option (cut i) (link_child c V2)" using i lf by (intro link_child_cut) simp
    then show ?thesis using \<open>dir_index_remove E c V = Some V1\<close> Some
      by (cases "link_child c V2"; cases "dir_index_insert E c (the (link_child c V2))")
        (simp_all add: orphan_step_def dir_index_remove_cut set_parent_cut dir_index_insert_cut bump_dirty_cut)
  qed
qed

text \<open>The children still to move, as the loop meets them.\<close>

fun lseg :: "entry_idx list \<Rightarrow> entry_idx \<Rightarrow> entry_idx list \<Rightarrow> bool" where
  "lseg nx h [] \<longleftrightarrow> h = NIL"
| "lseg nx h (x # xs) \<longleftrightarrow> h = x \<and> x \<noteq> NIL \<and> x < length nx \<and> lseg nx (nx ! x) xs"

lemma lseg_cong: "lseg nx h xs \<Longrightarrow> length nx' = length nx \<Longrightarrow> (\<And>x. x \<in> set xs \<Longrightarrow> nx' ! x = nx ! x) \<Longrightarrow> lseg nx' h xs"
  by (induction xs arbitrary: h) auto

lemma seg_lseg: "seg nx pv p h NIL xs \<Longrightarrow> lseg nx h xs"
  by (induction xs arbitrary: p h) auto

lemma orphan_loop_core:
  assumes "core E (cut i V) Xs Xr Xc Xd" "i \<noteq> v_lost_found V" "lseg (et_next_child (v_entries V)) cur xs" "distinct xs"
    "set xs \<subseteq> live V - Xr" "set xs \<subseteq> Xc" "set xs \<inter> Xd = {}" "v_lost_found V \<notin> set xs"
  shows "\<exists>V'. orphan_loop E cur V = Some V' \<and> core E (cut i V') Xs Xr (Xc - set xs) Xd \<and> same_but_tree V V' \<and>
    length (et_parent (v_entries V')) = length (et_parent (v_entries V)) \<and>
    (\<forall>j < slots V. par V' j = (if j \<in> set xs then v_lost_found V else par V j))"
  using assms
proof (induction xs arbitrary: V Xc cur)
  case Nil
  then show ?case by simp
next
  case (Cons c xs)
  note core = Cons.prems(1)
  have c: "c \<in> live (cut i V)" "c \<notin> Xr" "c \<in> Xc" "c \<notin> Xd" "c \<noteq> v_lost_found (cut i V)" using Cons.prems by auto
  obtain W where W: "orphan_step E c (cut i V) = Some W" "core E W Xs Xr (Xc - {c}) Xd" "same_but_tree (cut i V) W"
      "et_parent (v_entries W) = (et_parent (v_entries V))[c := v_lost_found V]"
      "\<And>j. j \<noteq> c \<Longrightarrow> et_next_child (v_entries W) ! j = et_next_child (v_entries V) ! j"
    using orphan_step_core[OF core c] by auto
  obtain V1 where V1: "orphan_step E c V = Some V1" "W = cut i V1"
    using W(1) Cons.prems(2) by (auto simp: orphan_step_cut)
  have f1: "same_but_tree V V1" using W(3) unfolding V1(2) by (simp add: same_but_tree_def)
  have s1: "et_flags (v_entries V1) = et_flags (v_entries V)" "v_lost_found V1 = v_lost_found V"
    using f1 by (simp_all add: same_but_tree_def)
  have nl: "length (et_next_child (v_entries V1)) = length (et_next_child (v_entries V))"
    using cols_lengths(11)[OF coreD(2)[OF core]] cols_lengths(11)[OF coreD(2)[OF W(2)]] s1 unfolding V1(2) by simp
  have "lseg (et_next_child (v_entries V1)) (et_next_child (v_entries V) ! c) xs"
  proof (rule lseg_cong[of "et_next_child (v_entries V)"])
    fix x assume "x \<in> set xs"
    then have "x \<noteq> c" using Cons.prems(4) by auto
    then show "et_next_child (v_entries V1) ! x = et_next_child (v_entries V) ! x" using W(5)[of x] unfolding V1(2) by simp
  qed (use Cons.prems(3) nl in auto)
  then obtain V' where V': "orphan_loop E (et_next_child (v_entries V) ! c) V1 = Some V'"
      "core E (cut i V') Xs Xr (Xc - {c} - set xs) Xd" "same_but_tree V1 V'"
      "length (et_parent (v_entries V')) = length (et_parent (v_entries V1))"
      "\<And>j. j < slots V \<Longrightarrow> par V' j = (if j \<in> set xs then v_lost_found V1 else par V1 j)"
    using Cons.IH[of V1 "Xc - {c}" "et_next_child (v_entries V) ! c"] W(2) Cons.prems unfolding V1(2) by (auto simp: s1)
  have "orphan_loop E cur V = Some V'"
    using Cons.prems(3) V1(1) V'(1) by (simp add: orphan_loop_Cons t_next_child_def)
  moreover have "Xc - {c} - set xs = Xc - set (c # xs)" by auto
  moreover have p1: "et_parent (v_entries V1) = (et_parent (v_entries V))[c := v_lost_found V]" using W(4) unfolding V1(2) by simp
  moreover have "length (et_parent (v_entries V)) = slots V" using cols_lengths(3)[OF coreD(2)[OF core]] by simp
  ultimately show ?case
    using V'(2-5) same_but_tree_trans[OF f1 V'(3)] s1 Cons.prems(4)
    by (intro exI[of _ V']) (auto simp: nth_list_update)
qed

lemma chains_ok_drop_chain:
  assumes ok: "chains_ok hds nx pv key S"
  shows "chains_ok (hds[k := NIL]) nx pv key {j \<in> S. key j \<noteq> k}"
  unfolding chains_ok_def
proof (intro conjI allI impI)
  show "length nx \<le> NIL" "length pv = length nx" "{j \<in> S. key j \<noteq> k} \<subseteq> {..<length nx}"
    "\<forall>i \<in> {j \<in> S. key j \<noteq> k}. key i < length (hds[k := NIL])"
    using ok by (auto simp: chains_ok_def)
  fix m assume m: "m < length (hds[k := NIL])"
  show "\<exists>xs. seg nx pv NIL (hds[k := NIL] ! m) NIL xs \<and> distinct xs \<and> set xs = {i \<in> {j \<in> S. key j \<noteq> k}. key i = m}"
  proof (cases "m = k")
    case True
    then show ?thesis using m by (intro exI[of _ "[]"]) auto
  next
    case False
    have "\<exists>xs. seg nx pv NIL (hds ! m) NIL xs \<and> distinct xs \<and> set xs = {i \<in> S. key i = m}"
      using ok m by (simp add: chains_ok_def)
    moreover have "{i \<in> {j \<in> S. key j \<noteq> k}. key i = m} = {i \<in> S. key i = m}" using False by auto
    ultimately show ?thesis using False by simp
  qed
qed

definition kids_of :: "volume \<Rightarrow> entry_idx \<Rightarrow> entry_idx set" where
  "kids_of V i = {j \<in> live V. par V j = i}"

lemma cut_core:
  assumes core: "core E V Xs Xr Xc Xd" and i: "i \<in> live V"
  shows "core E (cut i V) Xs Xr (Xc \<union> kids_of V i) Xd"
proof -
  note D = coreD[OF core]
  have k: "kids (cut i V) = kids V" by (simp add: kids_def)
  have "kids V - (Xc \<union> kids_of V i) = {j \<in> kids V - Xc. par V j \<noteq> i}"
    using D(13)[OF i] by (auto simp: kids_def kids_of_def)
  then have "child_ok (cut i V) (kids (cut i V) - (Xc \<union> kids_of V i))"
    using chains_ok_drop_chain[OF D(7)[unfolded child_ok_def], of i] unfolding child_ok_def k by simp
  moreover have "table_ok (v_entries (cut i V))"
    using D(2) table_ok_cong[OF D(1), of "v_entries (cut i V)"] by (simp add: cut_def cols_ok_def Let_def)
  moreover have "dirs (cut i V) = dirs V" "dkey E (cut i V) = dkey E V"
    by (simp_all add: dirs_def dirent_def dkey_def fun_eq_iff)
  ultimately show ?thesis using D(3-6,8,10,11,14) unfolding core_def same_ok_def refs_ok_def dir_ok_def by simp
qed

text \<open>What a removed folder's children become.\<close>

definition orphaned :: "entry_idx \<Rightarrow> volume \<Rightarrow> volume \<Rightarrow> bool" where
  "orphaned i V V' \<longleftrightarrow> same_but_tree V V' \<and>
    (\<forall>j < slots V. par V' j = (if j \<in> live V \<and> j \<noteq> i \<and> par V j = i then v_lost_found V else par V j))"

lemma orphan_children_core:
  assumes core: "core E V Xs Xr {i} {i}" and i: "i \<in> live V" "i \<noteq> v_lost_found V" and Xr: "Xr \<subseteq> {i}"
  shows "\<exists>V'. orphan_children E i V = Some V' \<and> core E V' Xs Xr {i} {i} \<and> orphaned i V V' \<and>
    et_first_child (v_entries V') ! i = NIL"
proof -
  note D = coreD[OF core]
  let ?A = "{j \<in> kids V - {i}. par V j = i}"
  have A: "?A = kids_of V i - {i}" using D(13)[OF i(1)] by (auto simp: kids_def kids_of_def)
  have il: "i < length (et_first_child (v_entries V))" using D(12)[OF i(1)] cols_lengths(10)[OF D(2)] by simp
  obtain xs where xs: "seg (et_next_child (v_entries V)) (et_prev_child (v_entries V)) NIL (et_first_child (v_entries V) ! i) NIL xs"
      "distinct xs" "set xs = ?A"
    using D(7) il by (auto simp: child_ok_def chains_ok_def)
  have x: "set xs \<subseteq> live V" "i \<notin> set xs" "v_lost_found V \<notin> set xs" using xs(3) D(11,13) by (auto simp: kids_def)
  have e: "{i} \<union> kids_of V i = insert i (set xs)" using A xs(3) by auto
  obtain V1 where V1: "orphan_loop E (et_first_child (v_entries V) ! i) V = Some V1"
      "core E (cut i V1) Xs Xr (insert i (set xs) - set xs) {i}" "same_but_tree V V1"
      "\<And>j. j < slots V \<Longrightarrow> par V1 j = (if j \<in> set xs then v_lost_found V else par V j)"
    using orphan_loop_core[OF cut_core[OF core i(1)] i(2) seg_lseg[OF xs(1)] xs(2)] x Xr unfolding e by blast
  have f1: "et_flags (v_entries V1) = et_flags (v_entries V)" "v_lost_found V1 = v_lost_found V"
    using V1(3) by (simp_all add: same_but_tree_def)
  have il1: "i < length (et_first_child (v_entries V1))"
    using D(12)[OF i(1)] cols_lengths(10)[OF coreD(2)[OF V1(2)]] f1 by simp
  have "orphan_children E i V = Some (cut i V1)"
    using il il1 V1(1) by (simp add: orphan_children_def t_first_child_def on_entries_def t_set_first_child_def cut_def)
  moreover have "insert i (set xs) - set xs = {i}" using x by auto
  moreover have "same_but_tree V (cut i V1)" using V1(3) by (simp add: same_but_tree_def)
  moreover have "j \<in> set xs \<longleftrightarrow> j \<in> live V \<and> j \<noteq> i \<and> par V j = i" if "j < slots V" for j
    using A xs(3) by (auto simp: kids_of_def)
  ultimately show ?thesis using V1(2,4) il1 by (intro exI[of _ "cut i V1"]) (simp add: orphaned_def)
qed

subsection \<open>Giving a name and a slot back\<close>

lemma card_drop_one:
  assumes "finite S" "i \<in> S"
  shows "card {j \<in> S. j \<noteq> i \<and> key j = n} = (if n = key i then card {j \<in> S. key j = n} - 1 else card {j \<in> S. key j = n})"
proof (cases "n = key i")
  case True
  have "{j \<in> S. j \<noteq> i \<and> key j = n} = {j \<in> S. key j = n} - {i}" by auto
  then show ?thesis using True assms by simp
next
  case False
  then have "{j \<in> S. j \<noteq> i \<and> key j = n} = {j \<in> S. key j = n}" by auto
  then show ?thesis using False by simp
qed

lemma refs_release:
  assumes refs: "refs_ok V S" and S: "finite S" "i \<in> S"
    and rc: "ns_refcount nm = (ns_refcount (v_names V))[nid V i := ns_refcount (v_names V) ! nid V i - 1]"
  shows "refs_ok (V\<lparr>v_names := nm\<rparr>) (S - {i})"
  using refs S(2) unfolding refs_ok_def
  by (auto simp: rc nth_list_update card_drop_one[OF S])

lemma refs_live:
  assumes core: "core E V Xs Xr Xc Xd" and j: "j \<in> live V - Xr"
  shows "nid V j \<in> names_live (v_names V)" "nid V j < length (ns_pairs (v_names V))"
    "\<And>i. i \<in> live V - Xr \<Longrightarrow> i \<noteq> j \<Longrightarrow> nid V i = nid V j \<Longrightarrow> 1 < ns_refcount (v_names V) ! nid V j"
proof -
  note D = coreD[OF core]
  have n: "nid V j < length (ns_refcount (v_names V))" using D(6) j by (simp add: refs_ok_def)
  then show "nid V j < length (ns_pairs (v_names V))" using D(3) by (simp add: names_ok_def)
  let ?S = "{i \<in> live V - Xr. nid V i = nid V j}"
  have rc: "ns_refcount (v_names V) ! nid V j = card ?S" using D(6) n by (simp add: refs_ok_def)
  have fin: "finite ?S" by simp
  have "0 < card ?S" using j fin by (subst card_gt_0_iff) auto
  then show "nid V j \<in> names_live (v_names V)" using n rc by (simp add: names_live_def)
  fix i assume i: "i \<in> live V - Xr" "i \<noteq> j" "nid V i = nid V j"
  have "{i, j} \<subseteq> ?S" using i j by auto
  then have "card {i, j} \<le> card ?S" by (rule card_mono[OF fin])
  then show "1 < ns_refcount (v_names V) ! nid V j" using rc i(2) by simp
qed

lemma release_core:
  assumes core: "core E V Xs Xr Xc Xd" and i: "i \<in> live V - Xr" "i \<in> Xd" and X: "Xr \<subseteq> Xd"
  obtains nm where "release E (nid V i) (v_names V) = Some nm" "core E (V\<lparr>v_names := nm\<rparr>) Xs (insert i Xr) Xc Xd"
    "\<And>j. j \<in> live V - insert i Xr \<Longrightarrow> raw_of nm (nid V j) = raw_of (v_names V) (nid V j)"
    "\<And>j. j \<in> live V - insert i Xr \<Longrightarrow> folded_of nm (nid V j) = folded_of (v_names V) (nid V j)"
proof -
  note D = coreD[OF core]
  let ?n = "nid V i"
  obtain nm where nm: "release E ?n (v_names V) = Some nm" "names_ok E nm"
    and rc: "ns_refcount nm = (ns_refcount (v_names V))[?n := ns_refcount (v_names V) ! ?n - 1]"
    and hd: "ns_head nm = ns_head (v_names V)"
    and raw: "\<And>j. j < length (ns_pairs (v_names V)) \<Longrightarrow> j \<noteq> ?n \<or> 1 < ns_refcount (v_names V) ! ?n \<Longrightarrow> raw_of nm j = raw_of (v_names V) j"
    and fold: "\<And>j. j < length (ns_pairs (v_names V)) \<Longrightarrow> j \<noteq> ?n \<or> 1 < ns_refcount (v_names V) ! ?n \<Longrightarrow> folded_of nm j = folded_of (v_names V) j"
    by (rule release_spec[OF D(3) refs_live(1)[OF core i(1)]]) (rule that; assumption)
  let ?V = "V\<lparr>v_names := nm\<rparr>"
  have keep: "nid V j < length (ns_pairs (v_names V)) \<and> (nid V j \<noteq> ?n \<or> 1 < ns_refcount (v_names V) ! ?n)"
    if j: "j \<in> live V - insert i Xr" for j
    using refs_live(2)[OF core, of j] refs_live(3)[OF core, of i j] i j by auto
  have sets: "dirs ?V = dirs V" "kids ?V = kids V" by (simp_all add: dirs_def dirent_def kids_def)
  have "live V - insert i Xr = live V - Xr - {i}" by auto
  then have "refs_ok ?V (live V - insert i Xr)" using refs_release[OF D(6) _ i(1) rc] by simp
  moreover have "dir_ok E ?V (dirs V - Xd)"
  proof -
    have "dkey E ?V j = dkey E V j" if "j \<in> dirs V - Xd" for j
    proof -
      have "j \<in> live V - insert i Xr" using that i X by (auto simp: dirs_def)
      then show ?thesis using fold keep by (simp add: dkey_def)
    qed
    then have "{j \<in> dirs V - Xd. dkey E ?V j = k} = {j \<in> dirs V - Xd. dkey E V j = k}" for k by auto
    then show ?thesis using D(8) unfolding dir_ok_def by simp
  qed
  moreover have "order_ok nm" by (rule order_ok_release[OF D(3,4) refs_live(1)[OF core i(1)] nm(1)])
  ultimately have "core E ?V Xs (insert i Xr) Xc Xd"
    using D(1,5,7,10,11,14) nm(2) unfolding core_def sets same_ok_def child_ok_def by (simp add: hd)
  then show ?thesis using that nm(1) raw fold keep by blast
qed

lemma chains_ok_write_other:
  assumes ok: "chains_ok hds nx pv key S" and i: "i \<notin> S"
  shows "chains_ok hds (nx[i := a]) (pv[i := b]) key S"
  unfolding chains_ok_def
proof (intro conjI allI impI)
  show "length (nx[i := a]) \<le> NIL" "length (pv[i := b]) = length (nx[i := a])" "S \<subseteq> {..<length (nx[i := a])}"
    "\<forall>i \<in> S. key i < length hds"
    using ok by (simp_all add: chains_ok_def)
  fix k assume "k < length hds"
  then obtain xs where xs: "seg nx pv NIL (hds ! k) NIL xs" "distinct xs" "set xs = {i \<in> S. key i = k}"
    using ok unfolding chains_ok_def by blast
  have "seg (nx[i := a]) (pv[i := b]) NIL (hds ! k) NIL xs"
  proof (rule seg_frame[OF xs(1)])
    fix j assume "j \<in> set xs"
    then have "j \<noteq> i" using xs(3) i by auto
    then show "nx[i := a] ! j = nx ! j \<and> pv[i := b] ! j = pv ! j" by simp
  qed simp_all
  then show "\<exists>xs. seg (nx[i := a]) (pv[i := b]) NIL (hds ! k) NIL xs \<and> distinct xs \<and> set xs = {i \<in> S. key i = k}"
    using xs by blast
qed

lemma tombstone_core:
  assumes core: "core E V {i} {i} {i} {i}" and i: "i \<in> live V" "i \<noteq> v_lost_found V"
    and none: "et_first_child (v_entries V) ! i = NIL" "\<And>j. j \<in> live V - {i} \<Longrightarrow> par V j \<noteq> i"
  shows "on_entries (tombstone i) V = Some (V\<lparr>v_entries := tombstoned i (v_entries V)\<rparr>)"
    "core E (V\<lparr>v_entries := tombstoned i (v_entries V)\<rparr>) {} {} {} {}"
proof -
  note D = coreD[OF core]
  note ts = tombstone_spec[OF D(1) i(1)]
  let ?t = "tombstoned i (v_entries V)" and ?V = "V\<lparr>v_entries := tombstoned i (v_entries V)\<rparr>"
  show "on_entries (tombstone i) V = Some ?V" by (simp add: on_entries_def ts(1))
  have lv: "live ?V = live V - {i}" by (simp add: tombstoned_def live_of_kill)
  have pr: "par ?V j = par V j" "nid ?V j = nid V j" "vflags ?V j = vflags V j" if "j \<noteq> i" for j
    using that by (simp_all add: tombstoned_def)
  have kd: "kids ?V = kids V - {i}" using pr(1) unfolding kids_def lv by auto
  have dr: "dirs ?V = dirs V - {i}" using pr(3) unfolding dirs_def dirent_def lv by auto
  have "same_ok ?V (live ?V)"
  proof -
    have "chains_ok (ns_head (v_names V)) (et_next_same ?t) (et_prev_same ?t) (nid V) (live V - {i})"
      using chains_ok_write_other[OF D(5)[unfolded same_ok_def]] by (simp add: tombstoned_def)
    then have "chains_ok (ns_head (v_names V)) (et_next_same ?t) (et_prev_same ?t) (nid ?V) (live V - {i})"
      by (rule chains_ok_cong) (use pr in auto)
    then show ?thesis unfolding lv by (simp add: same_ok_def)
  qed
  moreover have "child_ok ?V (kids ?V)"
  proof -
    have "et_first_child ?t = et_first_child (v_entries V)" using none(1) list_update_id[of "et_first_child (v_entries V)" i] by (simp add: tombstoned_def)
    then have "chains_ok (et_first_child ?t) (et_next_child ?t) (et_prev_child ?t) (par V) (kids V - {i})"
      using chains_ok_write_other[OF D(7)[unfolded child_ok_def]] by (simp add: tombstoned_def)
    then have "chains_ok (et_first_child ?t) (et_next_child ?t) (et_prev_child ?t) (par ?V) (kids V - {i})"
      by (rule chains_ok_cong) (use pr in auto)
    then show ?thesis unfolding kd by (simp add: child_ok_def)
  qed
  moreover have "refs_ok ?V (live ?V)"
  proof -
    have "{j \<in> live V - {i}. nid ?V j = n} = {j \<in> live V - {i}. nid V j = n}" for n using pr(2) by auto
    then show ?thesis using D(6) pr(2) unfolding refs_ok_def lv by auto
  qed
  moreover have "dir_ok E ?V (dirs ?V)"
  proof -
    have "{j \<in> dirs V - {i}. dkey E ?V j = k} = {j \<in> dirs V - {i}. dkey E V j = k}" for k using pr(1,2) by (auto simp: dkey_def)
    then show ?thesis using D(8) unfolding dir_ok_def dr by simp
  qed
  moreover have "\<forall>j < slots ?V. par ?V j = NIL \<or> j \<in> live ?V \<and> par ?V j \<in> live ?V"
  proof (intro allI impI)
    fix j assume j: "j < slots ?V"
    then have js: "j < slots V" by (simp add: tombstoned_def)
    show "par ?V j = NIL \<or> j \<in> live ?V \<and> par ?V j \<in> live ?V"
    proof (cases "j = i")
      case True
      then show ?thesis using js cols_lengths(3)[OF D(2)] by (simp add: tombstoned_def)
    next
      case False
      then show ?thesis using D(14)[OF js] none(2)[of j] pr(1)[OF False] unfolding lv by auto
    qed
  qed
  moreover have "v_lost_found ?V \<in> live ?V" "par ?V (v_lost_found ?V) = NIL" using D(10,11) i(2) pr(1) unfolding lv by auto
  ultimately show "core E ?V {} {} {} {}" using ts(2) D(3,4) unfolding core_def by simp
qed

end
