(* ===== verification/Volume_Ent.thy ===== *)
theory Volume_Ent
  imports Volume_Inv
begin

text \<open>
  What a volume index stands for: a map from entry index to the fields of a live entry, its name
  as bytes. Removing and adding an entry are described as updates of that map, and the room an
  operation needs in the fixed-width tables is stated once.
\<close>

section \<open>The entries as a map\<close>

record entry =
  e_frn :: frn
  e_parent :: entry_idx
  e_name :: "u8 list"
  e_flags :: entry_flags
  e_size :: u64
  e_mtime :: i64

definition entry_at :: "volume \<Rightarrow> entry_idx \<Rightarrow> entry" where
  "entry_at V i = \<lparr>e_frn = et_frn (v_entries V) ! i, e_parent = par V i, e_name = raw_of (v_names V) (nid V i),
    e_flags = vflags V i, e_size = et_size (v_entries V) ! i, e_mtime = et_mtime (v_entries V) ! i\<rparr>"

definition ents :: "volume \<Rightarrow> entry_idx \<Rightarrow> entry option" where
  "ents V i = (if i \<in> live V then Some (entry_at V i) else None)"

lemma dom_ents: "dom (ents V) = live V"
  by (auto simp: ents_def dom_def)

lemma entry_at_fields [simp]:
  "e_frn (entry_at V i) = et_frn (v_entries V) ! i" "e_parent (entry_at V i) = par V i"
  "e_name (entry_at V i) = raw_of (v_names V) (nid V i)" "e_flags (entry_at V i) = vflags V i"
  "e_size (entry_at V i) = et_size (v_entries V) ! i" "e_mtime (entry_at V i) = et_mtime (v_entries V) ! i"
  by (simp_all add: entry_at_def)

text \<open>Everything outside the entries, the names and the scope index.\<close>

definition same_meta :: "volume \<Rightarrow> volume \<Rightarrow> bool" where
  "same_meta V V' \<longleftrightarrow>
    v_by_frn V' = v_by_frn V \<and> v_root V' = v_root V \<and> v_lost_found V' = v_lost_found V \<and>
    v_stats V' = v_stats V \<and> v_cycle_suspects V' = v_cycle_suspects V \<and> v_generation V' = v_generation V"

section \<open>Room\<close>

text \<open>Room for a list of further names and entries in the tables and arenas.\<close>

definition name_fits :: "env \<Rightarrow> u8 list \<Rightarrow> bool" where
  "name_fits E n \<longleftrightarrow> length n < 2 ^ 16 \<and> length (e_fold E n) < 2 ^ 16"

definition vroom :: "env \<Rightarrow> u8 list list \<Rightarrow> volume \<Rightarrow> bool" where
  "vroom E ns V \<longleftrightarrow> (\<forall>n \<in> set ns. name_fits E n) \<and>
    slots V + length ns \<le> NIL \<and> length (ns_pairs (v_names V)) + length ns \<le> NIL \<and>
    length (ns_raw (v_names V)) + (\<Sum>n\<leftarrow>ns. length n + 1) \<le> 2 ^ 31 \<and>
    length (ns_folded (v_names V)) + (\<Sum>n\<leftarrow>ns. length (e_fold E n) + 1) \<le> 2 ^ 31"

text \<open>The sizes that decide it.\<close>

definition sizes :: "volume \<Rightarrow> nat \<times> nat \<times> nat \<times> nat" where
  "sizes V = (slots V, length (ns_pairs (v_names V)), length (ns_raw (v_names V)), length (ns_folded (v_names V)))"

lemma vroom_sizes: "sizes V' = sizes V \<Longrightarrow> vroom E ns V' = vroom E ns V"
  by (simp add: sizes_def vroom_def)

lemma release_lengths:
  assumes "release E i nm = Some nm'"
  shows "length (ns_pairs nm') = length (ns_pairs nm) \<and> length (ns_raw nm') = length (ns_raw nm) \<and>
    length (ns_folded nm') = length (ns_folded nm)"
  using assms
  by (auto simp: release_def release_last_def Let_def dest!: zero_fill_length split: Option.bind_splits if_splits)

lemma names_push_length: "length (snd (names_push buf b)) = length buf + length b + 1"
  by (simp add: names_push_def)

lemma intern_lengths:
  assumes "intern E name nm = Some (i, nm')"
  shows "length (ns_pairs nm') \<le> length (ns_pairs nm) + 1" "length (ns_raw nm') \<le> length (ns_raw nm) + length name + 1"
    "length (ns_folded nm') \<le> length (ns_folded nm) + length (e_fold E name) + 1"
  using assms names_push_length[of "ns_raw nm" name] names_push_length[of "ns_folded nm" "e_fold E name"]
  by (auto simp: intern_def intern_new_def Let_def split: Option.bind_splits option.splits prod.splits if_splits)

section \<open>Removing an entry\<close>

definition ents_remove :: "entry_idx \<Rightarrow> entry_idx \<Rightarrow> (entry_idx \<Rightarrow> entry option) \<Rightarrow> entry_idx \<Rightarrow> entry option" where
  "ents_remove lf i m = (\<lambda>j. if j = i then None
    else map_option (\<lambda>e. if e_parent e = i then e\<lparr>e_parent := lf\<rparr> else e) (m j))"

definition removed :: "entry_idx \<Rightarrow> volume \<Rightarrow> volume \<Rightarrow> bool" where
  "removed i V V' \<longleftrightarrow> same_meta V V' \<and> sizes V' = sizes V \<and>
    ents V' = ents_remove (v_lost_found V) i (ents V) \<and>
    (\<forall>j. j \<noteq> i \<longrightarrow> et_next_link (v_entries V') ! j = et_next_link (v_entries V) ! j)"

lemma removed_live: "removed i V V' \<Longrightarrow> live V' = live V - {i}"
  unfolding removed_def dom_ents[symmetric] by (auto simp: ents_remove_def split: if_splits)

lemma remove_entry_core:
  assumes core: "core E V {} {} {} {}" and i: "i \<in> live V" "i \<noteq> v_lost_found V"
  shows "\<exists>V'. remove_entry E i V = Some V' \<and> core E V' {} {} {} {} \<and> removed i V V'"
proof -
  obtain d where d: "dir_index_remove E i V = Some (V\<lparr>v_dir_children := d\<rparr>)"
      "core E (V\<lparr>v_dir_children := d\<rparr>) {} {} {} {i}"
    using dir_index_remove_core[OF core, of i] i by auto
  define V1 where "V1 = V\<lparr>v_dir_children := d\<rparr>"
  have c1: "core E V1 {} {} {} {i}" using d(2) by (simp add: V1_def)
  have i1: "i \<in> live V1 - {}" using i by (simp add: V1_def)
  define V2 where "V2 = same_unlinked i V1"
  have c2: "unlink_same_name i V1 = Some V2" "core E V2 {i} {} {} {i}"
    using unlink_same_core[OF c1 i1] by (simp_all add: V2_def)
  have i2: "i \<in> live V2 - {}" using i1 by (simp add: V2_def same_unlinked_def)
  define V3 where "V3 = V2\<lparr>v_entries := t_child_unlinked i (v_entries V2)\<rparr>"
  have c3: "unlink_child i V2 = Some V3" "core E V3 {i} {} {i} {i}"
    using unlink_child_core[OF c2(2) i2] by (simp_all add: V3_def)
  have n3: "ns_pairs (v_names V3) = ns_pairs (v_names V)" "ns_raw (v_names V3) = ns_raw (v_names V)"
      "ns_folded (v_names V3) = ns_folded (v_names V)" "raw_of (v_names V3) = raw_of (v_names V)"
    by (simp_all add: V3_def V2_def V1_def same_unlinked_def raw_of_def fun_eq_iff)
  have f3: "same_meta V V3"
      "et_frn (v_entries V3) = et_frn (v_entries V)" "et_parent (v_entries V3) = et_parent (v_entries V)"
      "et_name_id (v_entries V3) = et_name_id (v_entries V)" "et_flags (v_entries V3) = et_flags (v_entries V)"
      "et_size (v_entries V3) = et_size (v_entries V)" "et_mtime (v_entries V3) = et_mtime (v_entries V)"
      "et_next_link (v_entries V3) = et_next_link (v_entries V)"
    by (simp_all add: V3_def V2_def V1_def same_unlinked_def same_meta_def)
  have lf3: "v_lost_found V3 = v_lost_found V" using f3(1) by (simp add: same_meta_def)
  obtain V4 where V4: "orphan_children E i V3 = Some V4" "core E V4 {i} {} {i} {i}" "orphaned i V3 V4"
      "et_first_child (v_entries V4) ! i = NIL"
    using orphan_children_core[OF c3(2)] i f3(5) lf3 by auto
  have t4: "same_but_tree V3 V4" and p4: "\<And>j. j < slots V3 \<Longrightarrow>
      par V4 j = (if j \<in> live V3 \<and> j \<noteq> i \<and> par V3 j = i then v_lost_found V3 else par V3 j)"
    using V4(3) by (simp_all add: orphaned_def)
  note f4 = t4[unfolded same_but_tree_def]
  have i4: "i \<in> live V4 - {}" using i f3 f4 by simp
  obtain nm where nm: "release E (nid V4 i) (v_names V4) = Some nm" "core E (V4\<lparr>v_names := nm\<rparr>) {i} {i} {i} {i}"
      "\<And>j. j \<in> live V4 - {i} \<Longrightarrow> raw_of nm (nid V4 j) = raw_of (v_names V4) (nid V4 j)"
    by (rule release_core[OF V4(2) i4]) auto
  define V5 where "V5 = V4\<lparr>v_names := nm\<rparr>"
  define V6 where "V6 = V5\<lparr>v_entries := tombstoned i (v_entries V5)\<rparr>"
  have none: "par V5 j \<noteq> i" if "j \<in> live V5 - {i}" for j
  proof -
    have "j \<in> live V3" "j < slots V3" "j \<noteq> i" using that f4 live_of_less by (auto simp: V5_def)
    then show ?thesis using p4[of j] i(2) lf3 by (auto simp: V5_def)
  qed
  have i5: "i \<in> live V5" "i \<noteq> v_lost_found V5" using i i4 lf3 f4 by (auto simp: V5_def)
  have c6: "on_entries (tombstone i) V5 = Some V6" "core E V6 {} {} {} {}"
    using tombstone_core[OF nm(2)[folded V5_def] i5 _ none] V4(4) by (simp_all add: V6_def V5_def)
  have nid4: "t_name_id (v_entries V4) i = Some (nid V4 i)"
    using coreD(12)[OF V4(2)] i4 cols_lengths(4)[OF coreD(2)[OF V4(2)]] by (simp add: t_name_id_def)
  have "remove_entry E i V = Some (bump_dirty V6)"
    using d(1) c2(1) c3(1) V4(1) nid4 nm(1) c6(1)
    by (simp add: remove_entry_def V1_def[symmetric] on_names_def V5_def)
  moreover have "core E (bump_dirty V6) {} {} {} {}" by (rule core_cong[OF c6(2)]) simp_all
  moreover have "removed i V (bump_dirty V6)"
  proof -
    have lens: "sizes V6 = sizes V"
      using release_lengths[OF nm(1)] n3 f3(5) f4 by (simp add: sizes_def V6_def V5_def tombstoned_def)
    have lv: "live V6 = live V - {i}" using f3(5) f4 by (simp add: V6_def V5_def tombstoned_def live_of_kill)
    have at: "entry_at V6 j = (if par V j = i then (entry_at V j)\<lparr>e_parent := v_lost_found V\<rparr> else entry_at V j)"
      if j: "j \<in> live V - {i}" for j
    proof -
      have j4: "j \<in> live V4 - {i}" using j f3 f4 by simp
      have "raw_of nm (nid V4 j) = raw_of (v_names V) (nid V j)" using nm(3)[OF j4] n3 f3 f4 by simp
      moreover have "par V4 j = (if par V j = i then v_lost_found V else par V j)"
        using p4[of j] j f3 lf3 live_of_less[of j] by auto
      ultimately show ?thesis using j f3 f4 by (simp add: entry_at_def V6_def V5_def tombstoned_def)
    qed
    have "ents V6 = ents_remove (v_lost_found V) i (ents V)"
      using at by (auto simp: ents_def ents_remove_def lv fun_eq_iff)
    moreover have "ents (bump_dirty V6) = ents V6" by (simp add: ents_def entry_at_def fun_eq_iff)
    moreover have "same_meta V V6" using f3(1) f4 by (simp add: same_meta_def V6_def V5_def)
    ultimately show ?thesis using lens f3 f4 by (simp add: removed_def same_meta_def sizes_def V6_def V5_def tombstoned_def)
  qed
  ultimately show ?thesis by blast
qed

section \<open>Naming an entry\<close>

lemma vroom_intern:
  assumes core: "core E V Xs Xr Xc Xd" and room: "vroom E (n # ns) V"
  shows "intern_room E n (v_names V)"
proof -
  note D = coreD[OF core]
  have "rc < 2 ^ 32 - 1" if rc: "rc \<in> set (ns_refcount (v_names V))" for rc
  proof -
    obtain k where k: "k < length (ns_refcount (v_names V))" "rc = ns_refcount (v_names V) ! k"
      using rc by (auto simp: in_set_conv_nth)
    then have "rc = card {i \<in> live V - Xr. nid V i = k}" using D(6) by (simp add: refs_ok_def)
    also have "\<dots> \<le> card {..<slots V}" by (rule card_mono) (auto dest: live_of_less)
    finally have "rc < NIL" using room by (simp add: vroom_def)
    then show ?thesis by (simp add: NIL_def)
  qed
  then show ?thesis using room by (simp add: vroom_def intern_room_def name_fits_def)
qed

text \<open>The volume with a name interned that no entry bears yet.\<close>

definition interned :: "env \<Rightarrow> u8 list \<Rightarrow> volume \<Rightarrow> entry_idx set \<Rightarrow> entry_idx set \<Rightarrow> name_id \<Rightarrow> name_store \<Rightarrow> bool" where
  "interned E name V Xs Xr n nm \<longleftrightarrow>
    names_ok E nm \<and> order_ok nm \<and> n < length (ns_refcount nm) \<and> raw_of nm n = name \<and>
    (\<forall>j \<in> live V - Xr. nid V j < length (ns_refcount nm) \<and>
      raw_of nm (nid V j) = raw_of (v_names V) (nid V j) \<and> folded_of nm (nid V j) = folded_of (v_names V) (nid V j)) \<and>
    (\<forall>m < length (ns_refcount nm). ns_refcount nm ! m = card {j \<in> live V - Xr. nid V j = m} + (if m = n then 1 else 0)) \<and>
    chains_ok (ns_head nm) (et_next_same (v_entries V)) (et_prev_same (v_entries V)) (nid V) (live V - Xs) \<and>
    length (ns_pairs nm) \<le> length (ns_pairs (v_names V)) + 1 \<and>
    length (ns_raw nm) \<le> length (ns_raw (v_names V)) + length name + 1 \<and>
    length (ns_folded nm) \<le> length (ns_folded (v_names V)) + length (e_fold E name) + 1"

lemma intern_step:
  assumes core: "core E V Xs Xr Xc Xd" and room: "vroom E (name # ns) V"
  shows "\<exists>n nm. intern E name (v_names V) = Some (n, nm) \<and> interned E name V Xs Xr n nm"
proof -
  note D = coreD[OF core] and iroom = vroom_intern[OF core room]
  obtain n nm where nm: "intern E name (v_names V) = Some (n, nm)" "names_ok E nm" "n \<in> names_live nm" "raw_of nm n = name"
    and raw: "\<And>j. j < length (ns_pairs (v_names V)) \<Longrightarrow> raw_of nm j = raw_of (v_names V) j"
    and fold: "\<And>j. j < length (ns_pairs (v_names V)) \<Longrightarrow> folded_of nm j = folded_of (v_names V) j"
    and alt: "(n \<in> names_live (v_names V) \<and> ns_refcount nm = (ns_refcount (v_names V))[n := ns_refcount (v_names V) ! n + 1] \<and>
         ns_head nm = ns_head (v_names V) \<and> ns_pairs nm = ns_pairs (v_names V)) \<or>
       (n = length (ns_pairs (v_names V)) \<and> (\<forall>j \<in> names_live (v_names V). raw_of (v_names V) j \<noteq> name) \<and>
         ns_refcount nm = ns_refcount (v_names V) @ [1] \<and> ns_head nm = ns_head (v_names V) @ [NIL] \<and>
         length (ns_pairs nm) = Suc (length (ns_pairs (v_names V))))"
    by (rule intern_spec[OF D(3) iroom]) (rule that; assumption)
  have rl: "length (ns_refcount (v_names V)) = length (ns_pairs (v_names V))" using D(3) by (simp add: names_ok_def)
  have lt: "nid V j < length (ns_pairs (v_names V))" if "j \<in> live V - Xr" for j using refs_live(2)[OF core that] .
  have rc: "\<And>m. m < length (ns_pairs (v_names V)) \<Longrightarrow> ns_refcount (v_names V) ! m = card {j \<in> live V - Xr. nid V j = m}"
    using D(6) rl by (simp add: refs_ok_def)
  have ch: "chains_ok (ns_head (v_names V)) (et_next_same (v_entries V)) (et_prev_same (v_entries V)) (nid V) (live V - Xs)"
    using D(5) by (simp add: same_ok_def)
  have "{j \<in> live V - Xr. nid V j = length (ns_pairs (v_names V))} = {}" using lt by (metis (mono_tags, lifting) empty_Collect_eq less_irrefl)
  then have none: "card {j \<in> live V - Xr. nid V j = length (ns_pairs (v_names V))} = 0" by (simp only: card.empty)
  have C: "(\<forall>m < length (ns_refcount nm). ns_refcount nm ! m = card {j \<in> live V - Xr. nid V j = m} + (if m = n then 1 else 0)) \<and>
      length (ns_pairs (v_names V)) \<le> length (ns_refcount nm) \<and>
      chains_ok (ns_head nm) (et_next_same (v_entries V)) (et_prev_same (v_entries V)) (nid V) (live V - Xs)"
    using alt
  proof
    assume "n \<in> names_live (v_names V) \<and> ns_refcount nm = (ns_refcount (v_names V))[n := ns_refcount (v_names V) ! n + 1] \<and>
         ns_head nm = ns_head (v_names V) \<and> ns_pairs nm = ns_pairs (v_names V)"
    then show ?thesis using rc rl ch by (auto simp: nth_list_update names_live_def)
  next
    assume a: "n = length (ns_pairs (v_names V)) \<and> (\<forall>j \<in> names_live (v_names V). raw_of (v_names V) j \<noteq> name) \<and>
         ns_refcount nm = ns_refcount (v_names V) @ [1] \<and> ns_head nm = ns_head (v_names V) @ [NIL] \<and>
         length (ns_pairs nm) = Suc (length (ns_pairs (v_names V)))"
    have "ns_refcount nm ! m = card {j \<in> live V - Xr. nid V j = m} + (if m = n then 1 else 0)" if "m < length (ns_refcount nm)" for m
      using that a rl rc[of m] none by (cases "m = n") (simp_all add: nth_append)
    then show ?thesis using a rl chains_ok_new_head[OF ch] by simp
  qed
  have keep: "nid V j < length (ns_refcount nm) \<and> raw_of nm (nid V j) = raw_of (v_names V) (nid V j) \<and>
      folded_of nm (nid V j) = folded_of (v_names V) (nid V j)" if "j \<in> live V - Xr" for j
    using C lt[OF that] raw fold by simp
  have "order_ok nm" by (rule order_ok_intern[OF D(3,4) iroom nm(1)])
  moreover have "n < length (ns_refcount nm)" using nm(3) by (simp add: names_live_def)
  ultimately have "interned E name V Xs Xr n nm"
    using nm(2,4) C keep intern_lengths[OF nm(1)] unfolding interned_def by blast
  then show ?thesis using nm(1) by blast
qed

lemma interned_dkey:
  assumes "interned E name V Xs Xr n nm" "Xr \<subseteq> Xd" "j \<in> dirs V - Xd"
  shows "dkey E (V\<lparr>v_names := nm\<rparr>) j = dkey E V j"
proof -
  have "j \<in> live V - Xr" using assms(2,3) by (auto simp: dirs_def)
  then have "folded_of nm (nid V j) = folded_of (v_names V) (nid V j)" using assms(1) unfolding interned_def by blast
  then show ?thesis by (simp add: dkey_def)
qed

lemma card_add_one:
  assumes "finite S" "i \<notin> S"
  shows "card {j \<in> insert i S. key j = n} = card {j \<in> S. key j = n} + (if n = key i then 1 else 0)"
proof -
  have "{j \<in> insert i S. key j = n} = (if key i = n then insert i {j \<in> S. key j = n} else {j \<in> S. key j = n})" by auto
  then show ?thesis using assms by simp
qed

lemma set_name_core:
  assumes core: "core E V Xs Xr Xc Xd" and i: "i \<in> live V" "i \<in> Xs" "i \<in> Xr" "Xr \<subseteq> Xd"
    and int: "interned E name V Xs Xr n nm"
  defines "t \<equiv> (v_entries V)\<lparr>et_name_id := (et_name_id (v_entries V))[i := n]\<rparr>"
  shows "on_entries (t_set_name_id i n) (V\<lparr>v_names := nm\<rparr>) = Some (V\<lparr>v_names := nm, v_entries := t\<rparr>)"
    "core E (V\<lparr>v_names := nm, v_entries := t\<rparr>) Xs (Xr - {i}) Xc Xd"
proof -
  note D = coreD[OF core] and I = int[unfolded interned_def]
  let ?V = "V\<lparr>v_names := nm, v_entries := t\<rparr>"
  have il: "i < length (et_name_id (v_entries V))" using i(1) D(12) cols_lengths(4)[OF D(2)] by simp
  then show "on_entries (t_set_name_id i n) (V\<lparr>v_names := nm\<rparr>) = Some ?V"
    by (simp add: on_entries_def t_set_name_id_def t_def)
  have tk: "table_ok t" using D(2) table_ok_cong[OF D(1), of t] by (simp add: t_def cols_ok_def Let_def)
  have nv: "nid ?V j = (if j = i then n else nid V j)" for j using il by (simp add: t_def nth_list_update)
  have sets: "live ?V = live V" "kids ?V = kids V" "dirs ?V = dirs V" "par ?V = par V"
    by (simp_all add: t_def kids_def dirs_def dirent_def)
  have "same_ok ?V (live V - Xs)"
  proof -
    have "chains_ok (ns_head nm) (et_next_same (v_entries V)) (et_prev_same (v_entries V)) (nid ?V) (live V - Xs)"
      by (rule chains_ok_cong[of _ _ _ "nid V"]) (use I nv i in auto)
    then show ?thesis by (simp add: same_ok_def t_def)
  qed
  moreover have "refs_ok ?V (live V - (Xr - {i}))"
  proof -
    let ?S = "live V - Xr"
    have S: "live V - (Xr - {i}) = insert i ?S" "finite ?S" "i \<notin> ?S" using i by auto
    have same: "{j \<in> ?S. nid ?V j = m} = {j \<in> ?S. nid V j = m}" for m using S(3) nv by auto
    have "card {j \<in> insert i ?S. nid ?V j = m} = card {j \<in> ?S. nid V j = m} + (if m = n then 1 else 0)" for m
      using card_add_one[OF S(2,3), of "nid ?V" m] unfolding same nv[of i] by simp
    then show ?thesis using I nv S(3) unfolding refs_ok_def S(1) by simp
  qed
  moreover have "dir_ok E ?V (dirs V - Xd)"
  proof -
    have "dkey E ?V j = dkey E V j" if "j \<in> dirs V - Xd" for j
    proof -
      have "j \<noteq> i" using that i by auto
      then show ?thesis using interned_dkey[OF int i(4) that] nv[of j] by (simp add: dkey_def t_def)
    qed
    then have "{j \<in> dirs V - Xd. dkey E ?V j = k} = {j \<in> dirs V - Xd. dkey E V j = k}" for k by auto
    then show ?thesis using D(8) unfolding dir_ok_def by simp
  qed
  moreover have "child_ok ?V (kids V - Xc)" using D(7) by (simp add: child_ok_def t_def)
  ultimately show "core E ?V Xs (Xr - {i}) Xc Xd"
    using D(10,11,14) tk I unfolding core_def sets by (simp add: t_def)
qed

section \<open>Adding an entry\<close>

lemma chains_ok_put:
  assumes ok: "chains_ok hds nx pv key S" and i: "i \<notin> S" "i \<le> length nx" "i < NIL"
  shows "chains_ok hds (put nx i a) (put pv i b) key S"
proof (cases "i < length nx")
  case True
  moreover have "length pv = length nx" using ok by (simp add: chains_ok_def)
  ultimately show ?thesis using chains_ok_write_other[OF ok i(1)] by (simp add: put_def)
next
  case False
  moreover have "length pv = length nx" using ok by (simp add: chains_ok_def)
  ultimately show ?thesis using chains_ok_new_node[OF ok] i by (simp add: put_def)
qed

lemma chains_ok_put_head:
  assumes ok: "chains_ok hds nx pv key S" and i: "\<And>j. j \<in> S \<Longrightarrow> key j \<noteq> i"
  shows "chains_ok (put hds i NIL) nx pv key S"
proof (cases "i < length hds")
  case True
  then have "hds ! i = NIL" using chains_ok_head(2)[OF ok True] i by blast
  then have "hds[i := NIL] = hds" using list_update_id[of hds i] by simp
  then show ?thesis using ok True by (simp add: put_def)
next
  case False
  then show ?thesis using chains_ok_new_head[OF ok] by (simp add: put_def)
qed

lemma put_at:
  "i \<le> length xs \<Longrightarrow> put xs i v ! i = v"
  "j < length xs \<Longrightarrow> j \<noteq> i \<Longrightarrow> put xs i v ! j = xs ! j"
  by (auto simp: put_def nth_append)

lemma alloced_at:
  assumes "cols_ok t" "i \<le> length (et_flags t)"
  shows "et_frn (alloced i f p n fl sz mt nl t) ! i = f"
    "et_parent (alloced i f p n fl sz mt nl t) ! i = p"
    "et_name_id (alloced i f p n fl sz mt nl t) ! i = n"
    "et_size (alloced i f p n fl sz mt nl t) ! i = sz"
    "et_mtime (alloced i f p n fl sz mt nl t) ! i = mt"
    "et_next_link (alloced i f p n fl sz mt nl t) ! i = nl"
    "et_flags (alloced i f p n fl sz mt nl t) ! i = fl"
    "j < length (et_flags t) \<Longrightarrow> j \<noteq> i \<Longrightarrow> et_frn (alloced i f p n fl sz mt nl t) ! j = et_frn t ! j"
    "j < length (et_flags t) \<Longrightarrow> j \<noteq> i \<Longrightarrow> et_parent (alloced i f p n fl sz mt nl t) ! j = et_parent t ! j"
    "j < length (et_flags t) \<Longrightarrow> j \<noteq> i \<Longrightarrow> et_name_id (alloced i f p n fl sz mt nl t) ! j = et_name_id t ! j"
    "j < length (et_flags t) \<Longrightarrow> j \<noteq> i \<Longrightarrow> et_size (alloced i f p n fl sz mt nl t) ! j = et_size t ! j"
    "j < length (et_flags t) \<Longrightarrow> j \<noteq> i \<Longrightarrow> et_mtime (alloced i f p n fl sz mt nl t) ! j = et_mtime t ! j"
    "j < length (et_flags t) \<Longrightarrow> j \<noteq> i \<Longrightarrow> et_next_link (alloced i f p n fl sz mt nl t) ! j = et_next_link t ! j"
    "j < length (et_flags t) \<Longrightarrow> j \<noteq> i \<Longrightarrow> et_flags (alloced i f p n fl sz mt nl t) ! j = et_flags t ! j"
  by (simp_all add: alloced_def put_at assms(2) cols_lengths(2-7)[OF assms(1)])

lemma alloc_core:
  assumes core: "core E V {} {} {} {}" and int: "interned E name V {} {} n nm"
    and i: "i \<le> slots V" "i \<notin> live V" "i < NIL" and fl: "\<not> contains fl TOMBSTONE" and p: "p = NIL \<or> p \<in> live V"
    and tk: "table_ok (alloced i f p n fl sz mt nl (v_entries V))"
  defines "t \<equiv> alloced i f p n fl sz mt nl (v_entries V)"
  shows "core E (V\<lparr>v_names := nm, v_entries := t\<rparr>) {i} {} {i} {i}"
proof -
  note D = coreD[OF core] and I = int[unfolded interned_def] and L = cols_lengths[OF coreD(2)[OF core]]
  note A = alloced_at[OF D(2) i(1)]
  let ?V = "V\<lparr>v_names := nm, v_entries := t\<rparr>"
  have lv: "live ?V = insert i (live V)" using live_of_put[of i "et_flags (v_entries V)" fl] i fl by (simp add: t_def alloced_def)
  have lt: "j < slots V" "j \<noteq> i" if "j \<in> live V" for j using that i live_of_less by auto
  have at: "par ?V j = par V j" "nid ?V j = nid V j" "vflags ?V j = vflags V j" if "j \<in> live V" for j
    using lt[OF that] by (simp_all add: t_def A)
  have ati: "par ?V i = p" "nid ?V i = n" by (simp_all add: t_def A)
  have pn: "par V j \<noteq> i" if "j \<in> live V" for j using D(9)[OF that] i by auto
  have kd: "kids ?V - {i} = kids V" using at(1) lt(2) unfolding kids_def lv by auto
  have dr: "dirs ?V - {i} = dirs V" using at(3) lt(2) unfolding dirs_def dirent_def lv by auto
  have ls: "live ?V - {i} = live V" using i lv by auto
  have kl: "kids V \<subseteq> live V" by (auto simp: kids_def)
  have "same_ok ?V (live ?V - {i})"
  proof -
    have "chains_ok (ns_head nm) (put (et_next_same (v_entries V)) i NIL) (put (et_prev_same (v_entries V)) i NIL) (nid V) (live V)"
      by (rule chains_ok_put) (use I i L(8) in auto)
    then have "chains_ok (ns_head nm) (put (et_next_same (v_entries V)) i NIL) (put (et_prev_same (v_entries V)) i NIL) (nid ?V) (live V)"
      by (rule chains_ok_cong) (rule at(2))
    then show ?thesis unfolding same_ok_def ls by (simp add: t_def alloced_def)
  qed
  moreover have "child_ok ?V (kids ?V - {i})"
  proof -
    have "chains_ok (et_first_child (v_entries V)) (et_next_child (v_entries V)) (et_prev_child (v_entries V)) (par V) (kids V)"
      using D(7) by (simp add: child_ok_def)
    then have "chains_ok (put (et_first_child (v_entries V)) i NIL) (put (et_next_child (v_entries V)) i NIL)
        (put (et_prev_child (v_entries V)) i NIL) (par V) (kids V)"
      by (intro chains_ok_put chains_ok_put_head) (use kl i L(11) pn in auto)
    then have "chains_ok (put (et_first_child (v_entries V)) i NIL) (put (et_next_child (v_entries V)) i NIL)
        (put (et_prev_child (v_entries V)) i NIL) (par ?V) (kids V)"
      by (rule chains_ok_cong) (use at(1) kl in auto)
    then show ?thesis unfolding child_ok_def kd by (simp add: t_def alloced_def)
  qed
  moreover have "refs_ok ?V (live ?V - {})"
  proof -
    have same: "{j \<in> live V. nid ?V j = m} = {j \<in> live V. nid V j = m}" for m using at(2) by auto
    have "card {j \<in> insert i (live V). nid ?V j = m} = card {j \<in> live V. nid V j = m} + (if m = n then 1 else 0)" for m
      using card_add_one[of "live V" i "nid ?V" m] i unfolding same ati by simp
    then show ?thesis using I at(2) ati unfolding refs_ok_def lv by simp
  qed
  moreover have "dir_ok E ?V (dirs ?V - {i})"
  proof -
    have "dkey E ?V j = dkey E V j" if j: "j \<in> dirs V" for j
    proof -
      have "j \<in> live V" using j by (simp add: dirs_def)
      then show ?thesis using interned_dkey[OF int, of "{}" j] at(1,2) j by (simp add: dkey_def)
    qed
    then have "{j \<in> dirs V. dkey E ?V j = k} = {j \<in> dirs V. dkey E V j = k}" for k by auto
    then show ?thesis using D(8) unfolding dir_ok_def dr by simp
  qed
  moreover have "\<forall>j < slots ?V. par ?V j = NIL \<or> j \<in> live ?V \<and> par ?V j \<in> live ?V"
  proof (intro allI impI)
    fix j assume j: "j < slots ?V"
    show "par ?V j = NIL \<or> j \<in> live ?V \<and> par ?V j \<in> live ?V"
    proof (cases "j = i")
      case True
      then show ?thesis using ati(1) p unfolding lv by auto
    next
      case False
      then have js: "j < slots V" using j i(1) by (auto simp: t_def alloced_def length_put split: if_splits)
      then have "par ?V j = par V j" using False by (simp add: t_def A)
      then show ?thesis using D(14)[OF js] unfolding lv by auto
    qed
  qed
  moreover have "v_lost_found ?V \<in> live ?V" "par ?V (v_lost_found ?V) = NIL" using D(10,11) at(1) unfolding lv by auto
  ultimately show ?thesis using tk I unfolding core_def by (simp add: t_def)
qed

definition added :: "entry_idx \<Rightarrow> entry \<Rightarrow> volume \<Rightarrow> volume \<Rightarrow> bool" where
  "added i e V V' \<longleftrightarrow> same_meta V V' \<and> i \<notin> live V \<and> i < NIL \<and> slots V \<le> slots V' \<and> ents V' = (ents V)(i \<mapsto> e) \<and>
    et_next_link (v_entries V') ! i = NIL \<and>
    (\<forall>j \<in> live V. et_next_link (v_entries V') ! j = et_next_link (v_entries V) ! j)"

lemma added_live: "added i e V V' \<Longrightarrow> live V' = insert i (live V)"
  unfolding added_def dom_ents[symmetric] by auto

lemma new_entry_core:
  assumes core: "core E V {} {} {} {}" and room: "vroom E (name # ns) V"
    and fl: "\<not> contains fl TOMBSTONE" and p: "p = NIL \<or> p \<in> live V"
  shows "\<exists>i V'. new_entry E f p name fl sz mt V = Some (i, V') \<and> core E V' {} {} {} {i} \<and> vroom E ns V' \<and>
    added i \<lparr>e_frn = f, e_parent = p, e_name = name, e_flags = fl, e_size = sz, e_mtime = mt\<rparr> V V'"
proof -
  note D = coreD[OF core]
  obtain n nm where nm: "intern E name (v_names V) = Some (n, nm)" and int: "interned E name V {} {} n nm"
    using intern_step[OF core room] by auto
  note I = int[unfolded interned_def]
  have "table_room 1 (v_entries V)" using room by (simp add: vroom_def table_room_def)
  then obtain i where al: "alloc f p n fl sz mt NIL (v_entries V) = Some (i, alloced i f p n fl sz mt NIL (v_entries V))"
      "i \<le> slots V" "i \<notin> live V" "i < NIL" "table_ok (alloced i f p n fl sz mt NIL (v_entries V))"
    using alloc_spec[OF D(1) _ fl] by blast
  define t where "t = alloced i f p n fl sz mt NIL (v_entries V)"
  define V1 where "V1 = V\<lparr>v_names := nm, v_entries := t\<rparr>"
  have c1: "core E V1 {i} {} {i} {i}" using alloc_core[OF core int al(2-4) fl p al(5)] by (simp add: V1_def t_def)
  have lv: "live V1 = insert i (live V)" using live_of_put[of i "et_flags (v_entries V)" fl] al fl by (simp add: V1_def t_def alloced_def)
  note A = alloced_at[OF D(2) al(2)]
  have ni: "nid V1 i = n" by (simp add: V1_def t_def A)
  define V2 where "V2 = same_linked i n V1"
  have hl: "n < length (ns_head (v_names V1))" using I by (simp add: V1_def names_ok_def)
  have c2: "link_same_name i n V1 = Some V2" "core E V2 {} {} {i} {i}"
    using link_same_core[OF c1 _ _ ni hl] lv by (simp_all add: V2_def)
  define V3 where "V3 = V2\<lparr>v_entries := t_child_linked i (v_entries V2)\<rparr>"
  have lv2: "live V2 = live V1" by (simp add: V2_def same_linked_def)
  have c3: "link_child i V2 = Some V3" "core E V3 {} {} {} {i}"
    using link_child_core[OF c2(2), of i] lv lv2 by (simp_all add: V3_def)
  have f3: "et_frn (v_entries V3) = et_frn t" "et_parent (v_entries V3) = et_parent t" "et_name_id (v_entries V3) = et_name_id t"
      "et_flags (v_entries V3) = et_flags t" "et_size (v_entries V3) = et_size t" "et_mtime (v_entries V3) = et_mtime t"
      "et_next_link (v_entries V3) = et_next_link t" "raw_of (v_names V3) = raw_of nm"
      "ns_pairs (v_names V3) = ns_pairs nm" "ns_raw (v_names V3) = ns_raw nm" "ns_folded (v_names V3) = ns_folded nm"
    by (simp_all add: V3_def V2_def V1_def same_linked_def raw_of_def fun_eq_iff)
  have "new_entry E f p name fl sz mt V = Some (i, V3)"
    using nm al(1) c2(1) c3(1) by (simp add: new_entry_def V1_def t_def)
  moreover have "vroom E ns V3"
    using room I al(2) by (auto simp: vroom_def f3 t_def alloced_def length_put)
  moreover have "added i \<lparr>e_frn = f, e_parent = p, e_name = name, e_flags = fl, e_size = sz, e_mtime = mt\<rparr> V V3"
  proof -
    have "entry_at V3 i = \<lparr>e_frn = f, e_parent = p, e_name = name, e_flags = fl, e_size = sz, e_mtime = mt\<rparr>"
      using I by (simp add: entry_at_def f3 t_def A)
    moreover have keep: "entry_at V3 j = entry_at V j \<and> et_next_link (v_entries V3) ! j = et_next_link (v_entries V) ! j"
      if j: "j \<in> live V" for j
    proof -
      have "j < slots V" "j \<noteq> i" using j al live_of_less by auto
      then show ?thesis using I j by (simp add: entry_at_def f3 t_def A)
    qed
    moreover have "live V3 = insert i (live V)" using lv lv2 by (simp add: V3_def)
    ultimately have "ents V3 = (ents V)(i \<mapsto> \<lparr>e_frn = f, e_parent = p, e_name = name, e_flags = fl, e_size = sz, e_mtime = mt\<rparr>)"
      by (auto simp: ents_def fun_eq_iff)
    moreover have "same_meta V V3" by (simp add: same_meta_def V3_def V2_def V1_def same_linked_def)
    moreover have "et_next_link (v_entries V3) ! i = NIL" by (simp add: f3 t_def A)
    ultimately show ?thesis using keep al by (simp add: added_def f3 t_def alloced_def length_put)
  qed
  ultimately show ?thesis using c3(2) by blast
qed

section \<open>Rewriting an entry\<close>

text \<open>An entry changed in place, everything else as it was.\<close>

definition edited :: "entry_idx \<Rightarrow> entry \<Rightarrow> volume \<Rightarrow> volume \<Rightarrow> bool" where
  "edited i e V V' \<longleftrightarrow> same_meta V V' \<and> et_frn (v_entries V') = et_frn (v_entries V) \<and>
    et_next_link (v_entries V') = et_next_link (v_entries V) \<and> slots V' = slots V \<and>
    v_dirty V' = v_dirty V \<and> ents V' = (ents V)(i \<mapsto> e)"

lemma edited_trans: "edited i e U V \<Longrightarrow> edited i e' V W \<Longrightarrow> edited i e' U W"
  by (simp add: edited_def same_meta_def)

lemma edited_live: "edited i e V V' \<Longrightarrow> i \<in> live V \<Longrightarrow> live V' = live V"
  unfolding edited_def dom_ents[symmetric] by auto

lemma edited_at: "edited i e V V' \<Longrightarrow> i \<in> live V \<Longrightarrow> entry_at V' i = e"
proof -
  assume e: "edited i e V V'" "i \<in> live V"
  then have "ents V' i = Some e" by (simp add: edited_def)
  then show "entry_at V' i = e" using edited_live[OF e] e(2) by (simp add: ents_def)
qed

lemma editedI:
  assumes "same_meta V V'" "v_dirty V' = v_dirty V" "et_frn (v_entries V') = et_frn (v_entries V)" "et_next_link (v_entries V') = et_next_link (v_entries V)"
    "slots V' = slots V" "live V' = live V" "i \<in> live V" "entry_at V' i = e" "\<And>j. j \<in> live V \<Longrightarrow> j \<noteq> i \<Longrightarrow> entry_at V' j = entry_at V j"
  shows "edited i e V V'"
proof -
  have "ents V' = (ents V)(i \<mapsto> e)" using assms(6-9) by (auto simp: ents_def fun_eq_iff)
  then show ?thesis using assms by (simp add: edited_def)
qed

definition rename_steps :: "env \<Rightarrow> entry_idx \<Rightarrow> u8 list \<Rightarrow> volume \<Rightarrow> volume option" where
  "rename_steps E i name V =
    do {
      V \<leftarrow> unlink_same_name i V;
      old \<leftarrow> t_name_id (v_entries V) i;
      V \<leftarrow> on_names (release E old) V;
      (nid, nm) \<leftarrow> intern E name (v_names V);
      V \<leftarrow> on_entries (t_set_name_id i nid) (V\<lparr>v_names := nm\<rparr>);
      link_same_name i nid V
    }"

definition reparent_steps :: "entry_idx \<Rightarrow> entry_idx \<Rightarrow> volume \<Rightarrow> volume option" where
  "reparent_steps i p V =
    do { V \<leftarrow> unlink_child i V; V \<leftarrow> on_entries (t_set_parent i p) V; link_child i V }"

lemma rewrite_entry_steps:
  "rewrite_entry E i p name lossy is_dir V =
    do {
      V \<leftarrow> dir_index_remove E i V;
      V \<leftarrow> rename_steps E i name V;
      V \<leftarrow> note_cycle i p V;
      V \<leftarrow> reparent_steps i p V;
      fl \<leftarrow> t_flags (v_entries V) i;
      V \<leftarrow> on_entries (t_set_flags i (with_flag (with_flag (with_flag fl DIR is_dir) NON_UNICODE_NAME lossy) PLACEHOLDER False)) V;
      V \<leftarrow> dir_index_insert E i V;
      Some (bump_dirty V)
    }"
  by (simp add: rewrite_entry_def rename_steps_def reparent_steps_def Option.bind_assoc split_def)

lemma rename_core:
  assumes core: "core E V {} {} {} {i}" and i: "i \<in> live V" and room: "vroom E (name # ns) V"
  shows "\<exists>V'. rename_steps E i name V = Some V' \<and> core E V' {} {} {} {i} \<and> vroom E ns V' \<and>
    edited i ((entry_at V i)\<lparr>e_name := name\<rparr>) V V'"
proof -
  define V1 where "V1 = same_unlinked i V"
  have c1: "unlink_same_name i V = Some V1" "core E V1 {i} {} {} {i}" using unlink_same_core[OF core] i by (simp_all add: V1_def)
  have f1: "et_frn (v_entries V1) = et_frn (v_entries V)" "et_parent (v_entries V1) = et_parent (v_entries V)"
      "et_name_id (v_entries V1) = et_name_id (v_entries V)" "et_flags (v_entries V1) = et_flags (v_entries V)"
      "et_size (v_entries V1) = et_size (v_entries V)" "et_mtime (v_entries V1) = et_mtime (v_entries V)"
      "et_next_link (v_entries V1) = et_next_link (v_entries V)" "raw_of (v_names V1) = raw_of (v_names V)" "sizes V1 = sizes V"
    by (simp_all add: V1_def same_unlinked_def raw_of_def fun_eq_iff sizes_def)
  have i1: "i \<in> live V1 - {}" using i f1 by simp
  have n1: "t_name_id (v_entries V1) i = Some (nid V1 i)"
    using coreD(12)[OF c1(2)] i1 cols_lengths(4)[OF coreD(2)[OF c1(2)]] by (simp add: t_name_id_def)
  obtain nm where nm: "release E (nid V1 i) (v_names V1) = Some nm" "core E (V1\<lparr>v_names := nm\<rparr>) {i} {i} {} {i}"
      "\<And>j. j \<in> live V1 - {i} \<Longrightarrow> raw_of nm (nid V1 j) = raw_of (v_names V1) (nid V1 j)"
    by (rule release_core[OF c1(2) i1]) auto
  define V2 where "V2 = V1\<lparr>v_names := nm\<rparr>"
  have c2: "core E V2 {i} {i} {} {i}" using nm(2) by (simp add: V2_def)
  have "sizes V2 = sizes V" using f1(9) release_lengths[OF nm(1)] by (simp add: V2_def sizes_def)
  then have room2: "vroom E (name # ns) V2" using room vroom_sizes by blast
  obtain n nm3 where n: "intern E name (v_names V2) = Some (n, nm3)" and int: "interned E name V2 {i} {i} n nm3"
    using intern_step[OF c2 room2] by auto
  note I = int[unfolded interned_def]
  define V3 where "V3 = V2\<lparr>v_names := nm3, v_entries := (v_entries V2)\<lparr>et_name_id := (et_name_id (v_entries V2))[i := n]\<rparr>\<rparr>"
  have i2: "i \<in> live V2" using i1 by (simp add: V2_def)
  have c3: "on_entries (t_set_name_id i n) (V2\<lparr>v_names := nm3\<rparr>) = Some V3" "core E V3 {i} {} {} {i}"
    using set_name_core[OF c2 i2 _ _ _ int] by (simp_all add: V3_def)
  have il: "i < length (et_name_id (v_entries V2))"
    using coreD(12)[OF c2 i2] cols_lengths(4)[OF coreD(2)[OF c2]] by simp
  have n3: "nid V3 i = n" "n < length (ns_head (v_names V3))" using il I by (simp_all add: V3_def names_ok_def)
  define V4 where "V4 = same_linked i n V3"
  have i3: "i \<in> live V3" using i2 by (simp add: V3_def)
  have c4: "link_same_name i n V3 = Some V4" "core E V4 {} {} {} {i}"
    using link_same_core[OF c3(2) i3 _ n3] by (simp_all add: V4_def)
  have f4: "et_frn (v_entries V4) = et_frn (v_entries V)" "et_parent (v_entries V4) = et_parent (v_entries V)"
      "et_name_id (v_entries V4) = (et_name_id (v_entries V))[i := n]" "et_flags (v_entries V4) = et_flags (v_entries V)"
      "et_size (v_entries V4) = et_size (v_entries V)" "et_mtime (v_entries V4) = et_mtime (v_entries V)"
      "et_next_link (v_entries V4) = et_next_link (v_entries V)" "raw_of (v_names V4) = raw_of nm3"
    using f1 by (simp_all add: V4_def V3_def V2_def same_linked_def raw_of_def fun_eq_iff)
  have raw: "raw_of nm3 (nid V j) = raw_of (v_names V) (nid V j)" if "j \<in> live V - {i}" for j
  proof -
    have j: "j \<in> live V2 - {i}" "j \<in> live V1 - {i}" using that f1(4) by (simp_all add: V2_def)
    have "raw_of nm3 (nid V2 j) = raw_of (v_names V2) (nid V2 j)" using I j(1) by blast
    then show ?thesis using nm(3)[OF j(2)] f1 by (simp add: V2_def)
  qed
  have "edited i ((entry_at V i)\<lparr>e_name := name\<rparr>) V V4"
  proof (rule editedI)
    show "same_meta V V4" "v_dirty V4 = v_dirty V" by (simp_all add: same_meta_def V4_def V3_def V2_def V1_def same_linked_def same_unlinked_def)
    have "i < length (et_name_id (v_entries V))" using il f1(3) by (simp add: V2_def)
    then show "entry_at V4 i = (entry_at V i)\<lparr>e_name := name\<rparr>" using I by (simp add: entry_at_def f4)
    show "entry_at V4 j = entry_at V j" if "j \<in> live V" "j \<noteq> i" for j using raw[of j] that by (simp add: entry_at_def f4)
  qed (use i f4 in simp_all)
  moreover have "rename_steps E i name V = Some V4"
    using c1(1) n1 nm(1) n c3(1) c4(1) by (simp add: rename_steps_def on_names_def V2_def[symmetric])
  moreover have "vroom E ns V4"
    using room2 I by (auto simp: vroom_def V4_def V3_def same_linked_def)
  ultimately show ?thesis using c4(2) by blast
qed

lemma reparent_core:
  assumes core: "core E V {} {} {} {i}" and i: "i \<in> live V" "i \<noteq> v_lost_found V" and p: "p \<in> live V"
  shows "\<exists>V'. reparent_steps i p V = Some V' \<and> core E V' {} {} {} {i} \<and> sizes V' = sizes V \<and> v_names V' = v_names V \<and>
    et_flags (v_entries V') = et_flags (v_entries V) \<and> edited i ((entry_at V i)\<lparr>e_parent := p\<rparr>) V V'"
proof -
  define V1 where "V1 = V\<lparr>v_entries := t_child_unlinked i (v_entries V)\<rparr>"
  have c1: "unlink_child i V = Some V1" "core E V1 {} {} {i} {i}" using unlink_child_core[OF core] i by (simp_all add: V1_def)
  define V2 where "V2 = V1\<lparr>v_entries := (v_entries V1)\<lparr>et_parent := (et_parent (v_entries V1))[i := p]\<rparr>\<rparr>"
  have c2: "on_entries (t_set_parent i p) V1 = Some V2" "core E V2 {} {} {i} {i}"
    using set_parent_core[OF c1(2), of i p] i p by (simp_all add: V1_def V2_def)
  define V3 where "V3 = V2\<lparr>v_entries := t_child_linked i (v_entries V2)\<rparr>"
  have c3: "link_child i V2 = Some V3" "core E V3 {} {} {} {i}"
    using link_child_core[OF c2(2), of i] i by (simp_all add: V1_def V2_def V3_def)
  have f: "et_frn (v_entries V3) = et_frn (v_entries V)" "et_parent (v_entries V3) = (et_parent (v_entries V))[i := p]"
      "et_name_id (v_entries V3) = et_name_id (v_entries V)" "et_flags (v_entries V3) = et_flags (v_entries V)"
      "et_size (v_entries V3) = et_size (v_entries V)" "et_mtime (v_entries V3) = et_mtime (v_entries V)"
      "et_next_link (v_entries V3) = et_next_link (v_entries V)" "v_names V3 = v_names V"
    by (simp_all add: V3_def V2_def V1_def)
  have il: "i < length (et_parent (v_entries V))" using coreD(12)[OF core i(1)] cols_lengths(3)[OF coreD(2)[OF core]] by simp
  have "edited i ((entry_at V i)\<lparr>e_parent := p\<rparr>) V V3"
    by (rule editedI) (use i il in \<open>simp_all add: f entry_at_def same_meta_def V3_def V2_def V1_def\<close>)
  moreover have "reparent_steps i p V = Some V3" using c1(1) c2(1) c3(1) by (simp add: reparent_steps_def)
  moreover have "sizes V3 = sizes V" by (simp add: sizes_def f)
  ultimately show ?thesis using c3(2) f by blast
qed

end
