(* ===== verification/Volume_Link.thy ===== *)
theory Volume_Link
  imports Volume_Ent
begin

text \<open>
  Rewriting an entry in place, and the chains of links: the record map points at the first link
  of every record and the chain from it holds exactly the live entries of that record, all with
  the same file reference number.
\<close>

section \<open>Rewriting an entry\<close>

lemma set_flags_core:
  assumes core: "core E V Xs Xr Xc Xd" and i: "i \<in> live V" "i \<in> Xd" and fl: "\<not> contains fl TOMBSTONE"
  defines "V' \<equiv> V\<lparr>v_entries := (v_entries V)\<lparr>et_flags := (et_flags (v_entries V))[i := fl]\<rparr>\<rparr>"
  shows "on_entries (t_set_flags i fl) V = Some V'" "core E V' Xs Xr Xc Xd" "live V' = live V"
proof -
  note D = coreD[OF core]
  have il: "i < slots V" using D(12)[OF i(1)] .
  then show "on_entries (t_set_flags i fl) V = Some V'" by (simp add: on_entries_def t_set_flags_def V'_def)
  show lv: "live V' = live V"
    using i(1) il fl by (auto simp: V'_def live_of_def nth_list_update)
  have "cols_ok (v_entries V')" using D(2) by (simp add: V'_def cols_ok_def Let_def)
  then have tk: "table_ok (v_entries V')" using D(1) lv by (simp add: table_ok_def free_ok_def V'_def)
  have kd: "kids V' = kids V" unfolding kids_def lv by (simp add: V'_def)
  have dr: "dirs V' - Xd = dirs V - Xd"
  proof -
    have "dirent V' j = dirent V j" if "j \<notin> Xd" for j
    proof -
      have "j \<noteq> i" using that i by auto
      then show ?thesis by (simp add: dirent_def V'_def)
    qed
    then show ?thesis unfolding dirs_def lv by auto
  qed
  have "same_ok V' (live V - Xs)" "refs_ok V' (live V - Xr)" "child_ok V' (kids V - Xc)" "dkey E V' = dkey E V"
    using D(5-7) by (simp_all add: V'_def same_ok_def refs_ok_def child_ok_def dkey_def fun_eq_iff)
  then show "core E V' Xs Xr Xc Xd"
    using D(3,4,8,10,11,14) tk lv unfolding core_def kd dr lv dir_ok_def by (simp add: V'_def)
qed

lemma at_or_below_total:
  assumes "core E V Xs Xr Xc Xd" "node = NIL \<or> node \<in> live V"
  shows "\<exists>b. at_or_below V a k node = Some b"
  using assms(2)
proof (induction k arbitrary: node)
  case (Suc k)
  note D = coreD[OF assms(1)]
  show ?case
  proof (cases "node = a \<or> node = NIL \<or> node = v_root V \<or> node = v_lost_found V")
    case False
    then have n: "node \<in> live V" using Suc.prems by blast
    then have "t_parent (v_entries V) node = Some (par V node)"
      using D(12) cols_lengths(3)[OF D(2)] by (simp add: t_parent_def)
    moreover obtain b where "at_or_below V a k (par V node) = Some b" using Suc.IH[OF D(9)[OF n]] by blast
    ultimately show ?thesis using False by simp
  qed auto
qed (auto intro: exI[of _ False])

text \<open>Every suspect is a slot of the table.\<close>

definition suspects_ok :: "volume \<Rightarrow> bool" where
  "suspects_ok V \<longleftrightarrow> set (v_cycle_suspects V) \<subseteq> {..<slots V}"

lemma note_cycle_core:
  assumes "core E V Xs Xr Xc Xd" "p \<in> live V"
  obtains s where "note_cycle i p V = Some (V\<lparr>v_cycle_suspects := s\<rparr>)" "core E (V\<lparr>v_cycle_suspects := s\<rparr>) Xs Xr Xc Xd"
    "set s \<subseteq> insert i (set (v_cycle_suspects V))"
proof -
  obtain b where "is_at_or_below V p i = Some b" using at_or_below_total[OF assms(1), of p] assms(2) by (auto simp: is_at_or_below_def)
  then have "note_cycle i p V = Some (V\<lparr>v_cycle_suspects := (if b \<and> i \<notin> set (v_cycle_suspects V) then v_cycle_suspects V @ [i] else v_cycle_suspects V)\<rparr>)"
    by (simp add: note_cycle_def)
  then show ?thesis by (rule that) (use core_cong[OF assms(1)] in auto)
qed

text \<open>The flags a rewritten entry gets.\<close>

definition rewritten_flags :: "entry_flags \<Rightarrow> bool \<Rightarrow> bool \<Rightarrow> entry_flags" where
  "rewritten_flags fl lossy is_dir = with_flag (with_flag (with_flag fl DIR is_dir) NON_UNICODE_NAME lossy) PLACEHOLDER False"

definition rewritten :: "entry_idx \<Rightarrow> entry \<Rightarrow> volume \<Rightarrow> volume \<Rightarrow> bool" where
  "rewritten i e V V' \<longleftrightarrow>
    v_by_frn V' = v_by_frn V \<and> v_root V' = v_root V \<and> v_lost_found V' = v_lost_found V \<and>
    v_stats V' = v_stats V \<and> v_generation V' = v_generation V \<and>
    set (v_cycle_suspects V') \<subseteq> insert i (set (v_cycle_suspects V)) \<and>
    et_frn (v_entries V') = et_frn (v_entries V) \<and> et_next_link (v_entries V') = et_next_link (v_entries V) \<and>
    slots V' = slots V \<and> ents V' = (ents V)(i \<mapsto> e)"

lemma ents_cong:
  "v_entries V' = v_entries V \<Longrightarrow> v_names V' = v_names V \<Longrightarrow> ents V' = ents V"
  by (simp add: ents_def entry_at_def fun_eq_iff)

lemma rewrite_entry_core:
  assumes core: "core E V {} {} {} {}" and i: "i \<in> live V" "i \<noteq> v_lost_found V" and p: "p \<in> live V"
    and room: "vroom E (name # ns) V"
  shows "\<exists>V'. rewrite_entry E i p name lossy is_dir V = Some V' \<and> core E V' {} {} {} {} \<and> vroom E ns V' \<and>
    v_dirty V' = v_dirty V + 1 \<and>
    rewritten i ((entry_at V i)\<lparr>e_name := name, e_parent := p, e_flags := rewritten_flags (vflags V i) lossy is_dir\<rparr>) V V'"
proof -
  obtain d where d: "dir_index_remove E i V = Some (V\<lparr>v_dir_children := d\<rparr>)" "core E (V\<lparr>v_dir_children := d\<rparr>) {} {} {} {i}"
    using dir_index_remove_core[OF core, of i] i by auto
  define V1 where "V1 = V\<lparr>v_dir_children := d\<rparr>"
  have c1: "core E V1 {} {} {} {i}" "i \<in> live V1" "vroom E (name # ns) V1"
    using d(2) i room by (simp_all add: V1_def vroom_def)
  obtain V2 where V2: "rename_steps E i name V1 = Some V2" "core E V2 {} {} {} {i}" "vroom E ns V2"
      "edited i ((entry_at V1 i)\<lparr>e_name := name\<rparr>) V1 V2"
    using rename_core[OF c1] by blast
  have lv2: "live V2 = live V" using edited_live[OF V2(4) c1(2)] by (simp add: V1_def)
  have p2: "p \<in> live V2" using p lv2 by simp
  obtain s where s: "note_cycle i p V2 = Some (V2\<lparr>v_cycle_suspects := s\<rparr>)" "core E (V2\<lparr>v_cycle_suspects := s\<rparr>) {} {} {} {i}"
      "set s \<subseteq> insert i (set (v_cycle_suspects V2))"
    by (rule note_cycle_core[OF V2(2) p2])
  define V3 where "V3 = V2\<lparr>v_cycle_suspects := s\<rparr>"
  have m2: "v_lost_found V2 = v_lost_found V" "v_cycle_suspects V2 = v_cycle_suspects V"
    using V2(4) by (simp_all add: edited_def same_meta_def V1_def)
  have c3: "core E V3 {} {} {} {i}" "i \<in> live V3" "i \<noteq> v_lost_found V3" "p \<in> live V3"
    using s(2) i p2 lv2 m2 by (simp_all add: V3_def)
  obtain V4 where V4: "reparent_steps i p V3 = Some V4" "core E V4 {} {} {} {i}" "sizes V4 = sizes V3" "v_names V4 = v_names V3"
      "et_flags (v_entries V4) = et_flags (v_entries V3)" "edited i ((entry_at V3 i)\<lparr>e_parent := p\<rparr>) V3 V4"
    using reparent_core[OF c3] by blast
  have i4: "i \<in> live V4" using edited_live[OF V4(6) c3(2)] c3(2) by simp
  have at2: "entry_at V2 i = (entry_at V i)\<lparr>e_name := name\<rparr>" using edited_at[OF V2(4) c1(2)] by (simp add: V1_def entry_at_def)
  have at4: "entry_at V4 i = (entry_at V i)\<lparr>e_name := name, e_parent := p\<rparr>"
    using edited_at[OF V4(6) c3(2)] at2 by (simp add: V3_def entry_at_def)
  have fl4: "vflags V4 i = vflags V i" using arg_cong[OF at4, of e_flags] by simp
  define fl where "fl = rewritten_flags (vflags V i) lossy is_dir"
  have nt: "\<not> contains fl TOMBSTONE" using i(1) by (simp add: fl_def rewritten_flags_def live_of_def)
  define V5 where "V5 = V4\<lparr>v_entries := (v_entries V4)\<lparr>et_flags := (et_flags (v_entries V4))[i := fl]\<rparr>\<rparr>"
  have c5: "on_entries (t_set_flags i fl) V4 = Some V5" "core E V5 {} {} {} {i}" "live V5 = live V4"
    using set_flags_core[OF V4(2) i4 _ nt] by (simp_all add: V5_def)
  obtain d6 where d6: "dir_index_insert E i V5 = Some (V5\<lparr>v_dir_children := d6\<rparr>)" "core E (V5\<lparr>v_dir_children := d6\<rparr>) {} {} {} {}"
    using dir_index_insert_core[OF c5(2), of i] i4 c5(3) by auto
  define V6 where "V6 = bump_dirty (V5\<lparr>v_dir_children := d6\<rparr>)"
  have il4: "i < slots V4" using live_of_less[OF i4] .
  have tf: "t_flags (v_entries V4) i = Some (vflags V4 i)" using il4 by (simp add: t_flags_def)
  have "rewrite_entry E i p name lossy is_dir V = Some V6"
    using d(1) V2(1) s(1) V4(1) tf c5(1) d6(1)
    by (simp add: rewrite_entry_steps V1_def[symmetric] V3_def[symmetric] V6_def fl4 fl_def rewritten_flags_def)
  moreover have "core E V6 {} {} {} {}" by (rule core_cong[OF d6(2)]) (simp_all add: V6_def)
  moreover have "vroom E ns V6" using V2(3) V4(3) by (simp add: V6_def V5_def V3_def vroom_def sizes_def)
  moreover have "v_dirty V6 = v_dirty V + 1"
    using V2(4) V4(6) by (simp add: V6_def V5_def V3_def V1_def bump_dirty_def edited_def)
  moreover have "rewritten i ((entry_at V i)\<lparr>e_name := name, e_parent := p, e_flags := fl\<rparr>) V V6"
  proof -
    have e4: "ents V4 = (ents V)(i \<mapsto> (entry_at V i)\<lparr>e_name := name, e_parent := p\<rparr>)"
      using V4(6) V2(4) edited_at[OF V4(6) c3(2)] at4 ents_cong[of V1 V] ents_cong[of V3 V2]
      by (simp add: edited_def V1_def V3_def)
    have "entry_at V5 i = (entry_at V4 i)\<lparr>e_flags := fl\<rparr>" "\<And>j. j \<noteq> i \<Longrightarrow> entry_at V5 j = entry_at V4 j"
      using il4 by (simp_all add: V5_def entry_at_def)
    then have "ents V5 = (ents V4)(i \<mapsto> (entry_at V i)\<lparr>e_name := name, e_parent := p, e_flags := fl\<rparr>)"
      using i4 c5(3) at4 by (auto simp: ents_def fun_eq_iff)
    then have "ents V6 = (ents V)(i \<mapsto> (entry_at V i)\<lparr>e_name := name, e_parent := p, e_flags := fl\<rparr>)"
      using ents_cong[of V6 V5] e4 by (simp add: V6_def)
    moreover have "same_meta V3 V4" "same_meta V V2" using V4(6) V2(4) by (simp_all add: edited_def V1_def same_meta_def)
    moreover have "set s \<subseteq> insert i (set (v_cycle_suspects V))" using s(3) m2 by simp
    ultimately show ?thesis using V4(6) V2(4)
      by (simp add: rewritten_def same_meta_def edited_def V6_def V5_def V3_def V1_def)
  qed
  ultimately show ?thesis unfolding fl_def by blast
qed

section \<open>Chains of links\<close>

abbreviation frn_at :: "volume \<Rightarrow> entry_idx \<Rightarrow> frn" where "frn_at V i \<equiv> et_frn (v_entries V) ! i"

definition rec_set :: "volume \<Rightarrow> u64 \<Rightarrow> entry_idx set" where
  "rec_set V r = {i \<in> live V - {v_lost_found V}. record_number (frn_at V i) = r}"

definition link_chain :: "volume \<Rightarrow> u64 \<Rightarrow> entry_idx \<Rightarrow> entry_idx list \<Rightarrow> bool" where
  "link_chain V r h xs \<longleftrightarrow> lseg (et_next_link (v_entries V)) h xs \<and> distinct xs \<and> xs \<noteq> [] \<and> set xs = rec_set V r \<and>
    (\<forall>i \<in> set xs. frn_at V i = frn_at V h)"

text \<open>Every record outside \<open>R\<close> has its chain.\<close>

definition links_ok :: "volume \<Rightarrow> u64 set \<Rightarrow> bool" where
  "links_ok V R \<longleftrightarrow> frn_map_ok (v_by_frn V) \<and>
    (\<forall>r. r \<notin> R \<longrightarrow> (case frn_get (v_by_frn V) r of None \<Rightarrow> rec_set V r = {} | Some h \<Rightarrow> \<exists>xs. link_chain V r h xs))"

lemma links_okD:
  assumes "links_ok V R" "r \<notin> R"
  shows "frn_get (v_by_frn V) r = None \<Longrightarrow> rec_set V r = {}"
    "frn_get (v_by_frn V) r = Some h \<Longrightarrow> \<exists>xs. link_chain V r h xs"
  using assms by (fastforce simp: links_ok_def split: option.splits)+

lemma links_ok_weaken: "links_ok V R \<Longrightarrow> R \<subseteq> R' \<Longrightarrow> links_ok V R'"
  unfolding links_ok_def by blast

lemma link_chain_head: "link_chain V r h xs \<Longrightarrow> h \<in> rec_set V r \<and> h = hd xs"
  by (cases xs) (auto simp: link_chain_def)

lemma rec_set_live: "i \<in> rec_set V r \<Longrightarrow> i \<in> live V \<and> i \<noteq> v_lost_found V \<and> record_number (frn_at V i) = r"
  by (simp add: rec_set_def)

text \<open>What the invariant of the links depends on.\<close>

lemma links_ok_frame:
  assumes ok: "links_ok V R" and lf: "v_lost_found V' = v_lost_found V" and m: "frn_map_ok (v_by_frn V')"
    and get: "\<And>r. r \<notin> R \<Longrightarrow> frn_get (v_by_frn V') r = frn_get (v_by_frn V) r"
    and sl: "slots V' \<ge> slots V" "length (et_next_link (v_entries V)) = slots V" "length (et_next_link (v_entries V')) = slots V'"
    and recs: "\<And>r. r \<notin> R \<Longrightarrow> rec_set V' r = rec_set V r"
    and keep: "\<And>r i. r \<notin> R \<Longrightarrow> i \<in> rec_set V r \<Longrightarrow>
      et_next_link (v_entries V') ! i = et_next_link (v_entries V) ! i \<and> frn_at V' i = frn_at V i"
  shows "links_ok V' R"
  unfolding links_ok_def
proof (intro conjI allI impI)
  show "frn_map_ok (v_by_frn V')" by (rule m)
  fix r assume r: "r \<notin> R"
  show "case frn_get (v_by_frn V') r of None \<Rightarrow> rec_set V' r = {} | Some h \<Rightarrow> \<exists>xs. link_chain V' r h xs"
  proof (cases "frn_get (v_by_frn V) r")
    case None
    then show ?thesis using links_okD(1)[OF ok r] get[OF r] recs[OF r] by simp
  next
    case (Some h)
    then obtain xs where xs: "link_chain V r h xs" using links_okD(2)[OF ok r] by blast
    have "lseg (et_next_link (v_entries V')) h xs"
    proof -
      have ls: "lseg nx' h xs" if "lseg nx h xs" "length nx \<le> length nx'" "\<And>x. x \<in> set xs \<Longrightarrow> nx' ! x = nx ! x" for nx nx' h
        using that by (induction xs arbitrary: h) auto
      show ?thesis
        by (rule ls[of "et_next_link (v_entries V)"]) (use xs sl keep[OF r] in \<open>auto simp: link_chain_def\<close>)
    qed
    moreover have "\<forall>i \<in> set xs. frn_at V' i = frn_at V' h"
    proof
      fix i assume i: "i \<in> set xs"
      have "i \<in> rec_set V r" "h \<in> rec_set V r" "frn_at V i = frn_at V h"
        using xs i link_chain_head[OF xs] unfolding link_chain_def by blast+
      then show "frn_at V' i = frn_at V' h" using keep[OF r] by simp
    qed
    ultimately have "link_chain V' r h xs" using xs recs[OF r] unfolding link_chain_def by blast
    then show ?thesis using Some get[OF r] by auto
  qed
qed

subsection \<open>Removing a chain\<close>

definition ents_drop :: "entry_idx \<Rightarrow> entry_idx set \<Rightarrow> (entry_idx \<Rightarrow> entry option) \<Rightarrow> entry_idx \<Rightarrow> entry option" where
  "ents_drop lf S m = (\<lambda>j. if j \<in> S then None
    else map_option (\<lambda>e. if e_parent e \<in> S then e\<lparr>e_parent := lf\<rparr> else e) (m j))"

lemma ents_drop_empty [simp]: "ents_drop lf {} m = m"
  by (simp add: ents_drop_def fun_eq_iff option.map_ident)

lemma ents_drop_insert: "lf \<notin> S \<Longrightarrow> ents_drop lf S (ents_remove lf i m) = ents_drop lf (insert i S) m"
  by (auto simp: ents_drop_def ents_remove_def fun_eq_iff option.map_comp comp_def intro!: option.map_cong0 split: option.splits)

definition dropped :: "entry_idx set \<Rightarrow> volume \<Rightarrow> volume \<Rightarrow> bool" where
  "dropped S V V' \<longleftrightarrow> v_root V' = v_root V \<and> v_lost_found V' = v_lost_found V \<and> v_cycle_suspects V' = v_cycle_suspects V \<and>
    v_generation V' = v_generation V \<and> sizes V' = sizes V \<and> ents V' = ents_drop (v_lost_found V) S (ents V) \<and>
    (\<forall>j. j \<notin> S \<longrightarrow> et_next_link (v_entries V') ! j = et_next_link (v_entries V) ! j)"

lemma dropped_live: "dropped S V V' \<Longrightarrow> live V' = live V - S"
  unfolding dropped_def dom_ents[symmetric] by (auto simp: ents_drop_def split: if_splits)

lemma ents_frn: "i \<in> live V \<Longrightarrow> ents V i = Some e \<Longrightarrow> frn_at V i = e_frn e"
  by (auto simp: ents_def)

lemma dropped_frn:
  assumes "dropped S V V'" "j \<in> live V - S"
  shows "frn_at V' j = frn_at V j"
proof -
  have "j \<in> live V'" using dropped_live[OF assms(1)] assms(2) by simp
  then have "frn_at V' j = e_frn (the (ents V' j))" by (simp add: ents_def)
  also have "\<dots> = frn_at V j" using assms by (simp add: dropped_def ents_drop_def ents_def)
  finally show ?thesis .
qed

lemma dropped_rec_set: "dropped S V V' \<Longrightarrow> rec_set V' r = rec_set V r - S"
  using dropped_live[of S V V'] dropped_frn[of S V V'] by (auto simp: rec_set_def dropped_def)

lemma tombstone_chain_core:
  assumes "core E V {} {} {} {}" "lseg (et_next_link (v_entries V)) cur xs" "distinct xs"
    "set xs \<subseteq> live V" "v_lost_found V \<notin> set xs"
  shows "\<exists>V'. tombstone_chain E cur V = Some V' \<and> core E V' {} {} {} {} \<and> dropped (set xs) V V' \<and>
    v_by_frn V' = v_by_frn V \<and> v_stats V' = v_stats V"
  using assms
proof (induction xs arbitrary: V cur)
  case Nil
  then show ?case by (subst tombstone_chain.simps) (simp add: dropped_def)
next
  case (Cons x xs)
  note D = coreD[OF Cons.prems(1)]
  have x: "x \<in> live V" "x \<noteq> v_lost_found V" "cur = x" "x \<noteq> NIL" using Cons.prems by auto
  obtain V1 where V1: "remove_entry E x V = Some V1" "core E V1 {} {} {} {}" "removed x V V1"
    using remove_entry_core[OF Cons.prems(1) x(1,2)] by blast
  have m: "same_meta V V1" "sizes V1 = sizes V" "ents V1 = ents_remove (v_lost_found V) x (ents V)"
      "\<And>j. j \<noteq> x \<Longrightarrow> et_next_link (v_entries V1) ! j = et_next_link (v_entries V) ! j"
    using V1(3) by (simp_all add: removed_def)
  have len: "length (et_next_link (v_entries V1)) = length (et_next_link (v_entries V))"
    using m(2) cols_lengths(7)[OF coreD(2)[OF V1(2)]] cols_lengths(7)[OF D(2)] by (simp add: sizes_def)
  have "lseg (et_next_link (v_entries V1)) (et_next_link (v_entries V) ! x) xs"
  proof (rule lseg_cong[of "et_next_link (v_entries V)"])
    fix y assume "y \<in> set xs"
    then show "et_next_link (v_entries V1) ! y = et_next_link (v_entries V) ! y" using Cons.prems(3) by (intro m(4)) auto
  qed (use Cons.prems(2) len in auto)
  moreover have "set xs \<subseteq> live V1" using removed_live[OF V1(3)] Cons.prems by auto
  moreover have "distinct xs" "v_lost_found V1 \<notin> set xs" using Cons.prems m(1) by (simp_all add: same_meta_def)
  ultimately obtain V' where V': "tombstone_chain E (et_next_link (v_entries V) ! x) V1 = Some V'" "core E V' {} {} {} {}"
      "dropped (set xs) V1 V'" "v_by_frn V' = v_by_frn V1" "v_stats V' = v_stats V1"
    using Cons.IH[OF V1(2)] by blast
  have "tombstone_chain E cur V = Some V'"
    using x V1(1) V'(1) D(12)[OF x(1)] cols_lengths(7)[OF D(2)] by (subst tombstone_chain.simps) (simp add: t_next_link_def)
  moreover have "dropped (set (x # xs)) V V'"
    using V'(3) m Cons.prems(5) by (simp add: dropped_def same_meta_def ents_drop_insert)
  ultimately show ?case using V'(2,4,5) m(1) by (auto simp: same_meta_def)
qed

text \<open>The invariant between operations.\<close>

definition vol_ok :: "env \<Rightarrow> volume \<Rightarrow> bool" where
  "vol_ok E V \<longleftrightarrow> core E V {} {} {} {} \<and> links_ok V {} \<and> suspects_ok V"

lemma vol_okD:
  assumes "vol_ok E V"
  shows "core E V {} {} {} {}" "links_ok V {}" "suspects_ok V"
  using assms by (simp_all add: vol_ok_def)

lemma core_next_link: "core E V Xs Xr Xc Xd \<Longrightarrow> length (et_next_link (v_entries V)) = slots V"
  using cols_lengths(7)[OF coreD(2)] .

lemma dropped_slots: "dropped S V V' \<Longrightarrow> slots V' = slots V"
  by (simp add: dropped_def sizes_def)

lemma dropped_vroom: "dropped S V V' \<Longrightarrow> vroom E ns V' = vroom E ns V"
  by (rule vroom_sizes) (simp add: dropped_def)

text \<open>Removing the chain of a record and its map entry.\<close>

lemma drop_record_ok:
  assumes ok: "vol_ok E V" and h: "frn_get (v_by_frn V) r = Some h"
  shows "\<exists>V'. tombstone_chain E h V = Some V' \<and> v_stats V' = v_stats V \<and> v_by_frn V' = v_by_frn V \<and> dropped (rec_set V r) V V' \<and>
    (\<forall>st. vol_ok E (V'\<lparr>v_by_frn := frn_remove r (v_by_frn V), v_stats := st\<rparr>))"
proof -
  note D = vol_okD[OF ok]
  obtain xs where xs: "link_chain V r h xs" using links_okD(2)[OF D(2) _ h] by auto
  have x: "lseg (et_next_link (v_entries V)) h xs" "distinct xs" "set xs = rec_set V r" using xs by (simp_all add: link_chain_def)
  have sub: "set xs \<subseteq> live V" "v_lost_found V \<notin> set xs" using x(3) by (auto simp: rec_set_def)
  obtain V1 where V1: "tombstone_chain E h V = Some V1" "core E V1 {} {} {} {}" "dropped (rec_set V r) V V1"
      "v_by_frn V1 = v_by_frn V" "v_stats V1 = v_stats V"
    using tombstone_chain_core[OF D(1) x(1,2) sub] x(3) by auto
  have "vol_ok E (V1\<lparr>v_by_frn := frn_remove r (v_by_frn V), v_stats := st\<rparr>)" (is "vol_ok E ?V") for st
  proof -
    have c: "core E ?V {} {} {} {}" by (rule core_cong[OF V1(2)]) simp_all
    have rs: "rec_set ?V q = rec_set V q - rec_set V r" for q
      using dropped_rec_set[OF V1(3), of q] by (simp add: rec_set_def)
    have fm: "frn_map_ok (frn_remove r (v_by_frn V))" using D(2) frn_remove_ok by (simp add: links_ok_def)
    have "links_ok ?V {r}"
    proof (rule links_ok_frame[OF links_ok_weaken[OF D(2)]])
      show "v_lost_found ?V = v_lost_found V" using V1(3) by (simp add: dropped_def)
      show "slots V \<le> slots ?V" "length (et_next_link (v_entries V)) = slots V" "length (et_next_link (v_entries ?V)) = slots ?V"
        using core_next_link[OF D(1)] core_next_link[OF c] dropped_slots[OF V1(3)] by simp_all
      show "rec_set ?V q = rec_set V q" if "q \<notin> {r}" for q
        using rs[of q] that by (auto simp: rec_set_def)
      show "et_next_link (v_entries ?V) ! i = et_next_link (v_entries V) ! i \<and> frn_at ?V i = frn_at V i"
        if "q \<notin> {r}" "i \<in> rec_set V q" for q i
      proof -
        have "i \<notin> rec_set V r" "i \<in> live V" using that by (auto simp: rec_set_def)
        then show ?thesis using V1(3) dropped_frn[OF V1(3), of i] by (simp add: dropped_def)
      qed
    qed (use fm in \<open>simp_all add: frn_get_remove\<close>)
    moreover have "rec_set ?V r = {}" using rs[of r] by simp
    ultimately have "links_ok ?V {}" by (auto simp: links_ok_def frn_get_remove)
    moreover have "suspects_ok ?V" using D(3) V1(3) dropped_slots[OF V1(3)] by (simp add: suspects_ok_def dropped_def)
    ultimately show ?thesis using c by (simp add: vol_ok_def)
  qed
  then show ?thesis using V1 by blast
qed

lemma dropped_upd: "dropped S V V' \<Longrightarrow> dropped S V (V'\<lparr>v_by_frn := m, v_stats := st\<rparr>)"
  using ents_cong[of "V'\<lparr>v_by_frn := m, v_stats := st\<rparr>" V'] by (simp add: dropped_def sizes_def)

lemma reclaim_stale_slot_ok:
  assumes ok: "vol_ok E V" and h: "frn_get (v_by_frn V) r = Some h"
  shows "\<exists>V'. reclaim_stale_slot E r h V = Some V' \<and> vol_ok E V' \<and> dropped (rec_set V r) V V' \<and>
    frn_get (v_by_frn V') = (frn_get (v_by_frn V))(r := None)"
proof -
  obtain V1 where V1: "tombstone_chain E h V = Some V1" "dropped (rec_set V r) V V1" "v_by_frn V1 = v_by_frn V"
      "\<And>st. vol_ok E (V1\<lparr>v_by_frn := frn_remove r (v_by_frn V), v_stats := st\<rparr>)"
    using drop_record_ok[OF ok h] by blast
  show ?thesis
    using V1(1,3,4) dropped_upd[OF V1(2)] by (simp add: reclaim_stale_slot_def frn_get_remove)
qed

lemma t_frn_live: "core E V Xs Xr Xc Xd \<Longrightarrow> i \<in> live V \<Longrightarrow> t_frn (v_entries V) i = Some (frn_at V i)"
  using coreD(12) cols_lengths(2)[OF coreD(2)] by (simp add: t_frn_def)

lemma head_live:
  assumes "vol_ok E V" "frn_get (v_by_frn V) r = Some h"
  shows "h \<in> rec_set V r" "h \<in> live V" "t_frn (v_entries V) h = Some (frn_at V h)" "record_number (frn_at V h) = r" "h \<noteq> v_lost_found V"
proof -
  show h: "h \<in> rec_set V r" using links_okD(2)[OF vol_okD(2)[OF assms(1)] _ assms(2)] link_chain_head by blast
  then show "h \<in> live V" "record_number (frn_at V h) = r" "h \<noteq> v_lost_found V" by (simp_all add: rec_set_def)
  then show "t_frn (v_entries V) h = Some (frn_at V h)" using t_frn_live[OF vol_okD(1)[OF assms(1)]] by blast
qed

lemma head_of_total:
  assumes "vol_ok E V"
  shows "head_of V f = Some (case frn_get (v_by_frn V) (record_number f) of None \<Rightarrow> None | Some h \<Rightarrow> if frn_at V h = f then Some h else None)"
  using head_live(3)[OF assms] by (auto simp: head_of_def split: option.splits)

lemma rec_set_same_frn:
  assumes "vol_ok E V" "i \<in> rec_set V r" "j \<in> rec_set V r"
  shows "frn_at V i = frn_at V j"
proof (cases "frn_get (v_by_frn V) r")
  case None
  then show ?thesis using links_okD(1)[OF vol_okD(2)[OF assms(1)] _ None] assms(2) by simp
next
  case (Some h)
  then obtain xs where "link_chain V r h xs" using links_okD(2)[OF vol_okD(2)[OF assms(1)]] by blast
  then have "frn_at V i = frn_at V h" "frn_at V j = frn_at V h" using assms(2,3) unfolding link_chain_def by blast+
  then show ?thesis by simp
qed

text \<open>The live links of a file.\<close>

definition links_of :: "volume \<Rightarrow> frn \<Rightarrow> entry_idx set" where
  "links_of V f = {i \<in> live V - {v_lost_found V}. frn_at V i = f}"

lemma delete_frn_ok:
  assumes ok: "vol_ok E V"
  shows "\<exists>b V'. delete_frn E f V = Some (b, V') \<and> vol_ok E V' \<and> (b \<longleftrightarrow> links_of V f \<noteq> {}) \<and>
    dropped (links_of V f) V V' \<and> (\<not> b \<longrightarrow> V' = V)"
proof (cases "frn_get (v_by_frn V) (record_number f)")
  case None
  then have "rec_set V (record_number f) = {}" using links_okD(1)[OF vol_okD(2)[OF ok]] by blast
  then have "links_of V f = {}" by (auto simp: links_of_def rec_set_def)
  then show ?thesis using None ok by (intro exI[of _ False] exI[of _ V]) (simp add: delete_frn_def Let_def dropped_def)
next
  case (Some h)
  note H = head_live[OF ok Some]
  show ?thesis
  proof (cases "frn_at V h = f")
    case False
    have "links_of V f = {}"
    proof (rule ccontr)
      assume "links_of V f \<noteq> {}"
      then obtain i where i: "i \<in> links_of V f" by blast
      then have "i \<in> rec_set V (record_number f)" by (simp add: links_of_def rec_set_def)
      then show False using rec_set_same_frn[OF ok _ H(1)] False i by (simp add: links_of_def)
    qed
    then show ?thesis using Some H(3) False ok by (intro exI[of _ False] exI[of _ V]) (simp add: delete_frn_def Let_def dropped_def)
  next
    case True
    have "rec_set V (record_number f) = links_of V f"
    proof -
      have "frn_at V i = f" if "i \<in> rec_set V (record_number f)" for i using rec_set_same_frn[OF ok that H(1)] True by simp
      then show ?thesis by (auto simp: links_of_def rec_set_def)
    qed
    moreover obtain V1 where V1: "tombstone_chain E h V = Some V1" "dropped (rec_set V (record_number f)) V V1" "v_by_frn V1 = v_by_frn V"
        "\<And>st. vol_ok E (V1\<lparr>v_by_frn := frn_remove (record_number f) (v_by_frn V), v_stats := st\<rparr>)"
      using drop_record_ok[OF ok Some] by blast
    moreover have "vol_ok E (V1\<lparr>v_by_frn := frn_remove (record_number f) (v_by_frn V)\<rparr>)"
      using V1(4)[of "v_stats V1"] by simp
    moreover have "dropped (rec_set V (record_number f)) V (V1\<lparr>v_by_frn := frn_remove (record_number f) (v_by_frn V)\<rparr>)"
      using dropped_upd[OF V1(2), where st = "v_stats V1"] by simp
    ultimately show ?thesis using Some H(1,3) True by (auto simp: delete_frn_def Let_def)
  qed
qed

subsection \<open>Adding to a record\<close>

lemma added_slots: "added i e V V' \<Longrightarrow> slots V \<le> slots V'"
  by (simp add: added_def)

lemma added_frn:
  assumes "added i e V V'"
  shows "frn_at V' i = e_frn e" "j \<in> live V \<Longrightarrow> frn_at V' j = frn_at V j"
proof -
  note lv = added_live[OF assms]
  have "ents V' i = Some e" using assms by (simp add: added_def)
  then show "frn_at V' i = e_frn e" using lv by (intro ents_frn) auto
  assume j: "j \<in> live V"
  have "i \<notin> live V" using assms by (simp add: added_def)
  then have "ents V' j = ents V j" using assms j by (auto simp: added_def)
  then show "frn_at V' j = frn_at V j" using j lv by (simp add: ents_def) (metis entry_at_fields(1))
qed

lemma added_rec_set:
  assumes "added i e V V'" "v_lost_found V \<in> live V"
  shows "rec_set V' r = (if record_number (e_frn e) = r then insert i (rec_set V r) else rec_set V r)"
proof -
  have i: "i \<notin> live V" "v_lost_found V' = v_lost_found V" using assms(1) by (simp_all add: added_def same_meta_def)
  then have "i \<noteq> v_lost_found V" using assms(2) by auto
  then show ?thesis unfolding rec_set_def added_live[OF assms(1)] i(2) using added_frn[OF assms(1)] i(1) by auto
qed

lemma added_links:
  assumes ok: "links_ok V R" and core: "core E V {} {} {} {}" and ad: "added i e V V'" and core': "core E V' Xs Xr Xc Xd"
    and r: "record_number (e_frn e) \<in> R"
  shows "links_ok V' R"
proof (rule links_ok_frame[OF ok])
  have m: "same_meta V V'" using ad by (simp add: added_def)
  show "v_lost_found V' = v_lost_found V" "frn_map_ok (v_by_frn V')" "\<And>q. frn_get (v_by_frn V') q = frn_get (v_by_frn V) q"
    using m ok by (simp_all add: same_meta_def links_ok_def)
  show "slots V \<le> slots V'" "length (et_next_link (v_entries V)) = slots V" "length (et_next_link (v_entries V')) = slots V'"
    using added_slots[OF ad] core_next_link[OF core] core_next_link[OF core'] by simp_all
  fix q assume q: "q \<notin> R"
  then show "rec_set V' q = rec_set V q" using added_rec_set[OF ad coreD(10)[OF core], of q] r by auto
  fix j assume "j \<in> rec_set V q"
  then have "j \<in> live V" by (simp add: rec_set_def)
  then show "et_next_link (v_entries V') ! j = et_next_link (v_entries V) ! j \<and> frn_at V' j = frn_at V j"
    using ad added_frn(2)[OF ad] by (simp add: added_def)
qed

lemma links_ok_cong:
  assumes "links_ok V R" "v_entries V' = v_entries V" "v_lost_found V' = v_lost_found V" "v_by_frn V' = v_by_frn V"
  shows "links_ok V' R"
proof -
  have r: "rec_set V' = rec_set V" using assms by (simp add: rec_set_def fun_eq_iff)
  then have l: "link_chain V' = link_chain V" using assms(2) by (simp add: link_chain_def fun_eq_iff)
  show ?thesis using assms(1) unfolding links_ok_def assms(4) r l .
qed

lemma links_ok_set:
  assumes "links_ok V {r}" "i \<noteq> NIL" "link_chain V r i xs"
  shows "links_ok (V\<lparr>v_by_frn := frn_set r i (v_by_frn V)\<rparr>) {}"
proof -
  let ?V = "V\<lparr>v_by_frn := frn_set r i (v_by_frn V)\<rparr>"
  have rs: "rec_set ?V = rec_set V" "\<And>q h ys. link_chain ?V q h ys = link_chain V q h ys"
    by (simp_all add: rec_set_def link_chain_def fun_eq_iff)
  have "frn_map_ok (v_by_frn ?V)" using assms(1,2) frn_set_ok by (simp add: links_ok_def)
  moreover have "case frn_get (v_by_frn ?V) q of None \<Rightarrow> rec_set ?V q = {} | Some h \<Rightarrow> \<exists>xs. link_chain ?V q h xs" for q
  proof (cases "q = r")
    case True
    then show ?thesis using assms(2,3) by (auto simp: frn_get_set rs)
  next
    case False
    then show ?thesis using assms(1) unfolding rs by (simp add: frn_get_set[OF assms(2)] links_ok_def)
  qed
  ultimately show ?thesis by (simp add: links_ok_def)
qed

lemma added_first_link:
  assumes ok: "vol_ok E V" and none: "frn_get (v_by_frn V) r = None" and ad: "added i e V V'" and core': "core E V' {} {} {} {i}"
    and r: "record_number (e_frn e) = r"
  shows "links_ok (V'\<lparr>v_by_frn := frn_set r i (v_by_frn V')\<rparr>) {}" "suspects_ok V'"
proof -
  note D = vol_okD[OF ok]
  have l: "links_ok V' {r}" by (rule added_links[OF links_ok_weaken[OF D(2)] D(1) ad core']) (use r in auto)
  have i: "i < NIL" using ad by (simp add: added_def)
  have "i \<in> live V'" using added_live[OF ad] by simp
  then have "i < length (et_next_link (v_entries V'))" using coreD(12)[OF core'] core_next_link[OF core'] by simp
  moreover have "rec_set V r = {}" using links_okD(1)[OF D(2) _ none] by simp
  moreover have "et_next_link (v_entries V') ! i = NIL" using ad by (simp add: added_def)
  ultimately have "link_chain V' r i [i]"
    using added_rec_set[OF ad coreD(10)[OF D(1)], of r] r i by (simp add: link_chain_def)
  then show "links_ok (V'\<lparr>v_by_frn := frn_set r i (v_by_frn V')\<rparr>) {}" using links_ok_set[OF l] i by simp
  show "suspects_ok V'" using D(3) added_slots[OF ad] ad by (auto simp: suspects_ok_def added_def same_meta_def)
qed

lemma core_not_dirent:
  assumes "core E V Xs Xr Xc (insert i Xd)" "\<not> dirent V i"
  shows "core E V Xs Xr Xc (Xd - {i})"
proof -
  have "dirs V - insert i Xd = dirs V - (Xd - {i})" using assms(2) by (auto simp: dirs_def)
  then show ?thesis using assms(1) by (simp add: core_def)
qed

lemma vroom_tl: "vroom E (n # ns) V \<Longrightarrow> vroom E ns V"
  by (auto simp: vroom_def)

section \<open>Resolving a parent\<close>

definition placeholder_of :: "volume \<Rightarrow> frn \<Rightarrow> entry" where
  "placeholder_of V pf = \<lparr>e_frn = pf, e_parent = v_lost_found V, e_name = PLACEHOLDER_NAME,
    e_flags = with_flag DIR PLACEHOLDER True, e_size = SIZE_UNKNOWN, e_mtime = MTIME_UNKNOWN\<rparr>"

text \<open>The entry of the parent's record is found, or made as a placeholder after a stale record
  number has been reclaimed.\<close>

definition resolved :: "frn \<Rightarrow> entry_idx \<Rightarrow> volume \<Rightarrow> volume \<Rightarrow> bool" where
  "resolved pf p V V' \<longleftrightarrow>
    v_root V' = v_root V \<and> v_lost_found V' = v_lost_found V \<and> v_cycle_suspects V' = v_cycle_suspects V \<and>
    v_generation V' = v_generation V \<and> slots V \<le> slots V' \<and>
    p \<in> live V' \<and> p \<noteq> v_lost_found V' \<and> frn_at V' p = pf \<and>
    frn_get (v_by_frn V') = (frn_get (v_by_frn V))(record_number pf \<mapsto> p) \<and>
    (if links_of V pf \<noteq> {} then ents V' = ents V \<and> et_next_link (v_entries V') = et_next_link (v_entries V)
     else ents V' = (ents_drop (v_lost_found V) (rec_set V (record_number pf)) (ents V))(p \<mapsto> placeholder_of V pf) \<and>
       p \<notin> live V - rec_set V (record_number pf) \<and> et_next_link (v_entries V') ! p = NIL \<and>
       (\<forall>j \<in> live V - rec_set V (record_number pf). et_next_link (v_entries V') ! j = et_next_link (v_entries V) ! j))"

definition create_placeholder :: "env \<Rightarrow> frn \<Rightarrow> volume \<Rightarrow> (entry_idx \<times> volume) option" where
  "create_placeholder E pf V =
    do {
      (i, V) \<leftarrow> new_entry E pf (v_lost_found V) PLACEHOLDER_NAME (with_flag DIR PLACEHOLDER True) SIZE_UNKNOWN MTIME_UNKNOWN V;
      Some (i, bump_dirty (V\<lparr>v_by_frn := frn_set (record_number pf) i (v_by_frn V),
        v_stats := (v_stats V)\<lparr>st_placeholders_created := st_placeholders_created (v_stats V) + 1\<rparr>\<rparr>))
    }"

lemma create_placeholder_ok:
  assumes ok: "vol_ok E V" and none: "frn_get (v_by_frn V) (record_number pf) = None" and room: "vroom E (PLACEHOLDER_NAME # ns) V"
  shows "\<exists>p V'. create_placeholder E pf V = Some (p, V') \<and> vol_ok E V' \<and> vroom E ns V' \<and> added p (placeholder_of V pf) V (V'\<lparr>v_by_frn := v_by_frn V, v_stats := v_stats V\<rparr>) \<and>
    v_by_frn V' = frn_set (record_number pf) p (v_by_frn V)"
proof -
  note D = vol_okD[OF ok]
  obtain p V1 where V1: "new_entry E pf (v_lost_found V) PLACEHOLDER_NAME (with_flag DIR PLACEHOLDER True) SIZE_UNKNOWN MTIME_UNKNOWN V = Some (p, V1)"
      "core E V1 {} {} {} {p}" "vroom E ns V1" "added p (placeholder_of V pf) V V1"
    using new_entry_core[OF D(1) room, of "with_flag DIR PLACEHOLDER True" "v_lost_found V" pf SIZE_UNKNOWN MTIME_UNKNOWN] coreD(10)[OF D(1)]
    by (auto simp: placeholder_of_def)
  define V2 where "V2 = bump_dirty (V1\<lparr>v_by_frn := frn_set (record_number pf) p (v_by_frn V1),
        v_stats := (v_stats V1)\<lparr>st_placeholders_created := st_placeholders_created (v_stats V1) + 1\<rparr>\<rparr>)"
  have rec: "record_number (e_frn (placeholder_of V pf)) = record_number pf" by (simp add: placeholder_of_def)
  note L = added_first_link[OF ok none V1(4,2) rec]
  have "entry_at V1 p = placeholder_of V pf"
  proof -
    have "ents V1 p = Some (placeholder_of V pf)" using V1(4) by (simp add: added_def)
    then show ?thesis using added_live[OF V1(4)] by (simp add: ents_def)
  qed
  then have "e_flags (entry_at V1 p) = e_flags (placeholder_of V pf)" by (rule arg_cong)
  then have "vflags V1 p = with_flag DIR PLACEHOLDER True" by (simp add: placeholder_of_def)
  then have "core E V1 {} {} {} {}" using core_not_dirent[OF V1(2)] by (simp add: dirent_def)
  then have "core E V2 {} {} {} {}" by (rule core_cong) (simp_all add: V2_def)
  moreover have "links_ok V2 {}" by (rule links_ok_cong[OF L(1)]) (simp_all add: V2_def)
  moreover have "suspects_ok V2" using L(2) by (simp add: suspects_ok_def V2_def)
  moreover have "create_placeholder E pf V = Some (p, V2)" using V1(1) by (simp add: create_placeholder_def V2_def)
  moreover have "vroom E ns V2" using V1(3) by (simp add: vroom_def V2_def)
  moreover have "added p (placeholder_of V pf) V (V2\<lparr>v_by_frn := v_by_frn V, v_stats := v_stats V\<rparr>)"
    using V1(4) ents_cong[of "V2\<lparr>v_by_frn := v_by_frn V, v_stats := v_stats V\<rparr>" V1] by (simp add: added_def same_meta_def V2_def)
  moreover have "v_by_frn V2 = frn_set (record_number pf) p (v_by_frn V)" using V1(4) by (simp add: V2_def added_def same_meta_def)
  ultimately show ?thesis by (auto simp: vol_ok_def)
qed

lemma resolve_parent_cases:
  "resolve_or_placeholder_parent E pf V =
    (case frn_get (v_by_frn V) (record_number pf) of
       Some i \<Rightarrow> do {
         g \<leftarrow> t_frn (v_entries V) i;
         if g = pf then Some (i, V)
         else do { V \<leftarrow> reclaim_stale_slot E (record_number pf) i V; create_placeholder E pf V } }
     | None \<Rightarrow> create_placeholder E pf V)"
  unfolding resolve_or_placeholder_parent_def create_placeholder_def[abs_def] Let_def by (rule refl)

lemma links_of_rec_set:
  assumes "vol_ok E V" "frn_get (v_by_frn V) (record_number f) = Some h"
  shows "links_of V f = (if frn_at V h = f then rec_set V (record_number f) else {})"
proof (cases "frn_at V h = f")
  case True
  then have "frn_at V i = f" if "i \<in> rec_set V (record_number f)" for i
    using rec_set_same_frn[OF assms(1) that head_live(1)[OF assms]] by simp
  then show ?thesis using True by (auto simp: links_of_def rec_set_def)
next
  case False
  have "i \<notin> links_of V f" for i
  proof
    assume i: "i \<in> links_of V f"
    then have "i \<in> rec_set V (record_number f)" by (simp add: links_of_def rec_set_def)
    then show False using rec_set_same_frn[OF assms(1) _ head_live(1)[OF assms]] False i by (simp add: links_of_def)
  qed
  then show ?thesis using False by auto
qed

lemma links_of_none: "vol_ok E V \<Longrightarrow> frn_get (v_by_frn V) (record_number f) = None \<Longrightarrow> links_of V f = {} \<and> rec_set V (record_number f) = {}"
  using links_okD(1)[OF vol_okD(2), of E V "record_number f"] by (auto simp: links_of_def rec_set_def)

lemma created_resolved:
  assumes ok: "vol_ok E V" and dr: "dropped (rec_set V (record_number pf)) V V1" and none: "links_of V pf = {}"
    and get1: "frn_get (v_by_frn V1) = (frn_get (v_by_frn V))(record_number pf := None)" and lf: "v_lost_found V1 \<in> live V1"
    and ad: "added p (placeholder_of V1 pf) V1 (V'\<lparr>v_by_frn := v_by_frn V1, v_stats := v_stats V1\<rparr>)"
    and get: "v_by_frn V' = frn_set (record_number pf) p (v_by_frn V1)"
  shows "resolved pf p V V'"
proof -
  let ?V = "V'\<lparr>v_by_frn := v_by_frn V1, v_stats := v_stats V1\<rparr>"
  have ad': "same_meta V1 ?V" "p \<notin> live V1" "p < NIL" "slots V1 \<le> slots V'" "ents ?V = (ents V1)(p \<mapsto> placeholder_of V1 pf)"
      "et_next_link (v_entries V') ! p = NIL" "\<And>j. j \<in> live V1 \<Longrightarrow> et_next_link (v_entries V') ! j = et_next_link (v_entries V1) ! j"
    using ad by (simp_all add: added_def)
  have lv1: "live V1 = live V - rec_set V (record_number pf)" by (rule dropped_live[OF dr])
  have lv': "live V' = insert p (live V1)" using added_live[OF ad] by simp
  have "frn_at V' p = pf" using added_frn(1)[OF ad] by (simp add: placeholder_of_def)
  moreover have "p \<noteq> v_lost_found V'" using ad'(1,2) lf by (auto simp: same_meta_def)
  moreover have "ents V' = (ents V1)(p \<mapsto> placeholder_of V pf)"
    using ad'(5) ents_cong[of V' ?V] dr by (simp add: placeholder_of_def dropped_def)
  moreover have "frn_get (v_by_frn V') = (frn_get (v_by_frn V))(record_number pf \<mapsto> p)"
    using ad'(3) by (simp add: get frn_get_set get1)
  moreover have "\<forall>j \<in> live V1. et_next_link (v_entries V') ! j = et_next_link (v_entries V) ! j"
    using ad'(7) dr lv1 by (simp add: dropped_def)
  ultimately show ?thesis
    using none ad' dr lv' lv1 dropped_slots[OF dr] unfolding resolved_def by (simp add: same_meta_def dropped_def)
qed

lemma resolve_or_placeholder_parent_ok:
  assumes ok: "vol_ok E V" and room: "vroom E (PLACEHOLDER_NAME # ns) V"
  shows "\<exists>p V'. resolve_or_placeholder_parent E pf V = Some (p, V') \<and> vol_ok E V' \<and> vroom E ns V' \<and> resolved pf p V V'"
proof (cases "frn_get (v_by_frn V) (record_number pf)")
  case None
  obtain p V' where V': "create_placeholder E pf V = Some (p, V')" "vol_ok E V'" "vroom E ns V'"
      "added p (placeholder_of V pf) V (V'\<lparr>v_by_frn := v_by_frn V, v_stats := v_stats V\<rparr>)"
      "v_by_frn V' = frn_set (record_number pf) p (v_by_frn V)"
    using create_placeholder_ok[OF ok None room] by blast
  note N = links_of_none[OF ok None]
  have "resolved pf p V V'"
    by (rule created_resolved[OF ok _ _ _ coreD(10)[OF vol_okD(1)[OF ok]] V'(4,5)]) (use N None in \<open>auto simp: dropped_def\<close>)
  then show ?thesis using V' None by (simp add: resolve_parent_cases)
next
  case (Some i)
  note H = head_live[OF ok Some] and LS = links_of_rec_set[OF ok Some]
  show ?thesis
  proof (cases "frn_at V i = pf")
    case True
    then have "links_of V pf \<noteq> {}" using LS H(1) by auto
    then have "resolved pf i V V" using Some H True by (auto simp: resolved_def)
    then show ?thesis using Some H(3) True ok vroom_tl[OF room] by (simp add: resolve_parent_cases)
  next
    case False
    obtain V1 where V1: "reclaim_stale_slot E (record_number pf) i V = Some V1" "vol_ok E V1" "dropped (rec_set V (record_number pf)) V V1"
        "frn_get (v_by_frn V1) = (frn_get (v_by_frn V))(record_number pf := None)"
      using reclaim_stale_slot_ok[OF ok Some] by blast
    have none: "frn_get (v_by_frn V1) (record_number pf) = None" using V1(4) by simp
    have room1: "vroom E (PLACEHOLDER_NAME # ns) V1" using room dropped_vroom[OF V1(3)] by simp
    obtain p V' where V': "create_placeholder E pf V1 = Some (p, V')" "vol_ok E V'" "vroom E ns V'"
        "added p (placeholder_of V1 pf) V1 (V'\<lparr>v_by_frn := v_by_frn V1, v_stats := v_stats V1\<rparr>)"
        "v_by_frn V' = frn_set (record_number pf) p (v_by_frn V1)"
      using create_placeholder_ok[OF V1(2) none room1] by blast
    have "resolved pf p V V'"
      by (rule created_resolved[OF ok V1(3) _ V1(4) coreD(10)[OF vol_okD(1)[OF V1(2)]] V'(4,5)]) (use LS False in simp)
    then show ?thesis using V' V1(1) Some H(3) False by (simp add: resolve_parent_cases)
  qed
qed

section \<open>Inserting or moving a link\<close>

text \<open>The entries of a record number that now belongs to another file.\<close>

definition stale_set :: "volume \<Rightarrow> frn \<Rightarrow> entry_idx set" where
  "stale_set V f = (if links_of V f = {} then rec_set V (record_number f) else {})"

lemma stale_lost_found: "v_lost_found V \<notin> stale_set V f"
  by (simp add: stale_set_def rec_set_def)

lemma links_of_sub: "links_of V f \<subseteq> rec_set V (record_number f)"
  by (auto simp: links_of_def rec_set_def)

definition clear_stale :: "env \<Rightarrow> frn \<Rightarrow> volume \<Rightarrow> volume option" where
  "clear_stale E f V =
    (case frn_get (v_by_frn V) (record_number f) of
       Some head \<Rightarrow> do {
         g \<leftarrow> t_frn (v_entries V) head;
         if g \<noteq> f then reclaim_stale_slot E (record_number f) head V else Some V }
     | None \<Rightarrow> Some V)"

lemma clear_stale_ok:
  assumes ok: "vol_ok E V"
  shows "\<exists>V'. clear_stale E f V = Some V' \<and> vol_ok E V' \<and> dropped (stale_set V f) V V' \<and>
    rec_set V' (record_number f) = links_of V f \<and>
    (\<forall>r. r \<noteq> record_number f \<longrightarrow> frn_get (v_by_frn V') r = frn_get (v_by_frn V) r)"
proof (cases "frn_get (v_by_frn V) (record_number f)")
  case None
  then show ?thesis using ok links_of_none[OF ok None] by (simp add: clear_stale_def stale_set_def dropped_def)
next
  case (Some h)
  note H = head_live[OF ok Some] and LS = links_of_rec_set[OF ok Some]
  show ?thesis
  proof (cases "frn_at V h = f")
    case True
    then have "links_of V f = rec_set V (record_number f)" "links_of V f \<noteq> {}" using LS H(1) by auto
    then show ?thesis using ok Some H(3) True by (simp add: clear_stale_def stale_set_def dropped_def)
  next
    case False
    then have "links_of V f = {}" using LS by simp
    moreover obtain V1 where V1: "reclaim_stale_slot E (record_number f) h V = Some V1" "vol_ok E V1"
        "dropped (rec_set V (record_number f)) V V1" "frn_get (v_by_frn V1) = (frn_get (v_by_frn V))(record_number f := None)"
      using reclaim_stale_slot_ok[OF ok Some] by blast
    ultimately show ?thesis using Some H(3) False dropped_rec_set[OF V1(3), of "record_number f"] by (simp add: clear_stale_def stale_set_def)
  qed
qed

lemma upsert_link_steps:
  "upsert_link E f pf name lossy is_dir V =
    do {
      V \<leftarrow> clear_stale E f V;
      (p, V) \<leftarrow> resolve_link_parent E f pf V;
      (case frn_get (v_by_frn V) (record_number f) of
         Some head \<Rightarrow> do {
           nl \<leftarrow> t_next_link (v_entries V) head;
           if nl = NIL then do { V \<leftarrow> rewrite_entry E head p name lossy is_dir V; Some (UpsertOk, V) }
           else Some (NeedsReconcile, V) }
       | None \<Rightarrow> do {
           (i, V) \<leftarrow> new_entry E f p name (with_flag (with_flag EMPTY DIR is_dir) NON_UNICODE_NAME lossy)
             SIZE_UNKNOWN MTIME_UNKNOWN V;
           V \<leftarrow> dir_index_insert E i (V\<lparr>v_by_frn := frn_set (record_number f) i (v_by_frn V)\<rparr>);
           Some (UpsertOk, bump_dirty V) })
    }"
  unfolding upsert_link_def clear_stale_def Let_def by (rule refl)

text \<open>What the entries outside a dropped set become.\<close>

definition keeps :: "entry_idx set \<Rightarrow> volume \<Rightarrow> volume \<Rightarrow> bool" where
  "keeps S V V' \<longleftrightarrow> v_lost_found V' = v_lost_found V \<and> v_root V' = v_root V \<and> v_generation V' = v_generation V \<and>
    (\<forall>j \<in> live V - S. ents V' j = ents_drop (v_lost_found V) S (ents V) j)"

lemma dropped_keeps: "dropped S V V' \<Longrightarrow> keeps S V V'"
  by (simp add: dropped_def keeps_def)

lemma ents_drop_drop:
  "lf \<notin> T \<Longrightarrow> ents_drop lf T (ents_drop lf S m) = ents_drop lf (S \<union> T) m"
  by (auto simp: ents_drop_def fun_eq_iff option.map_comp comp_def intro!: option.map_cong0 split: option.splits)

lemma keeps_trans:
  assumes "dropped S U V" "keeps T V W" "v_lost_found U \<notin> T"
  shows "keeps (S \<union> T) U W"
proof -
  have "ents W j = ents_drop (v_lost_found U) (S \<union> T) (ents U) j" if "j \<in> live U - (S \<union> T)" for j
  proof -
    have "j \<in> live V - T" using that dropped_live[OF assms(1)] by auto
    then have "ents W j = ents_drop (v_lost_found V) T (ents V) j" using assms(2) by (simp add: keeps_def)
    then show ?thesis using assms(1,3) by (simp add: dropped_def ents_drop_drop)
  qed
  then show ?thesis using assms(1,2) by (auto simp: keeps_def dropped_def)
qed

text \<open>The set a parent's resolution drops.\<close>

definition parent_stale :: "volume \<Rightarrow> frn \<Rightarrow> frn \<Rightarrow> entry_idx set" where
  "parent_stale V f pf = (if record_number pf = record_number f then {} else stale_set V pf)"

definition parent_is :: "volume \<Rightarrow> frn \<Rightarrow> frn \<Rightarrow> entry_idx \<Rightarrow> bool" where
  "parent_is V f pf p \<longleftrightarrow> (if pf \<noteq> f \<and> record_number pf = record_number f then p = v_lost_found V
    else p \<in> live V \<and> p \<noteq> v_lost_found V \<and> frn_at V p = pf)"

lemma rec_set_ents:
  "rec_set V r = {i. i \<noteq> v_lost_found V \<and> map_option record_number (map_option e_frn (ents V i)) = Some r}"
  by (auto simp: rec_set_def ents_def)

lemma ents_drop_frn: "map_option e_frn (ents_drop lf S m j) = (if j \<in> S then None else map_option e_frn (m j))"
  by (auto simp: ents_drop_def option.map_comp comp_def intro!: option.map_cong0)

lemma resolved_rec_set:
  assumes res: "resolved pf p V V'" and r: "r \<noteq> record_number pf"
  shows "rec_set V' r = rec_set V r"
proof (cases "links_of V pf = {}")
  case False
  then show ?thesis using res unfolding rec_set_ents by (simp add: resolved_def)
next
  case True
  let ?S = "rec_set V (record_number pf)"
  have e: "ents V' = (ents_drop (v_lost_found V) ?S (ents V))(p \<mapsto> placeholder_of V pf)" and lf: "v_lost_found V' = v_lost_found V"
      and p: "p \<notin> live V - ?S" using True res by (simp_all add: resolved_def)
  have "j \<in> rec_set V' r \<longleftrightarrow> j \<in> rec_set V r" for j
  proof (cases "j = p")
    case True
    have "p \<notin> rec_set V r" using p r by (auto simp: rec_set_def)
    moreover have "p \<notin> rec_set V' r" using e r unfolding rec_set_ents by (simp add: placeholder_of_def)
    ultimately show ?thesis using True by simp
  next
    case False
    have "j \<notin> ?S" if "j \<in> rec_set V r" using that r by (auto simp: rec_set_def)
    moreover have "map_option e_frn (ents V' j) = (if j \<in> ?S then None else map_option e_frn (ents V j))"
      using e False by (simp add: ents_drop_frn)
    ultimately show ?thesis
      using lf unfolding rec_set_ents[of V'] rec_set_ents[of V r] mem_Collect_eq by (cases "j \<in> ?S") (simp_all only: if_True if_False option.map, blast+)
  qed
  then show ?thesis by blast
qed

lemma resolved_next_link:
  assumes "resolved pf p V V'" "r \<noteq> record_number pf" "j \<in> rec_set V r"
  shows "et_next_link (v_entries V') ! j = et_next_link (v_entries V) ! j"
proof -
  have "j \<in> live V - rec_set V (record_number pf)" using assms(2,3) by (auto simp: rec_set_def)
  then show ?thesis using assms(1) by (auto simp: resolved_def split: if_splits)
qed

lemma resolved_keeps:
  assumes "resolved pf p V V'"
  shows "keeps (stale_set V pf) V V'"
  using assms by (cases "links_of V pf = {}") (auto simp: resolved_def keeps_def stale_set_def)

end
