(* ===== verification/Volume_Upsert.thy ===== *)
theory Volume_Upsert
  imports Volume_Link
begin

text \<open>
  Inserting a link, or renaming and moving the one link of a file: the operation ends, keeps the
  invariant, and leaves the link with its name, parent and flags and every other entry as it was.
\<close>

section \<open>Upserts\<close>

text \<open>What resolving the parent of a link leaves, for the file of the link.\<close>

lemma resolve_link_parent_ok:
  assumes ok: "vol_ok E V" and room: "vroom E (PLACEHOLDER_NAME # ns) V"
    and cur: "rec_set V (record_number f) = links_of V f"
  shows "\<exists>p V'. resolve_link_parent E f pf V = Some (p, V') \<and> vol_ok E V' \<and> vroom E ns V' \<and> p \<in> live V' \<and> parent_is V' f pf p \<and>
    keeps (parent_stale V f pf) V V' \<and> v_cycle_suspects V' = v_cycle_suspects V \<and> slots V \<le> slots V' \<and>
    (if pf = f \<and> links_of V f = {}
     then frn_get (v_by_frn V') (record_number f) = Some p \<and> rec_set V' (record_number f) = {p} \<and>
       p \<notin> live V \<and> ents V' p = Some (placeholder_of V f)
     else frn_get (v_by_frn V') (record_number f) = frn_get (v_by_frn V) (record_number f) \<and>
       rec_set V' (record_number f) = rec_set V (record_number f) \<and>
       (\<forall>j \<in> rec_set V (record_number f). et_next_link (v_entries V') ! j = et_next_link (v_entries V) ! j))"
proof (cases "pf \<noteq> f \<and> record_number pf = record_number f")
  case True
  then have "resolve_link_parent E f pf V = Some (v_lost_found V, V)" by (simp add: resolve_link_parent_def)
  then show ?thesis using True ok vroom_tl[OF room] coreD(10)[OF vol_okD(1)[OF ok]]
    by (simp add: parent_is_def parent_stale_def keeps_def)
next
  case False
  obtain p V' where V': "resolve_or_placeholder_parent E pf V = Some (p, V')" "vol_ok E V'" "vroom E ns V'" "resolved pf p V V'"
    using resolve_or_placeholder_parent_ok[OF ok room] by blast
  have R: "p \<in> live V'" "p \<noteq> v_lost_found V'" "frn_at V' p = pf" "slots V \<le> slots V'" "v_cycle_suspects V' = v_cycle_suspects V"
      "frn_get (v_by_frn V') = (frn_get (v_by_frn V))(record_number pf \<mapsto> p)" "v_lost_found V' = v_lost_found V"
    using V'(4) by (simp_all add: resolved_def)
  have step: "resolve_link_parent E f pf V = Some (p, V')" using False V'(1) by (auto simp: resolve_link_parent_def)
  have par: "parent_is V' f pf p" using False R(1-3) by (auto simp: parent_is_def)
  show ?thesis
  proof (cases "pf = f")
    case True
    have st: "parent_stale V f pf = {}" "stale_set V f = {}" using True cur by (simp_all add: parent_stale_def stale_set_def)
    have kp: "keeps {} V V'" using resolved_keeps[OF V'(4)] True st(2) by simp
    show ?thesis
    proof (cases "links_of V f = {}")
      case none: True
      have e: "ents V' = (ents V)(p \<mapsto> placeholder_of V f)"
        using V'(4) True none cur by (simp add: resolved_def)
      have "p \<notin> live V" using V'(4) True none cur by (simp add: resolved_def)
      have "rec_set V' (record_number f) = {p}"
      proof -
        have "rec_set V (record_number f) = {}" using none cur by simp
        then show ?thesis using R(2,7) unfolding rec_set_ents e by (auto simp: placeholder_of_def split: if_splits)
      qed
      then show ?thesis using step V'(2,3) par R True none st(1) kp e \<open>p \<notin> live V\<close> by simp
    next
      case some: False
      then obtain h where h: "frn_get (v_by_frn V) (record_number f) = Some h" using links_of_none[OF ok] by fastforce
      then have "frn_at V h = f" using links_of_rec_set[OF ok h] some by (auto split: if_splits)
      then have "resolve_or_placeholder_parent E pf V = Some (h, V)"
        using True h head_live(3)[OF ok h] by (simp add: resolve_parent_cases)
      then have "p = h" "V' = V" using V'(1) by simp_all
      then show ?thesis using step V'(2,3) par R some st(1) kp h by simp
    qed
  next
    case ne: False
    then have r: "record_number f \<noteq> record_number pf" using False by auto
    have "parent_stale V f pf = stale_set V pf" using r by (simp add: parent_stale_def)
    then show ?thesis
      using step V'(2,3) par R ne r resolved_keeps[OF V'(4)] resolved_rec_set[OF V'(4) r] resolved_next_link[OF V'(4) r] by simp
  qed
qed

lemma parent_stale_dropped:
  assumes "dropped (stale_set V f) V V1"
  shows "parent_stale V1 f pf = parent_stale V f pf"
proof (cases "record_number pf = record_number f")
  case False
  have lf: "v_lost_found V1 = v_lost_found V" using assms by (simp add: dropped_def)
  have d: "stale_set V f \<inter> rec_set V (record_number pf) = {}" using False by (auto simp: stale_set_def rec_set_def)
  have "rec_set V1 (record_number pf) = rec_set V (record_number pf)" using dropped_rec_set[OF assms] d by blast
  moreover have "links_of V1 pf = links_of V pf"
  proof -
    have "i \<in> links_of V1 pf \<longleftrightarrow> i \<in> links_of V pf" for i
      using d dropped_live[OF assms] dropped_frn[OF assms, of i] lf by (auto simp: links_of_def rec_set_def)
    then show ?thesis by blast
  qed
  ultimately show ?thesis by (simp add: parent_stale_def stale_set_def)
qed (simp add: parent_stale_def)

lemma next_link_chain:
  assumes ok: "vol_ok E V" and h: "frn_get (v_by_frn V) r = Some h"
  shows "t_next_link (v_entries V) h = Some (et_next_link (v_entries V) ! h)"
    "et_next_link (v_entries V) ! h = NIL \<longleftrightarrow> rec_set V r = {h}" "finite (rec_set V r)"
    "et_next_link (v_entries V) ! h \<noteq> NIL \<longleftrightarrow> 2 \<le> card (rec_set V r)"
proof -
  note D = vol_okD[OF ok] and H = head_live[OF ok h]
  show "t_next_link (v_entries V) h = Some (et_next_link (v_entries V) ! h)"
    using coreD(12)[OF D(1) H(2)] core_next_link[OF D(1)] by (simp add: t_next_link_def)
  obtain xs where xs: "link_chain V r h xs" using links_okD(2)[OF D(2) _ h] by auto
  then obtain ys where ys: "xs = h # ys" by (cases xs) (auto simp: link_chain_def)
  have l: "lseg (et_next_link (v_entries V)) (et_next_link (v_entries V) ! h) ys" "distinct (h # ys)" "insert h (set ys) = rec_set V r"
    using xs ys by (auto simp: link_chain_def)
  have n: "et_next_link (v_entries V) ! h = NIL \<longleftrightarrow> ys = []" using l(1) by (cases ys) auto
  show "et_next_link (v_entries V) ! h = NIL \<longleftrightarrow> rec_set V r = {h}" unfolding n using l(2,3) by (cases ys) auto
  show "finite (rec_set V r)" using l(3) by (metis List.finite_set finite_insert)
  have "card (rec_set V r) = Suc (length ys)" using l(2,3) distinct_card[OF l(2)] by simp
  then show "et_next_link (v_entries V) ! h \<noteq> NIL \<longleftrightarrow> 2 \<le> card (rec_set V r)" unfolding n by (cases ys) auto
qed

definition upserted :: "frn \<Rightarrow> frn \<Rightarrow> u8 list \<Rightarrow> bool \<Rightarrow> bool \<Rightarrow> volume \<Rightarrow> volume \<Rightarrow> entry_idx \<Rightarrow> bool" where
  "upserted f pf name lossy is_dir V V' i \<longleftrightarrow> links_of V' f = {i} \<and>
    (\<exists>e. ents V' i = Some e \<and> e_name e = name \<and> parent_is V' f pf (e_parent e) \<and> contains (e_flags e) DIR = is_dir \<and>
      \<not> contains (e_flags e) PLACEHOLDER \<and> contains (e_flags e) NON_UNICODE_NAME = lossy \<and>
      (if links_of V f = {} then e_size e = SIZE_UNKNOWN \<and> e_mtime e = MTIME_UNKNOWN
       else i \<in> links_of V f \<and> e_size e = et_size (v_entries V) ! i \<and> e_mtime e = et_mtime (v_entries V) ! i))"

lemma rewritten_live: "rewritten i e V V' \<Longrightarrow> i \<in> live V \<Longrightarrow> live V' = live V"
  unfolding rewritten_def dom_ents[symmetric] by auto

lemma rewritten_rec_set: "rewritten i e V V' \<Longrightarrow> i \<in> live V \<Longrightarrow> rec_set V' r = rec_set V r \<and> links_of V' f = links_of V f"
  using rewritten_live[of i e V V'] by (simp add: rec_set_def links_of_def rewritten_def)

lemma rewritten_ok:
  assumes ok: "vol_ok E V" and core: "core E V' {} {} {} {}" and rw: "rewritten i e V V'" and i: "i \<in> live V"
  shows "vol_ok E V'"
proof -
  note D = vol_okD[OF ok]
  have R: "v_lost_found V' = v_lost_found V" "v_by_frn V' = v_by_frn V" "et_next_link (v_entries V') = et_next_link (v_entries V)"
      "et_frn (v_entries V') = et_frn (v_entries V)" "slots V' = slots V" "set (v_cycle_suspects V') \<subseteq> insert i (set (v_cycle_suspects V))"
    using rw by (simp_all add: rewritten_def)
  have "links_ok V' {}"
    by (rule links_ok_frame[OF D(2)])
      (use R core_next_link[OF D(1)] core_next_link[OF core] rewritten_rec_set[OF rw i] D(2) in \<open>simp_all add: links_ok_def\<close>)
  moreover have "suspects_ok V'" using R D(3) coreD(12)[OF D(1) i] by (auto simp: suspects_ok_def)
  ultimately show ?thesis using core by (simp add: vol_ok_def)
qed

lemma rewrite_entry_ok:
  assumes ok: "vol_ok E V" and i: "i \<in> live V" "i \<noteq> v_lost_found V" and p: "p \<in> live V" and room: "vroom E (name # ns) V"
  shows "\<exists>V'. rewrite_entry E i p name lossy is_dir V = Some V' \<and> vol_ok E V' \<and> vroom E ns V' \<and> v_dirty V' = v_dirty V + 1 \<and>
    rewritten i ((entry_at V i)\<lparr>e_name := name, e_parent := p, e_flags := rewritten_flags (vflags V i) lossy is_dir\<rparr>) V V'"
proof -
  obtain V' where "rewrite_entry E i p name lossy is_dir V = Some V'" "core E V' {} {} {} {}" "vroom E ns V'" "v_dirty V' = v_dirty V + 1"
      "rewritten i ((entry_at V i)\<lparr>e_name := name, e_parent := p, e_flags := rewritten_flags (vflags V i) lossy is_dir\<rparr>) V V'"
    using rewrite_entry_core[OF vol_okD(1)[OF ok] i p room, of lossy is_dir] by blast
  then show ?thesis using rewritten_ok[OF ok] i(1) by blast
qed

text \<open>A new entry put into the scope index.\<close>

lemma insert_entry_core:
  assumes core: "core E V {} {} {} {}" and room: "vroom E (name # ns) V" and fl: "\<not> contains fl TOMBSTONE" and p: "p = NIL \<or> p \<in> live V"
  shows "\<exists>i W d. new_entry E f p name fl sz mt V = Some (i, W) \<and> core E W {} {} {} {i} \<and>
    dir_index_insert E i W = Some (W\<lparr>v_dir_children := d\<rparr>) \<and> core E (W\<lparr>v_dir_children := d\<rparr>) {} {} {} {} \<and> vroom E ns W \<and>
    added i \<lparr>e_frn = f, e_parent = p, e_name = name, e_flags = fl, e_size = sz, e_mtime = mt\<rparr> V W"
proof -
  obtain i W where W: "new_entry E f p name fl sz mt V = Some (i, W)" "core E W {} {} {} {i}" "vroom E ns W"
      "added i \<lparr>e_frn = f, e_parent = p, e_name = name, e_flags = fl, e_size = sz, e_mtime = mt\<rparr> V W"
    using new_entry_core[OF core room fl p, of f sz mt] by blast
  have "i \<in> live W" using added_live[OF W(4)] by simp
  then obtain d where d: "dir_index_insert E i W = Some (W\<lparr>v_dir_children := d\<rparr>)" "core E (W\<lparr>v_dir_children := d\<rparr>) {} {} {} {}"
    using dir_index_insert_core[OF W(2), of i] by auto
  then show ?thesis using W by blast
qed

lemma dir_index_insert_by_frn:
  "dir_index_insert E i (V\<lparr>v_by_frn := m\<rparr>) = map_option (\<lambda>V. V\<lparr>v_by_frn := m\<rparr>) (dir_index_insert E i V)"
  by (cases "t_flags (v_entries V) i"; cases "dir_key E V i")
    (auto simp: dir_index_insert_def dir_key_def folded_name_def Let_def split: option.splits if_splits)

lemma first_link_ok:
  assumes ok: "vol_ok E V" and none: "frn_get (v_by_frn V) (record_number f) = None" and room: "vroom E (name # ns) V"
    and fl: "\<not> contains fl TOMBSTONE" and p: "p \<in> live V"
  shows "\<exists>i W V'. new_entry E f p name fl sz mt V = Some (i, W) \<and>
    dir_index_insert E i (W\<lparr>v_by_frn := frn_set (record_number f) i (v_by_frn W)\<rparr>) = Some V' \<and>
    vol_ok E (bump_dirty V') \<and> vroom E ns (bump_dirty V') \<and> live (bump_dirty V') = insert i (live V) \<and> i \<notin> live V \<and>
    v_lost_found V' = v_lost_found V \<and> v_root V' = v_root V \<and> v_generation V' = v_generation V \<and>
    ents (bump_dirty V') = (ents V)(i \<mapsto> \<lparr>e_frn = f, e_parent = p, e_name = name, e_flags = fl, e_size = sz, e_mtime = mt\<rparr>)"
proof -
  let ?e = "\<lparr>e_frn = f, e_parent = p, e_name = name, e_flags = fl, e_size = sz, e_mtime = mt\<rparr>"
  obtain i W d where W: "new_entry E f p name fl sz mt V = Some (i, W)" "core E W {} {} {} {i}"
      "dir_index_insert E i W = Some (W\<lparr>v_dir_children := d\<rparr>)" "core E (W\<lparr>v_dir_children := d\<rparr>) {} {} {} {}" "vroom E ns W"
      "added i ?e V W"
    using insert_entry_core[OF vol_okD(1)[OF ok] room fl, of p f sz mt] p by blast
  define V' where "V' = W\<lparr>v_dir_children := d, v_by_frn := frn_set (record_number f) i (v_by_frn W)\<rparr>"
  note L = added_first_link[OF ok none W(6,2)]
  have "links_ok (bump_dirty V') {}" by (rule links_ok_cong[OF L(1)]) (simp_all add: V'_def)
  moreover have "core E (bump_dirty V') {} {} {} {}" by (rule core_cong[OF W(4)]) (simp_all add: V'_def)
  moreover have "suspects_ok (bump_dirty V')" using L(2) by (simp add: suspects_ok_def V'_def)
  moreover have "vroom E ns (bump_dirty V')" using W(5) by (simp add: vroom_def V'_def)
  moreover have "dir_index_insert E i (W\<lparr>v_by_frn := frn_set (record_number f) i (v_by_frn W)\<rparr>) = Some V'"
    using W(3) by (simp add: dir_index_insert_by_frn V'_def)
  moreover have "ents (bump_dirty V') = (ents V)(i \<mapsto> ?e)" "i \<notin> live V"
    using W(6) ents_cong[of "bump_dirty V'" W] by (simp_all add: added_def V'_def)
  moreover have "live (bump_dirty V') = insert i (live V)" using added_live[OF W(6)] by (simp add: V'_def)
  moreover have "v_lost_found V' = v_lost_found V" "v_root V' = v_root V" "v_generation V' = v_generation V"
    using W(6) by (simp_all add: added_def same_meta_def V'_def)
  ultimately show ?thesis using W(1) unfolding vol_ok_def by blast
qed

section \<open>The upsert\<close>

lemma links_of_ents: "links_of V f = {i. i \<noteq> v_lost_found V \<and> map_option e_frn (ents V i) = Some f}"
  by (auto simp: links_of_def ents_def)

lemma upsert_existing:
  assumes ok: "vol_ok E V" and h: "frn_get (v_by_frn V) (record_number f) = Some h" and one: "rec_set V (record_number f) = {h}"
    and f: "frn_at V h = f" and p: "p \<in> live V" "parent_is V f pf p" and room: "vroom E (name # ns) V"
  shows "\<exists>V'. rewrite_entry E h p name lossy is_dir V = Some V' \<and> vol_ok E V' \<and> vroom E ns V' \<and>
    links_of V' f = {h} \<and> (\<forall>j. j \<noteq> h \<longrightarrow> ents V' j = ents V j) \<and> v_lost_found V' = v_lost_found V \<and> v_root V' = v_root V \<and>
    v_generation V' = v_generation V \<and> live V' = live V \<and> parent_is V' f pf p \<and>
    ents V' h = Some ((entry_at V h)\<lparr>e_name := name, e_parent := p, e_flags := rewritten_flags (vflags V h) lossy is_dir\<rparr>)"
proof -
  note H = head_live[OF ok h]
  obtain V' where V': "rewrite_entry E h p name lossy is_dir V = Some V'" "vol_ok E V'" "vroom E ns V'"
      "rewritten h ((entry_at V h)\<lparr>e_name := name, e_parent := p, e_flags := rewritten_flags (vflags V h) lossy is_dir\<rparr>) V V'"
    using rewrite_entry_ok[OF ok H(2,5) p(1) room, of lossy is_dir] by blast
  have lf: "links_of V f = {h}" using f one links_of_sub[of V f] H(2,5) by (auto simp: links_of_def)
  have "frn_at V' = frn_at V" using V'(4) by (simp add: rewritten_def)
  then have "parent_is V' f pf p" using p rewritten_live[OF V'(4) H(2)] V'(4) by (auto simp: parent_is_def rewritten_def)
  then show ?thesis
    using V' lf rewritten_rec_set[OF V'(4) H(2)] rewritten_live[OF V'(4) H(2)]
    by (intro exI[of _ V']) (auto simp: rewritten_def)
qed

lemma keeps_change:
  assumes "keeps S V V2" "\<And>j. j \<in> live V - S - X \<Longrightarrow> ents V' j = ents V2 j"
    "v_lost_found V' = v_lost_found V2" "v_root V' = v_root V2" "v_generation V' = v_generation V2"
    and X: "X \<inter> (live V - S) \<subseteq> Y"
  shows "\<forall>j \<in> live V - S - Y. ents V' j = ents_drop (v_lost_found V) S (ents V) j"
  using assms by (auto simp: keeps_def)

lemma rewritten_flags_contains:
  "contains (rewritten_flags fl lossy is_dir) DIR = is_dir" "contains (rewritten_flags fl lossy is_dir) PLACEHOLDER = False"
  "contains (rewritten_flags fl lossy is_dir) NON_UNICODE_NAME = lossy"
  by (simp_all add: rewritten_flags_def contains_bits with_flag_bits)

lemma fresh_flags_contains:
  "contains (with_flag (with_flag EMPTY DIR is_dir) NON_UNICODE_NAME lossy) DIR = is_dir"
  "contains (with_flag (with_flag EMPTY DIR is_dir) NON_UNICODE_NAME lossy) PLACEHOLDER = False"
  "contains (with_flag (with_flag EMPTY DIR is_dir) NON_UNICODE_NAME lossy) NON_UNICODE_NAME = lossy"
  "contains (with_flag (with_flag EMPTY DIR is_dir) NON_UNICODE_NAME lossy) TOMBSTONE = False"
  by (simp_all add: contains_bits with_flag_bits EMPTY_def)

lemma keeps_field:
  assumes "keeps S V V'" "j \<in> live V - S"
  obtains e where "ents V' j = Some e" "e_frn e = frn_at V j" "e_size e = et_size (v_entries V) ! j" "e_mtime e = et_mtime (v_entries V) ! j"
    "j \<in> live V'" "frn_at V' j = frn_at V j" "et_size (v_entries V') ! j = et_size (v_entries V) ! j" "et_mtime (v_entries V') ! j = et_mtime (v_entries V) ! j"
proof -
  define e where "e = (if par V j \<in> S then (entry_at V j)\<lparr>e_parent := v_lost_found V\<rparr> else entry_at V j)"
  have e: "ents V' j = Some e" using assms by (simp add: keeps_def ents_drop_def ents_def e_def)
  then have j: "j \<in> live V'" by (auto simp: ents_def split: if_splits)
  then have "entry_at V' j = e" using e by (simp add: ents_def)
  then have "frn_at V' j = e_frn e" "et_size (v_entries V') ! j = e_size e" "et_mtime (v_entries V') ! j = e_mtime e"
    by (metis entry_at_fields(1), metis entry_at_fields(5), metis entry_at_fields(6))
  then show ?thesis using that e j by (simp add: e_def)
qed

definition upsert_stale :: "volume \<Rightarrow> frn \<Rightarrow> frn \<Rightarrow> entry_idx set" where
  "upsert_stale V f pf = stale_set V f \<union> parent_stale V f pf"

lemma upsert_prepare:
  assumes ok: "vol_ok E V" and room: "vroom E (PLACEHOLDER_NAME # ns) V"
  shows "\<exists>V1 p V2. clear_stale E f V = Some V1 \<and> resolve_link_parent E f pf V1 = Some (p, V2) \<and> vol_ok E V2 \<and> vroom E ns V2 \<and>
    p \<in> live V2 \<and> parent_is V2 f pf p \<and> keeps (upsert_stale V f pf) V V2 \<and>
    (case frn_get (v_by_frn V2) (record_number f) of
       None \<Rightarrow> links_of V f = {}
     | Some h \<Rightarrow> if links_of V f = {}
         then rec_set V2 (record_number f) = {h} \<and> h \<notin> live V - upsert_stale V f pf \<and> ents V2 h = Some (placeholder_of V f)
         else rec_set V2 (record_number f) = links_of V f)"
proof -
  obtain V1 where V1: "clear_stale E f V = Some V1" "vol_ok E V1" "dropped (stale_set V f) V V1" "rec_set V1 (record_number f) = links_of V f"
    using clear_stale_ok[OF ok] by blast
  have room1: "vroom E (PLACEHOLDER_NAME # ns) V1" using room dropped_vroom[OF V1(3)] by simp
  have l1: "links_of V1 f = links_of V f"
  proof -
    have "frn_at V1 i = f" if i: "i \<in> links_of V f" for i
    proof -
      have "stale_set V f = {}" using i by (auto simp: stale_set_def)
      then show ?thesis using dropped_frn[OF V1(3), of i] i by (simp add: links_of_def)
    qed
    then show ?thesis using V1(4) links_of_sub[of V1 f] by (auto simp: links_of_def rec_set_def)
  qed
  have cur: "rec_set V1 (record_number f) = links_of V1 f" using l1 V1(4) by simp
  obtain p V2 where V2: "resolve_link_parent E f pf V1 = Some (p, V2)" "vol_ok E V2" "vroom E ns V2" "p \<in> live V2" "parent_is V2 f pf p"
      "keeps (parent_stale V1 f pf) V1 V2"
    and alt: "if pf = f \<and> links_of V1 f = {}
     then frn_get (v_by_frn V2) (record_number f) = Some p \<and> rec_set V2 (record_number f) = {p} \<and>
       p \<notin> live V1 \<and> ents V2 p = Some (placeholder_of V1 f)
     else frn_get (v_by_frn V2) (record_number f) = frn_get (v_by_frn V1) (record_number f) \<and>
       rec_set V2 (record_number f) = rec_set V1 (record_number f) \<and>
       (\<forall>j \<in> rec_set V1 (record_number f). et_next_link (v_entries V2) ! j = et_next_link (v_entries V1) ! j)"
    using resolve_link_parent_ok[OF V1(2) room1 cur, of pf] by blast
  have lf: "v_lost_found V1 = v_lost_found V" using V1(3) by (simp add: dropped_def)
  have lfS: "v_lost_found V \<notin> parent_stale V1 f pf" using stale_lost_found[of V1 pf] lf by (auto simp: parent_stale_def)
  have k2: "keeps (upsert_stale V f pf) V V2"
    using keeps_trans[OF V1(3) V2(6) lfS] parent_stale_dropped[OF V1(3)] by (simp add: upsert_stale_def)
  have "case frn_get (v_by_frn V2) (record_number f) of
       None \<Rightarrow> links_of V f = {}
     | Some h \<Rightarrow> if links_of V f = {}
         then rec_set V2 (record_number f) = {h} \<and> h \<notin> live V - upsert_stale V f pf \<and> ents V2 h = Some (placeholder_of V f)
         else rec_set V2 (record_number f) = links_of V f"
  proof (cases "pf = f \<and> links_of V1 f = {}")
    case True
    then have "p \<notin> live V - upsert_stale V f pf" using alt dropped_live[OF V1(3)] by (auto simp: upsert_stale_def parent_stale_def)
    then show ?thesis using True alt l1 lf by (simp add: placeholder_of_def)
  next
    case False
    then have e: "frn_get (v_by_frn V2) (record_number f) = frn_get (v_by_frn V1) (record_number f)"
        "rec_set V2 (record_number f) = links_of V f" using alt V1(4) by auto
    show ?thesis
    proof (cases "frn_get (v_by_frn V2) (record_number f)")
      case None
      then show ?thesis using links_of_none[OF V2(2) None] e(2) by simp
    next
      case (Some h)
      then show ?thesis using head_live(1)[OF V2(2) Some] e(2) by auto
    qed
  qed
  then show ?thesis using V1(1) V2(1-5) k2 by blast
qed

lemma upsert_link_ok:
  assumes ok: "vol_ok E V" and room: "vroom E (PLACEHOLDER_NAME # name # ns) V"
  shows "\<exists>r V'. upsert_link E f pf name lossy is_dir V = Some (r, V') \<and> vol_ok E V' \<and> vroom E ns V' \<and>
    (r = NeedsReconcile \<longleftrightarrow> 2 \<le> card (links_of V f)) \<and>
    (r = UpsertOk \<longrightarrow> (\<exists>i. upserted f pf name lossy is_dir V V' i)) \<and>
    v_lost_found V' = v_lost_found V \<and> v_root V' = v_root V \<and> v_generation V' = v_generation V \<and>
    (\<forall>j \<in> live V - upsert_stale V f pf - (if r = UpsertOk then links_of V f else {}).
      ents V' j = ents_drop (v_lost_found V) (upsert_stale V f pf) (ents V) j)"
proof -
  let ?S = "upsert_stale V f pf"
  obtain V1 p V2 where V2: "clear_stale E f V = Some V1" "resolve_link_parent E f pf V1 = Some (p, V2)" "vol_ok E V2" "vroom E (name # ns) V2"
      "p \<in> live V2" "parent_is V2 f pf p" "keeps ?S V V2"
    and alt: "case frn_get (v_by_frn V2) (record_number f) of
       None \<Rightarrow> links_of V f = {}
     | Some h \<Rightarrow> if links_of V f = {}
         then rec_set V2 (record_number f) = {h} \<and> h \<notin> live V - ?S \<and> ents V2 h = Some (placeholder_of V f)
         else rec_set V2 (record_number f) = links_of V f"
    using upsert_prepare[OF ok room] by blast
  have K: "v_lost_found V2 = v_lost_found V" "v_root V2 = v_root V" "v_generation V2 = v_generation V"
      "\<And>j. j \<in> live V - ?S \<Longrightarrow> ents V2 j = ents_drop (v_lost_found V) ?S (ents V) j"
    using V2(7) by (simp_all add: keeps_def)
  have sub: "links_of V f \<subseteq> live V - ?S"
    by (auto simp: upsert_stale_def stale_set_def parent_stale_def links_of_def rec_set_def split: if_splits)
  show ?thesis
  proof (cases "frn_get (v_by_frn V2) (record_number f)")
    case None
    have none: "links_of V f = {}" using alt None by simp
    obtain i W V' where V': "new_entry E f p name (with_flag (with_flag EMPTY DIR is_dir) NON_UNICODE_NAME lossy) SIZE_UNKNOWN MTIME_UNKNOWN V2 = Some (i, W)"
        "dir_index_insert E i (W\<lparr>v_by_frn := frn_set (record_number f) i (v_by_frn W)\<rparr>) = Some V'"
        "vol_ok E (bump_dirty V')" "vroom E ns (bump_dirty V')" "live (bump_dirty V') = insert i (live V2)" "i \<notin> live V2"
        "v_lost_found V' = v_lost_found V2" "v_root V' = v_root V2" "v_generation V' = v_generation V2"
        "ents (bump_dirty V') = (ents V2)(i \<mapsto> \<lparr>e_frn = f, e_parent = p, e_name = name,
          e_flags = with_flag (with_flag EMPTY DIR is_dir) NON_UNICODE_NAME lossy, e_size = SIZE_UNKNOWN, e_mtime = MTIME_UNKNOWN\<rparr>)"
      using first_link_ok[OF V2(3) None V2(4) _ V2(5), of "with_flag (with_flag EMPTY DIR is_dir) NON_UNICODE_NAME lossy" SIZE_UNKNOWN MTIME_UNKNOWN]
      unfolding fresh_flags_contains by blast
    have lfi: "i \<noteq> v_lost_found V2" using V'(6) coreD(10)[OF vol_okD(1)[OF V2(3)]] by auto
    have n2: "links_of V2 f = {}" using links_of_none[OF V2(3) None] by simp
    have "upserted f pf name lossy is_dir V (bump_dirty V') i"
    proof -
      have "links_of (bump_dirty V') f = {i}"
        using n2 lfi V'(7,10) unfolding links_of_ents by (auto split: if_splits)
      moreover have "parent_is (bump_dirty V') f pf p"
      proof -
        have "frn_at (bump_dirty V') p = frn_at V2 p"
        proof -
          have "p \<noteq> i" using V2(5) V'(6) by auto
          then have "ents (bump_dirty V') p = ents V2 p" using V'(10) by simp
          then show ?thesis using V2(5) V'(5) by (simp add: ents_def) (metis entry_at_fields(1) bump_dirty_fields(1))
        qed
        then show ?thesis using V2(5,6) V'(5,7) by (auto simp: parent_is_def)
      qed
      ultimately show ?thesis using V'(10) none by (simp add: upserted_def fresh_flags_contains)
    qed
    moreover have "upsert_link E f pf name lossy is_dir V = Some (UpsertOk, bump_dirty V')"
      using V2(1,2) None V'(1,2) by (simp add: upsert_link_steps)
    moreover have "ents (bump_dirty V') j = ents_drop (v_lost_found V) ?S (ents V) j" if j: "j \<in> live V - ?S" for j
    proof -
      have "j \<in> live V2" using keeps_field[OF V2(7) j] by metis
      then have "j \<noteq> i" using V'(6) by auto
      then show ?thesis using K(4)[OF j] V'(10) by simp
    qed
    ultimately show ?thesis using V'(3,4,7-9) K none by (intro exI[of _ UpsertOk] exI[of _ "bump_dirty V'"]) auto
  next
    case (Some h)
    note N = next_link_chain[OF V2(3) Some] and H = head_live[OF V2(3) Some]
    have alt': "if links_of V f = {}
         then rec_set V2 (record_number f) = {h} \<and> h \<notin> live V - ?S \<and> ents V2 h = Some (placeholder_of V f)
         else rec_set V2 (record_number f) = links_of V f" using alt Some by simp
    show ?thesis
    proof (cases "et_next_link (v_entries V2) ! h = NIL")
      case False
      then have "2 \<le> card (rec_set V2 (record_number f))" using N(4) by blast
      then have "2 \<le> card (links_of V f)" using alt' by (auto split: if_splits)
      moreover have "upsert_link E f pf name lossy is_dir V = Some (NeedsReconcile, V2)"
        using V2(1,2) Some N(1) False by (simp add: upsert_link_steps)
      ultimately show ?thesis using V2(3) vroom_tl[OF V2(4)] K by (intro exI[of _ NeedsReconcile] exI[of _ V2]) simp
    next
      case True
      then have one: "rec_set V2 (record_number f) = {h}" using N(2) by blast
      then have few: "\<not> 2 \<le> card (links_of V f)" using alt' by (auto split: if_splits)
      have old: "links_of V f = {h} \<and> h \<in> live V - ?S" if "links_of V f \<noteq> {}" using that alt' one sub by auto
      have fh: "frn_at V2 h = f"
      proof (cases "links_of V f = {}")
        case True
        then have "ents V2 h = Some (placeholder_of V f)" using alt' by simp
        then show ?thesis using ents_frn[OF H(2)] by (simp add: placeholder_of_def)
      next
        case False
        then have "frn_at V2 h = frn_at V h" using old keeps_field[OF V2(7), of h] by metis
        then show ?thesis using old[OF False] by (auto simp: links_of_def)
      qed
      obtain V' where V': "rewrite_entry E h p name lossy is_dir V2 = Some V'" "vol_ok E V'" "vroom E ns V'" "links_of V' f = {h}"
          "\<And>j. j \<noteq> h \<Longrightarrow> ents V' j = ents V2 j" "v_lost_found V' = v_lost_found V2" "v_root V' = v_root V2"
          "v_generation V' = v_generation V2" "parent_is V' f pf p"
          "ents V' h = Some ((entry_at V2 h)\<lparr>e_name := name, e_parent := p, e_flags := rewritten_flags (vflags V2 h) lossy is_dir\<rparr>)"
        using upsert_existing[OF V2(3) Some one fh V2(5,6,4), of lossy is_dir] by blast
      have "upserted f pf name lossy is_dir V V' h"
      proof -
        have "if links_of V f = {} then et_size (v_entries V2) ! h = SIZE_UNKNOWN \<and> et_mtime (v_entries V2) ! h = MTIME_UNKNOWN
          else et_size (v_entries V2) ! h = et_size (v_entries V) ! h \<and> et_mtime (v_entries V2) ! h = et_mtime (v_entries V) ! h"
        proof (cases "links_of V f = {}")
          case True
          then have "entry_at V2 h = placeholder_of V f" using alt' H(2) by (simp add: ents_def)
          then have "e_size (entry_at V2 h) = SIZE_UNKNOWN" "e_mtime (entry_at V2 h) = MTIME_UNKNOWN"
            by (simp_all add: placeholder_of_def del: entry_at_fields)
          then show ?thesis using True by simp
        next
          case False
          then show ?thesis using old keeps_field[OF V2(7), of h] by (simp add: False) metis
        qed
        then show ?thesis using V'(4,9,10) old by (auto simp: upserted_def rewritten_flags_contains)
      qed
      moreover have "upsert_link E f pf name lossy is_dir V = Some (UpsertOk, V')"
        using V2(1,2) Some N(1) True V'(1) by (simp add: upsert_link_steps)
      moreover have "ents V' j = ents_drop (v_lost_found V) ?S (ents V) j" if j: "j \<in> live V - ?S - links_of V f" for j
      proof -
        have "j \<noteq> h" using j old alt' by (auto split: if_splits)
        then show ?thesis using V'(5) K(4) j by simp
      qed
      ultimately show ?thesis using V'(2,3,6-8) K few by (intro exI[of _ UpsertOk] exI[of _ V']) auto
    qed
  qed
qed

end
