(* ===== verification/Volume_Chain.thy ===== *)
theory Volume_Chain
  imports Volume_Upsert
begin

text \<open>
  Operations on the whole chain of links of a file: writing size and time, adding a hard link,
  and replacing the links by the ones NTFS reports.
\<close>

section \<open>Size and time\<close>

definition t_stat :: "u64 option \<Rightarrow> i64 option \<Rightarrow> entry_idx \<Rightarrow> entry_table \<Rightarrow> entry_table" where
  "t_stat sz mt i t = t\<lparr>et_size := (case sz of Some s \<Rightarrow> (et_size t)[i := s] | None \<Rightarrow> et_size t),
    et_mtime := (case mt of Some m \<Rightarrow> (et_mtime t)[i := m] | None \<Rightarrow> et_mtime t)\<rparr>"

lemma t_stat_fields [simp]:
  "et_frn (t_stat sz mt i t) = et_frn t" "et_parent (t_stat sz mt i t) = et_parent t" "et_name_id (t_stat sz mt i t) = et_name_id t"
  "et_flags (t_stat sz mt i t) = et_flags t" "et_next_link (t_stat sz mt i t) = et_next_link t"
  "et_next_same (t_stat sz mt i t) = et_next_same t" "et_prev_same (t_stat sz mt i t) = et_prev_same t"
  "et_first_child (t_stat sz mt i t) = et_first_child t" "et_next_child (t_stat sz mt i t) = et_next_child t"
  "et_prev_child (t_stat sz mt i t) = et_prev_child t" "et_free (t_stat sz mt i t) = et_free t" "et_live (t_stat sz mt i t) = et_live t"
  by (simp_all add: t_stat_def)

definition stat_entry :: "u64 option \<Rightarrow> i64 option \<Rightarrow> entry \<Rightarrow> entry" where
  "stat_entry sz mt e = e\<lparr>e_size := (case sz of Some s \<Rightarrow> s | None \<Rightarrow> e_size e), e_mtime := (case mt of Some m \<Rightarrow> m | None \<Rightarrow> e_mtime e)\<rparr>"

lemma stat_core:
  assumes core: "core E V Xs Xr Xc Xd"
  shows "core E (V\<lparr>v_entries := t_stat sz mt i (v_entries V)\<rparr>) Xs Xr Xc Xd"
proof -
  note D = coreD[OF core]
  let ?V = "V\<lparr>v_entries := t_stat sz mt i (v_entries V)\<rparr>"
  have "cols_ok (t_stat sz mt i (v_entries V))"
    using D(2) by (cases sz; cases mt) (simp_all add: cols_ok_def t_stat_def Let_def)
  then have "table_ok (v_entries ?V)" using table_ok_cong[OF D(1)] by simp
  moreover have "dirs ?V = dirs V" "kids ?V = kids V" "dkey E ?V = dkey E V"
    by (simp_all add: dirs_def dirent_def kids_def dkey_def fun_eq_iff)
  ultimately show ?thesis using core unfolding core_def same_ok_def refs_ok_def child_ok_def dir_ok_def by simp
qed

definition statted :: "u64 option \<Rightarrow> i64 option \<Rightarrow> entry_idx set \<Rightarrow> volume \<Rightarrow> volume \<Rightarrow> bool" where
  "statted sz mt S V V' \<longleftrightarrow>
    (\<exists>t. V' = V\<lparr>v_entries := t\<rparr> \<and> et_frn t = et_frn (v_entries V) \<and> et_flags t = et_flags (v_entries V) \<and>
      et_next_link t = et_next_link (v_entries V)) \<and>
    ents V' = (\<lambda>j. if j \<in> S then map_option (stat_entry sz mt) (ents V j) else ents V j)"

lemma stat_loop_core:
  assumes "core E V {} {} {} {}" "lseg (et_next_link (v_entries V)) cur xs" "distinct xs" "set xs \<subseteq> live V"
  shows "\<exists>V'. stat_loop sz mt cur V = Some V' \<and> core E V' {} {} {} {} \<and> statted sz mt (set xs) V V'"
  using assms
proof (induction xs arbitrary: V cur)
  case Nil
  then show ?case by (subst stat_loop.simps) (auto simp: statted_def intro: exI[of _ "v_entries V"])
next
  case (Cons x xs)
  note D = coreD[OF Cons.prems(1)]
  have x: "cur = x" "x \<noteq> NIL" "x \<in> live V" "x < slots V" using Cons.prems D(12) by auto
  define V1 where "V1 = V\<lparr>v_entries := t_stat sz mt x (v_entries V)\<rparr>"
  have c1: "core E V1 {} {} {} {}" using stat_core[OF Cons.prems(1)] by (simp add: V1_def)
  obtain V' where V': "stat_loop sz mt (et_next_link (v_entries V) ! x) V1 = Some V'" "core E V' {} {} {} {}" "statted sz mt (set xs) V1 V'"
    using Cons.IH[OF c1, of "et_next_link (v_entries V) ! x"] Cons.prems by (auto simp: V1_def)
  have "stat_loop sz mt cur V = stat_loop sz mt (et_next_link (v_entries V) ! x) V1"
    using x cols_lengths(5,6,7)[OF D(2)]
    by (subst stat_loop.simps) (simp add: V1_def t_stat_def on_entries_def t_set_size_def t_set_mtime_def t_next_link_def split: option.splits)
  moreover have "statted sz mt (set (x # xs)) V V'"
  proof -
    have at: "entry_at V1 j = (if j = x then stat_entry sz mt (entry_at V j) else entry_at V j)" for j
      using x(4) cols_lengths(5,6)[OF D(2)]
      by (cases sz; cases mt) (simp_all add: V1_def entry_at_def t_stat_def stat_entry_def)
    have "ents V1 = (\<lambda>j. if j = x then map_option (stat_entry sz mt) (ents V j) else ents V j)"
      using at by (auto simp: ents_def fun_eq_iff V1_def)
    then show ?thesis using V'(3) Cons.prems(3) by (auto simp: statted_def fun_eq_iff V1_def)
  qed
  ultimately show ?case using V' by auto
qed

lemma statted_ok:
  assumes ok: "vol_ok E V" and core: "core E V' {} {} {} {}" and st: "statted sz mt S V V'"
  shows "vol_ok E V'"
proof -
  note D = vol_okD[OF ok]
  obtain t where V': "V' = V\<lparr>v_entries := t\<rparr>" and t: "et_frn t = et_frn (v_entries V)" "et_flags t = et_flags (v_entries V)"
      "et_next_link t = et_next_link (v_entries V)" using st by (auto simp: statted_def)
  have "links_ok V' {}"
    by (rule links_ok_frame[OF D(2)])
      (use core_next_link[OF D(1)] D(2) t in \<open>simp_all add: V' rec_set_def links_ok_def\<close>)
  moreover have "suspects_ok V'" using D(3) t by (simp add: V' suspects_ok_def)
  ultimately show ?thesis using core by (simp add: vol_ok_def)
qed

text \<open>Writing the size and time of every link of a file.\<close>

lemma stat_links_ok:
  assumes ok: "vol_ok E V" and h: "frn_get (v_by_frn V) r = Some h"
  shows "\<exists>V'. stat_loop sz mt h V = Some V' \<and> vol_ok E V' \<and> statted sz mt (rec_set V r) V V'"
proof -
  note D = vol_okD[OF ok]
  obtain xs where "link_chain V r h xs" using links_okD(2)[OF D(2) _ h] by auto
  then have xs: "lseg (et_next_link (v_entries V)) h xs" "distinct xs" "set xs = rec_set V r" by (simp_all add: link_chain_def)
  have "set xs \<subseteq> live V" using xs(3) by (auto simp: rec_set_def)
  then obtain V' where "stat_loop sz mt h V = Some V'" "core E V' {} {} {} {}" "statted sz mt (set xs) V V'"
    using stat_loop_core[OF D(1) xs(1,2)] by blast
  then show ?thesis using statted_ok[OF ok] xs(3) by metis
qed

lemma head_of_links:
  assumes "vol_ok E V"
  obtains (none) "head_of V f = Some None" "links_of V f = {}"
  | (head) h where "head_of V f = Some (Some h)" "frn_get (v_by_frn V) (record_number f) = Some h" "frn_at V h = f"
      "links_of V f = rec_set V (record_number f)" "h \<in> links_of V f"
proof (cases "frn_get (v_by_frn V) (record_number f)")
  case None
  then show ?thesis using none head_of_total[OF assms, of f] links_of_none[OF assms None] by simp
next
  case (Some h)
  then show ?thesis
    using none head[of h] head_of_total[OF assms, of f] links_of_rec_set[OF assms Some] head_live(1)[OF assms Some] by (cases "frn_at V h = f") auto
qed

lemma set_stat_ok:
  assumes ok: "vol_ok E V"
  shows "\<exists>V'. set_stat f sz mt V = Some V' \<and> vol_ok E V' \<and>
    (\<exists>b. statted (if b then None else Some sz) (Some mt) (links_of V f) V V' \<and>
      (links_of V f \<noteq> {} \<longrightarrow> (\<exists>i \<in> links_of V f. b = contains (vflags V i) DIR)))"
proof (cases rule: head_of_links[OF ok, of f])
  case 1
  then show ?thesis using ok by (simp add: set_stat_def statted_def) (auto intro: exI[of _ "v_entries V"])
next
  case (2 h)
  have "t_flags (v_entries V) h = Some (vflags V h)"
    using coreD(12)[OF vol_okD(1)[OF ok]] 2(5) by (simp add: t_flags_def links_of_def)
  then have step: "set_stat f sz mt V = stat_loop (if contains (vflags V h) DIR then None else Some sz) (Some mt) h V"
    using 2 by (simp add: set_stat_def)
  obtain V' where "stat_loop (if contains (vflags V h) DIR then None else Some sz) (Some mt) h V = Some V'" "vol_ok E V'"
      "statted (if contains (vflags V h) DIR then None else Some sz) (Some mt) (links_of V f) V V'"
    using stat_links_ok[OF ok 2(2), of "if contains (vflags V h) DIR then None else Some sz" "Some mt", folded 2(4)] by blast
  then show ?thesis using step 2(5) by (intro exI[of _ V'] conjI exI[of _ "contains (vflags V h) DIR"]) auto
qed

section \<open>Adding a hard link\<close>

lemma lseg_tail: "lseg (et_next_link t) cur xs \<Longrightarrow> xs \<noteq> [] \<Longrightarrow> chain_tail t cur = Some (last xs)"
proof (induction xs arbitrary: cur)
  case (Cons x xs)
  have "chain_tail t cur = (if et_next_link t ! x = NIL then Some x else chain_tail t (et_next_link t ! x))"
    using Cons.prems by (subst chain_tail.simps) (simp add: t_next_link_def)
  then show ?case using Cons by (cases xs) auto
qed simp

lemma lseg_snoc:
  assumes "lseg nx h xs" "xs \<noteq> []" "distinct xs" "i \<notin> set xs" "i \<noteq> NIL" "i < length nx" "nx ! i = NIL"
  shows "lseg (nx[last xs := i]) h (xs @ [i])"
  using assms
proof (induction xs arbitrary: h)
  case (Cons x xs)
  show ?case
  proof (cases xs)
    case Nil
    then show ?thesis using Cons.prems by (auto simp: nth_list_update)
  next
    case (Cons y ys)
    then have "lseg (nx[last xs := i]) (nx ! x) (xs @ [i])" "x \<noteq> last xs" using Cons.IH Cons.prems by auto
    then show ?thesis using Cons.prems Cons by simp
  qed
qed simp

lemma next_link_core:
  assumes core: "core E V Xs Xr Xc Xd" and nl: "length nl = slots V"
  shows "core E (V\<lparr>v_entries := (v_entries V)\<lparr>et_next_link := nl\<rparr>\<rparr>) Xs Xr Xc Xd"
proof -
  note D = coreD[OF core]
  let ?V = "V\<lparr>v_entries := (v_entries V)\<lparr>et_next_link := nl\<rparr>\<rparr>"
  have "cols_ok (v_entries ?V)" using D(2) nl by (simp add: cols_ok_def Let_def)
  then have "table_ok (v_entries ?V)" using table_ok_cong[OF D(1)] by simp
  moreover have "dirs ?V = dirs V" "kids ?V = kids V" "dkey E ?V = dkey E V"
    by (simp_all add: dirs_def dirent_def kids_def dkey_def fun_eq_iff)
  ultimately show ?thesis using core unfolding core_def same_ok_def refs_ok_def child_ok_def dir_ok_def by simp
qed

lemma links_ok_close:
  assumes "links_ok V {r}" "frn_get (v_by_frn V) r = Some h" "link_chain V r h xs"
  shows "links_ok V {}"
  unfolding links_ok_def
proof (intro conjI allI impI)
  show "frn_map_ok (v_by_frn V)" using assms(1) by (simp add: links_ok_def)
  fix q
  show "case frn_get (v_by_frn V) q of None \<Rightarrow> rec_set V q = {} | Some h \<Rightarrow> \<exists>xs. link_chain V q h xs"
    using assms links_okD[OF assms(1), of q] by (cases "q = r") (auto split: option.splits)
qed

lemma links_ok_next_link:
  assumes "links_ok V {r}" "length (et_next_link (v_entries V)) = slots V" "x \<in> rec_set V r"
  shows "links_ok (V\<lparr>v_entries := (v_entries V)\<lparr>et_next_link := (et_next_link (v_entries V))[x := y]\<rparr>\<rparr>) {r}"
proof (rule links_ok_frame[OF assms(1)])
  fix q i assume "q \<notin> {r}" "i \<in> rec_set V q"
  then have "i \<noteq> x" using assms(3) by (auto simp: rec_set_def)
  then show "et_next_link (v_entries (V\<lparr>v_entries := (v_entries V)\<lparr>et_next_link := (et_next_link (v_entries V))[x := y]\<rparr>\<rparr>)) ! i =
      et_next_link (v_entries V) ! i \<and>
      frn_at (V\<lparr>v_entries := (v_entries V)\<lparr>et_next_link := (et_next_link (v_entries V))[x := y]\<rparr>\<rparr>) i = frn_at V i" by simp
qed (use assms in \<open>simp_all add: rec_set_def links_ok_def\<close>)

lemma added_at: "added i e V V' \<Longrightarrow> entry_at V' i = e"
proof -
  assume ad: "added i e V V'"
  then have "ents V' i = Some e" by (simp add: added_def)
  then show "entry_at V' i = e" using added_live[OF ad] by (simp add: ents_def)
qed

lemma lseg_mono:
  "lseg nx h xs \<Longrightarrow> length nx \<le> length nx' \<Longrightarrow> (\<And>x. x \<in> set xs \<Longrightarrow> nx' ! x = nx ! x) \<Longrightarrow> lseg nx' h xs"
  by (induction xs arbitrary: h) auto

text \<open>A link added to a file, everything else as it was.\<close>

definition linked :: "frn \<Rightarrow> entry_idx \<Rightarrow> entry \<Rightarrow> volume \<Rightarrow> volume \<Rightarrow> bool" where
  "linked f i e V V' \<longleftrightarrow> e_frn e = f \<and> i \<notin> live V \<and> ents V' = (ents V)(i \<mapsto> e) \<and> v_root V' = v_root V \<and>
    v_lost_found V' = v_lost_found V \<and> v_generation V' = v_generation V \<and>
    rec_set V' (record_number f) = insert i (rec_set V (record_number f)) \<and> links_of V' f = insert i (links_of V f)"

lemma added_linked:
  assumes ad: "added i e V W" and core: "core E V {} {} {} {}" and f: "e_frn e = f"
    and V': "ents V' = ents W" "v_lost_found V' = v_lost_found W" "v_root V' = v_root W" "v_generation V' = v_generation W"
  shows "linked f i e V V'"
proof -
  have lf: "v_lost_found W = v_lost_found V" "v_root W = v_root V" "v_generation W = v_generation V" "i \<notin> live V" "ents W = (ents V)(i \<mapsto> e)"
    using ad by (simp_all add: added_def same_meta_def)
  have rs: "rec_set V' r = rec_set W r" for r using V'(1,2) unfolding rec_set_ents by simp
  have "i \<noteq> v_lost_found V" using lf(4) coreD(10)[OF core] by auto
  then have "links_of V' f = insert i (links_of V f)" using lf V' f unfolding links_of_ents by (auto simp: fun_upd_def)
  then show ?thesis using added_rec_set[OF ad coreD(10)[OF core], of "record_number f"] lf V' f rs by (simp add: linked_def)
qed

lemma add_link_ok:
  assumes ok: "vol_ok E V" and room: "vroom E (name # ns) V" and p: "p \<in> live V" and same: "rec_set V (record_number f) = links_of V f"
  shows "\<exists>i V'. add_link E f p name lossy V = Some V' \<and> vol_ok E V' \<and> vroom E ns V' \<and>
    linked f i \<lparr>e_frn = f, e_parent = p, e_name = name, e_flags = with_flag EMPTY NON_UNICODE_NAME lossy,
      e_size = SIZE_UNKNOWN, e_mtime = MTIME_UNKNOWN\<rparr> V V'"
proof -
  note D = vol_okD[OF ok]
  let ?fl = "with_flag EMPTY NON_UNICODE_NAME lossy" and ?r = "record_number f"
  let ?e = "\<lparr>e_frn = f, e_parent = p, e_name = name, e_flags = ?fl, e_size = SIZE_UNKNOWN, e_mtime = MTIME_UNKNOWN\<rparr>"
  have nf: "\<not> contains ?fl TOMBSTONE" "\<not> contains ?fl DIR" by simp_all
  obtain i W where W: "new_entry E f p name ?fl SIZE_UNKNOWN MTIME_UNKNOWN V = Some (i, W)" "core E W {} {} {} {i}" "vroom E ns W" "added i ?e V W"
    using new_entry_core[OF D(1) room nf(1), of p f SIZE_UNKNOWN MTIME_UNKNOWN] p by blast
  have iW: "i \<in> live W" using added_live[OF W(4)] by simp
  have "entry_at W i = ?e" by (rule added_at[OF W(4)])
  then have "e_flags (entry_at W i) = ?fl" by (simp del: entry_at_fields)
  then have cW: "core E W {} {} {} {}" using core_not_dirent[OF W(2)] nf(2) by (simp add: dirent_def)
  have lf: "v_lost_found W = v_lost_found V" "v_by_frn W = v_by_frn V" "v_cycle_suspects W = v_cycle_suspects V" "i < NIL"
      "et_next_link (v_entries W) ! i = NIL" "i \<notin> live V"
    using W(4) by (simp_all add: added_def same_meta_def)
  show ?thesis
  proof (cases "frn_get (v_by_frn V) ?r")
    case None
    note L = added_first_link[OF ok None W(4,2)]
    define V' where "V' = bump_dirty (W\<lparr>v_by_frn := frn_set ?r i (v_by_frn W)\<rparr>)"
    have "links_ok V' {}" by (rule links_ok_cong[OF L(1)]) (simp_all add: V'_def)
    moreover have "core E V' {} {} {} {}" by (rule core_cong[OF cW]) (simp_all add: V'_def)
    moreover have "suspects_ok V'" using L(2) by (simp add: V'_def suspects_ok_def)
    moreover have "vroom E ns V'" using W(3) by (simp add: V'_def vroom_def)
    moreover have "add_link E f p name lossy V = Some V'" using W(1) None lf(2) by (simp add: add_link_def V'_def Let_def)
    moreover have "linked f i ?e V V'"
      by (rule added_linked[OF W(4) D(1)]) (simp_all add: V'_def ents_cong[of "bump_dirty (W\<lparr>v_by_frn := frn_set ?r i (v_by_frn W)\<rparr>)" W])
    ultimately show ?thesis unfolding vol_ok_def by blast
  next
    case (Some h)
    obtain xs where xs: "link_chain V ?r h xs" using links_okD(2)[OF D(2) _ Some] by auto
    then have x: "lseg (et_next_link (v_entries V)) h xs" "distinct xs" "xs \<noteq> []" "set xs = rec_set V ?r" by (simp_all add: link_chain_def)
    have xl: "set xs \<subseteq> live V" using x(4) by (auto simp: rec_set_def)
    have nl: "length (et_next_link (v_entries V)) = slots V" "length (et_next_link (v_entries W)) = slots W"
      using core_next_link[OF D(1)] core_next_link[OF cW] by simp_all
    have keep: "et_next_link (v_entries W) ! j = et_next_link (v_entries V) ! j" "frn_at W j = frn_at V j" if "j \<in> set xs" for j
      using W(4) xl that added_frn(2)[OF W(4)] by (auto simp: added_def)
    have ls: "lseg (et_next_link (v_entries W)) h xs"
      by (rule lseg_mono[OF x(1)]) (use added_slots[OF W(4)] nl keep in auto)
    have ix: "i \<notin> set xs" using xl lf(6) by auto
    have iW': "i < length (et_next_link (v_entries W))" using coreD(12)[OF cW iW] nl by simp
    define t where "t = (v_entries W)\<lparr>et_next_link := (et_next_link (v_entries W))[last xs := i]\<rparr>"
    define V' where "V' = W\<lparr>v_entries := t\<rparr>"
    have rs: "rec_set V' ?r = insert i (set xs)" "last xs \<in> rec_set W ?r" "last xs < length (et_next_link (v_entries W))"
      using added_rec_set[OF W(4) coreD(10)[OF D(1)], of ?r] x(3,4) last_in_set[OF x(3)] xl nl added_slots[OF W(4)] coreD(12)[OF D(1)]
      by (auto simp: V'_def t_def rec_set_def intro: less_le_trans)
    have "links_ok W {?r}" by (rule added_links[OF links_ok_weaken[OF D(2)] D(1) W(4,2)]) auto
    then have "links_ok V' {?r}" using links_ok_next_link[OF _ nl(2) rs(2)] by (simp add: V'_def t_def)
    moreover have "link_chain V' ?r h (xs @ [i])"
    proof -
      have "\<forall>j \<in> set (xs @ [i]). frn_at V' j = frn_at V' h"
      proof
        fix j assume j: "j \<in> set (xs @ [i])"
        have all: "frn_at W k = f" if "k \<in> insert i (set xs)" for k
          using that keep(2) added_frn(1)[OF W(4)] x(4) same by (auto simp: links_of_def)
        have "h \<in> set xs" using link_chain_head[OF xs] x(4) by blast
        then show "frn_at V' j = frn_at V' h" using all[of j] all[of h] j by (simp add: V'_def t_def)
      qed
      moreover have "lseg (et_next_link (v_entries V')) h (xs @ [i])"
        using lseg_snoc[OF ls x(3,2) ix _ iW' lf(5)] lf(4) by (simp add: V'_def t_def)
      ultimately show ?thesis using rs(1) x(2) ix unfolding link_chain_def by simp
    qed
    ultimately have "links_ok V' {}" using links_ok_close Some lf(2) by (simp add: V'_def)
    then have "links_ok (bump_dirty V') {}" by (rule links_ok_cong) simp_all
    moreover have "core E (bump_dirty V') {} {} {} {}"
      by (rule core_cong[OF next_link_core[OF cW, of "(et_next_link (v_entries W))[last xs := i]"]]) (simp_all add: V'_def t_def nl)
    moreover have "suspects_ok (bump_dirty V')" using D(3) lf(3) added_slots[OF W(4)] by (auto simp: V'_def t_def suspects_ok_def)
    moreover have "vroom E ns (bump_dirty V')" using W(3) by (simp add: V'_def t_def vroom_def)
    moreover have "add_link E f p name lossy V = Some (bump_dirty V')"
      using W(1) Some lf(2) lseg_tail[OF ls x(3)] rs(3) by (simp add: add_link_def Let_def on_entries_def t_set_next_link_def V'_def t_def)
    moreover have "linked f i ?e V (bump_dirty V')"
    proof (rule added_linked[OF W(4) D(1)])
      show "ents (bump_dirty V') = ents W" by (simp add: V'_def t_def ents_def entry_at_def fun_eq_iff)
    qed (simp_all add: V'_def)
    ultimately show ?thesis unfolding vol_ok_def by blast
  qed
qed

section \<open>Replacing the links of a file\<close>

lemma lseg_collect: "lseg (et_next_link t) cur xs \<Longrightarrow> collect_chain t cur = Some xs"
proof (induction xs arbitrary: cur)
  case Nil
  then show ?case by (subst collect_chain.simps) simp
next
  case (Cons x xs)
  then show ?case by (subst collect_chain.simps) (simp add: t_next_link_def)
qed

lemma relink_spec:
  assumes "distinct es" "set es \<subseteq> {..<length (et_next_link (v_entries V))}" "NIL \<notin> set es"
  shows "\<exists>nl. relink es V = Some (V\<lparr>v_entries := (v_entries V)\<lparr>et_next_link := nl\<rparr>\<rparr>) \<and> length nl = length (et_next_link (v_entries V)) \<and>
    (\<forall>j. j \<notin> set es \<longrightarrow> nl ! j = et_next_link (v_entries V) ! j) \<and> lseg nl (case es of [] \<Rightarrow> NIL | e # _ \<Rightarrow> e) es"
  using assms
proof (induction es arbitrary: V)
  case Nil
  then show ?case by (auto intro: exI[of _ "et_next_link (v_entries V)"])
next
  case (Cons e es)
  let ?n = "case es of [] \<Rightarrow> NIL | e' # _ \<Rightarrow> e'"
  define V1 where "V1 = V\<lparr>v_entries := (v_entries V)\<lparr>et_next_link := (et_next_link (v_entries V))[e := ?n]\<rparr>\<rparr>"
  have s1: "on_entries (t_set_next_link e ?n) V = Some V1" using Cons.prems by (simp add: on_entries_def t_set_next_link_def V1_def)
  obtain nl where nl: "relink es V1 = Some (V1\<lparr>v_entries := (v_entries V1)\<lparr>et_next_link := nl\<rparr>\<rparr>)"
      "length nl = length (et_next_link (v_entries V1))" "\<And>j. j \<notin> set es \<Longrightarrow> nl ! j = et_next_link (v_entries V1) ! j"
      "lseg nl ?n es"
    using Cons.IH[of V1] Cons.prems by (auto simp: V1_def)
  have "nl ! e = ?n" using nl(3)[of e] Cons.prems by (simp add: V1_def)
  then have "lseg nl e (e # es)" using nl(2,4) Cons.prems by (simp add: V1_def)
  moreover have "nl ! j = et_next_link (v_entries V) ! j" if "j \<notin> set (e # es)" for j using nl(3)[of j] that by (simp add: V1_def)
  ultimately show ?case using s1 nl(1,2) by (intro exI[of _ nl]) (simp add: V1_def)
qed

lemma drop_unused_core:
  assumes "core E V {} {} {} {}" "distinct (map fst cur)" "fst ` set cur \<subseteq> live V" "v_lost_found V \<notin> fst ` set cur"
  shows "\<exists>V'. drop_unused E cur V = Some V' \<and> core E V' {} {} {} {} \<and> dropped {e. (e, False) \<in> set cur} V V' \<and> v_by_frn V' = v_by_frn V"
  using assms
proof (induction cur arbitrary: V)
  case Nil
  then show ?case by (simp add: dropped_def)
next
  case (Cons c cur)
  obtain e u where c: "c = (e, u)" by fastforce
  show ?case
  proof (cases u)
    case True
    then have "{e'. (e', False) \<in> set (c # cur)} = {e. (e, False) \<in> set cur}" using c by auto
    then show ?thesis using Cons.IH[OF Cons.prems(1)] Cons.prems c True by simp
  next
    case False
    have e: "e \<in> live V" "e \<noteq> v_lost_found V" using Cons.prems c by auto
    obtain V1 where V1: "remove_entry E e V = Some V1" "core E V1 {} {} {} {}" "removed e V V1"
      using remove_entry_core[OF Cons.prems(1) e] by blast
    have m: "same_meta V V1" "sizes V1 = sizes V" "ents V1 = ents_remove (v_lost_found V) e (ents V)"
        "\<And>j. j \<noteq> e \<Longrightarrow> et_next_link (v_entries V1) ! j = et_next_link (v_entries V) ! j"
      using V1(3) by (simp_all add: removed_def)
    have "fst ` set cur \<subseteq> live V1" "v_lost_found V1 \<notin> fst ` set cur" "distinct (map fst cur)"
      using removed_live[OF V1(3)] Cons.prems c m(1) by (auto simp: same_meta_def)
    then obtain V' where V': "drop_unused E cur V1 = Some V'" "core E V' {} {} {} {}" "dropped {e. (e, False) \<in> set cur} V1 V'" "v_by_frn V' = v_by_frn V1"
      using Cons.IH[OF V1(2)] by blast
    have "{e'. (e', False) \<in> set (c # cur)} = insert e {e. (e, False) \<in> set cur}" using c False by auto
    moreover have "v_lost_found V \<notin> {e. (e, False) \<in> set cur}" using Cons.prems(4) by force
    ultimately have "dropped {e'. (e', False) \<in> set (c # cur)} V V'"
      using V'(3) m by (simp add: dropped_def same_meta_def ents_drop_insert)
    then show ?thesis using V1(1) V' c False m(1) by (simp add: same_meta_def)
  qed
qed

definition target_at :: "volume \<Rightarrow> entry_idx \<Rightarrow> link_target \<times> entry_idx \<Rightarrow> bool" where
  "target_at V i xp \<longleftrightarrow> i \<in> live V \<and> raw_of (v_names V) (nid V i) = wn_bytes (lt_name (fst xp)) \<and> par V i = snd xp"

lemma match_pos_spec:
  assumes "core E V {} {} {} {}" "fst ` set cur \<subseteq> live V"
  shows "\<exists>r. match_pos V p name k cur = Some r \<and>
    (case r of None \<Rightarrow> True | Some m \<Rightarrow> k \<le> m \<and> m - k < length cur \<and> \<not> snd (cur ! (m - k)) \<and>
      par V (fst (cur ! (m - k))) = p \<and> raw_of (v_names V) (nid V (fst (cur ! (m - k)))) = name)"
  using assms(2)
proof (induction cur arbitrary: k)
  case Nil
  then show ?case by simp
next
  case (Cons c cur)
  obtain e u where c: "c = (e, u)" by fastforce
  have e: "e \<in> live V" using Cons.prems c by simp
  note D = coreD[OF assms(1)]
  have rd: "t_parent (v_entries V) e = Some (par V e)" "t_name_id (v_entries V) e = Some (nid V e)"
      "raw_bytes (v_names V) (nid V e) = Some (raw_of (v_names V) (nid V e))"
    using D(12)[OF e] cols_lengths(3,4)[OF D(2)] names_raw_bytes[OF D(3) refs_live(2)[OF assms(1)]] e
    by (simp_all add: t_parent_def t_name_id_def)
  obtain r where r: "match_pos V p name (k + 1) cur = Some r"
      "case r of None \<Rightarrow> True | Some m \<Rightarrow> k + 1 \<le> m \<and> m - (k + 1) < length cur \<and> \<not> snd (cur ! (m - (k + 1))) \<and>
        par V (fst (cur ! (m - (k + 1)))) = p \<and> raw_of (v_names V) (nid V (fst (cur ! (m - (k + 1))))) = name"
    using Cons.IH[of "k + 1"] Cons.prems by auto
  show ?case
  proof (cases "\<not> u \<and> par V e = p \<and> raw_of (v_names V) (nid V e) = name")
    case True
    then show ?thesis using rd c by simp
  next
    case False
    then have "match_pos V p name k (c # cur) = Some r" using rd c r(1) by auto
    moreover have "m - k = Suc (m - (k + 1))" if "k + 1 \<le> m" for m using that by simp
    ultimately show ?thesis using r(2) by (intro exI[of _ r]) (auto split: option.splits)
  qed
qed

text \<open>The state while links are placed: every link of the file is an old one or a kept one, and an
  old one is marked when it is kept.\<close>

definition placing :: "env \<Rightarrow> frn \<Rightarrow> volume \<Rightarrow> (entry_idx \<times> bool) list \<Rightarrow> entry_idx list \<Rightarrow> bool" where
  "placing E f V cur kept \<longleftrightarrow> core E V {} {} {} {} \<and> links_ok V {record_number f} \<and> suspects_ok V \<and>
    distinct (map fst cur) \<and> distinct kept \<and> rec_set V (record_number f) = fst ` set cur \<union> set kept \<and>
    (\<forall>c \<in> set cur. snd c \<longleftrightarrow> fst c \<in> set kept) \<and> (\<forall>i \<in> rec_set V (record_number f). frn_at V i = f)"

lemma placing_mark:
  assumes pl: "placing E f V cur kept" and k: "k < length cur" "\<not> snd (cur ! k)"
  shows "placing E f V (cur[k := (fst (cur ! k), True)]) (kept @ [fst (cur ! k)])"
proof -
  let ?e = "fst (cur ! k)" and ?cur = "cur[k := (fst (cur ! k), True)]"
  have P: "distinct (map fst cur)" "distinct kept" "rec_set V (record_number f) = fst ` set cur \<union> set kept"
      "\<And>c. c \<in> set cur \<Longrightarrow> snd c \<longleftrightarrow> fst c \<in> set kept"
    using pl by (simp_all add: placing_def)
  have m: "map fst ?cur = map fst cur" using k(1) list_update_id[of "map fst cur" k] by (simp add: map_update)
  then have img: "fst ` set ?cur = fst ` set cur" by (metis list.set_map)
  have mem: "cur ! k \<in> set cur" using k(1) by (rule nth_mem)
  have new: "?e \<notin> set kept" using P(4)[OF mem] k(2) by simp
  have "snd c \<longleftrightarrow> fst c \<in> set (kept @ [?e])" if "c \<in> set ?cur" for c
  proof -
    obtain j where j: "j < length cur" "c = ?cur ! j" using \<open>c \<in> set ?cur\<close> by (auto simp: in_set_conv_nth)
    show ?thesis
    proof (cases "j = k")
      case True
      then show ?thesis using j k by simp
    next
      case False
      have "fst (cur ! j) \<noteq> ?e" using False j(1) k(1) P(1) by (simp add: distinct_conv_nth)
      moreover have "cur ! j \<in> set cur" using j(1) by (rule nth_mem)
      ultimately show ?thesis using P(4) j False by simp
    qed
  qed
  moreover have "?e \<in> fst ` set cur" using mem by (rule imageI)
  ultimately show ?thesis using pl P m img new unfolding placing_def by auto
qed

lemma placing_new:
  assumes pl: "placing E f V cur kept" and ad: "added i e V W" "e_frn e = f" and core: "core E V' {} {} {} {}"
    and V': "v_entries V' = v_entries W" "v_lost_found V' = v_lost_found W" "v_by_frn V' = v_by_frn W" "v_cycle_suspects V' = v_cycle_suspects W"
    and coreW: "core E W {} {} {} {i}"
  shows "placing E f V' cur (kept @ [i])"
proof -
  have P: "core E V {} {} {} {}" "links_ok V {record_number f}" "suspects_ok V" "distinct kept"
      "rec_set V (record_number f) = fst ` set cur \<union> set kept" "\<And>c. c \<in> set cur \<Longrightarrow> snd c \<longleftrightarrow> fst c \<in> set kept"
      "\<And>j. j \<in> rec_set V (record_number f) \<Longrightarrow> frn_at V j = f"
    using pl by (auto simp: placing_def)
  have sub: "fst ` set cur \<subseteq> live V" "set kept \<subseteq> live V" using P(5) by (auto simp: rec_set_def)
  have i: "i \<notin> live V" using ad(1) by (simp add: added_def)
  have l: "links_ok V' {record_number f}"
    by (rule links_ok_cong[OF added_links[OF P(2,1) ad(1) coreW]]) (use V' ad(2) in auto)
  have rs: "rec_set V' (record_number f) = insert i (rec_set V (record_number f))"
    using added_rec_set[OF ad(1) coreD(10)[OF P(1)], of "record_number f"] V'(1,2) ad(2) by (simp add: rec_set_def)
  have "frn_at V' j = f" if "j \<in> insert i (rec_set V (record_number f))" for j
  proof (cases "j = i")
    case True
    then show ?thesis using added_frn(1)[OF ad(1)] ad(2) V'(1) by simp
  next
    case False
    then have "j \<in> rec_set V (record_number f)" using that by simp
    then have "j \<in> live V" "frn_at V j = f" using P(7) by (simp_all add: rec_set_live)
    then show ?thesis using added_frn(2)[OF ad(1)] V'(1) by simp
  qed
  moreover have "suspects_ok V'" using P(3) V' ad(1) added_slots[OF ad(1)] by (auto simp: suspects_ok_def added_def same_meta_def)
  moreover have "snd c \<longleftrightarrow> fst c \<in> set (kept @ [i])" if "c \<in> set cur" for c
    using P(6)[OF that] sub(1) i that by auto
  ultimately show ?thesis using pl core l rs sub i unfolding placing_def by auto
qed

lemma target_keep:
  assumes "target_at V i xp" "ents V' i = ents V i"
  shows "target_at V' i xp"
proof -
  have "ents V' i = Some (entry_at V i)" using assms by (simp add: target_at_def ents_def)
  then have "i \<in> live V'" "entry_at V' i = entry_at V i" by (auto simp: ents_def split: if_splits)
  then show ?thesis using assms(1) unfolding target_at_def by (metis entry_at_fields(2,3))
qed

definition link_names :: "(link_target \<times> entry_idx) list \<Rightarrow> u8 list list" where
  "link_names xs = map (\<lambda>xp. wn_bytes (lt_name (fst xp))) xs"

lemma place_links_spec:
  assumes "placing E f V cur kept" "\<And>xp. xp \<in> set xs \<Longrightarrow> snd xp \<in> live V" "vroom E (link_names xs @ ns) V"
  shows "\<exists>cur' ks V'. place_links E f is_dir sz mt xs cur kept V = Some (cur', kept @ ks, V') \<and> placing E f V' cur' (kept @ ks) \<and>
    vroom E ns V' \<and> list_all2 (target_at V') ks xs \<and> map fst cur' = map fst cur \<and> (\<forall>j \<in> live V. ents V' j = ents V j) \<and>
    v_by_frn V' = v_by_frn V \<and> v_root V' = v_root V \<and> v_lost_found V' = v_lost_found V \<and> v_generation V' = v_generation V"
  using assms
proof (induction xs arbitrary: V cur kept)
  case Nil
  then show ?case by (simp add: link_names_def)
next
  case (Cons xp xs)
  obtain x p where xp: "xp = (x, p)" by fastforce
  let ?name = "wn_bytes (lt_name x)"
  have core: "core E V {} {} {} {}" and sub: "fst ` set cur \<subseteq> live V" using Cons.prems(1) by (auto simp: placing_def rec_set_def)
  obtain r where r: "match_pos V p ?name 0 cur = Some r"
      "case r of None \<Rightarrow> True | Some m \<Rightarrow> m < length cur \<and> \<not> snd (cur ! m) \<and> par V (fst (cur ! m)) = p \<and>
        raw_of (v_names V) (nid V (fst (cur ! m))) = ?name"
    using match_pos_spec[OF core sub, of p ?name 0, unfolded diff_zero] by (auto split: option.splits)
  show ?case
  proof (cases r)
    case (Some k)
    let ?e = "fst (cur ! k)" and ?cur = "cur[k := (fst (cur ! k), True)]"
    have k: "k < length cur" "\<not> snd (cur ! k)" "par V ?e = p" "raw_of (v_names V) (nid V ?e) = ?name" using r(2) Some by simp_all
    have "vroom E (link_names xs @ ns) V" using Cons.prems(3) vroom_tl by (simp add: link_names_def)
    then obtain cur' ks V' where IH: "place_links E f is_dir sz mt xs ?cur (kept @ [?e]) V = Some (cur', (kept @ [?e]) @ ks, V')"
        "placing E f V' cur' ((kept @ [?e]) @ ks)" "vroom E ns V'" "list_all2 (target_at V') ks xs" "map fst cur' = map fst ?cur"
        "\<forall>j \<in> live V. ents V' j = ents V j" "v_by_frn V' = v_by_frn V" "v_root V' = v_root V" "v_lost_found V' = v_lost_found V" "v_generation V' = v_generation V"
      using Cons.IH[OF placing_mark[OF Cons.prems(1) k(1,2)]] Cons.prems(2) by (metis list.set_intros(2))
    have m: "map fst ?cur = map fst cur" using k(1) list_update_id[of "map fst cur" k] by (simp add: map_update)
    have "?e \<in> live V" using sub nth_mem[OF k(1)] by auto
    then have "target_at V' ?e xp" using target_keep[of V ?e xp V'] IH(6) k(3,4) xp by (simp add: target_at_def)
    moreover have "place_links E f is_dir sz mt (xp # xs) cur kept V = place_links E f is_dir sz mt xs ?cur (kept @ [?e]) V"
      using r(1) Some k(1) xp by (cases "cur ! k") simp
    ultimately show ?thesis using IH m by (intro exI[of _ cur'] exI[of _ "?e # ks"] exI[of _ V']) simp
  next
    case None
    let ?fl = "with_flag (with_flag EMPTY DIR is_dir) NON_UNICODE_NAME (wn_lossy (lt_name x))"
    have p: "p = NIL \<or> p \<in> live V" using Cons.prems(2)[of xp] xp by simp
    have room: "vroom E (?name # link_names xs @ ns) V" using Cons.prems(3) xp by (simp add: link_names_def)
    obtain i W d where W: "new_entry E f p ?name ?fl sz mt V = Some (i, W)" "core E W {} {} {} {i}"
        "dir_index_insert E i W = Some (W\<lparr>v_dir_children := d\<rparr>)" "core E (W\<lparr>v_dir_children := d\<rparr>) {} {} {} {}"
        "vroom E (link_names xs @ ns) W"
        "added i \<lparr>e_frn = f, e_parent = p, e_name = ?name, e_flags = ?fl, e_size = sz, e_mtime = mt\<rparr> V W"
      using insert_entry_core[OF core room _ p, of ?fl f sz mt] by (auto simp: fresh_flags_contains)
    define V1 where "V1 = bump_dirty (W\<lparr>v_dir_children := d\<rparr>)"
    have e1: "ents V1 = (ents V)(i \<mapsto> \<lparr>e_frn = f, e_parent = p, e_name = ?name, e_flags = ?fl, e_size = sz, e_mtime = mt\<rparr>)" "i \<notin> live V"
      using W(6) ents_cong[of V1 W] by (simp_all add: V1_def added_def)
    have m1: "v_by_frn V1 = v_by_frn V" "v_root V1 = v_root V" "v_lost_found V1 = v_lost_found V" "v_generation V1 = v_generation V"
      using W(6) by (simp_all add: V1_def added_def same_meta_def)
    have lv1: "live V1 = insert i (live V)" using added_live[OF W(6)] by (simp add: V1_def)
    have c1: "core E V1 {} {} {} {}" by (rule core_cong[OF W(4)]) (simp_all add: V1_def)
    have pl1: "placing E f V1 cur (kept @ [i])"
      by (rule placing_new[OF Cons.prems(1) W(6) _ c1 _ _ _ _ W(2)]) (simp_all add: V1_def)
    have room1: "vroom E (link_names xs @ ns) V1" using W(5) by (simp add: V1_def vroom_def)
    obtain cur' ks V' where IH: "place_links E f is_dir sz mt xs cur (kept @ [i]) V1 = Some (cur', (kept @ [i]) @ ks, V')"
        "placing E f V' cur' ((kept @ [i]) @ ks)" "vroom E ns V'" "list_all2 (target_at V') ks xs" "map fst cur' = map fst cur"
        "\<forall>j \<in> live V1. ents V' j = ents V1 j" "v_by_frn V' = v_by_frn V1" "v_root V' = v_root V1" "v_lost_found V' = v_lost_found V1" "v_generation V' = v_generation V1"
      using Cons.IH[OF pl1 _ room1] Cons.prems(2) lv1 by (metis insertCI list.set_intros(2))
    have at1: "entry_at V1 i = \<lparr>e_frn = f, e_parent = p, e_name = ?name, e_flags = ?fl, e_size = sz, e_mtime = mt\<rparr>"
      using added_at[OF W(6)] by (simp add: V1_def entry_at_def)
    then have "par V1 i = p" "raw_of (v_names V1) (nid V1 i) = ?name"
      by (metis entry_at_fields(2) entry.select_convs(2), metis entry_at_fields(3) entry.select_convs(3))
    then have "target_at V' i xp" using target_keep[of V1 i xp V'] IH(6) lv1 xp by (simp add: target_at_def)
    moreover have "place_links E f is_dir sz mt (xp # xs) cur kept V = place_links E f is_dir sz mt xs cur (kept @ [i]) V1"
      using r(1) None W(1,3) xp by (simp add: V1_def)
    moreover have "ents V' j = ents V j" if "j \<in> live V" for j using IH(6) e1 lv1 that by auto
    ultimately show ?thesis using IH m1 by (intro exI[of _ cur'] exI[of _ "i # ks"] exI[of _ V']) simp
  qed
qed

end
