(* ===== verification/Volume_Ops.thy ===== *)
theory Volume_Ops
  imports Volume_Chain
begin

text \<open>
  The public operations of the volume index: link reconciliation, ingestion of enumeration and
  layout records, journal batches, compaction and publication. Each one ends without a panic,
  keeps the invariant and so keeps every index the operations before it built.
\<close>

section \<open>Reconciling the links of a file\<close>

lemma live_parents_spec:
  assumes "core E V Xs Xr Xc Xd" "\<And>x. x \<in> set xs \<Longrightarrow> lt_parent x < slots V"
  shows "live_parents V xs = Some (map (\<lambda>x. if lt_parent x \<in> live V then lt_parent x else v_lost_found V) xs)"
  using assms(2)
proof (induction xs)
  case (Cons x xs)
  have "is_tombstone (v_entries V) (lt_parent x) = Some (lt_parent x \<notin> live V)"
    using Cons.prems[of x] by (simp add: is_tombstone_def live_of_def)
  then show ?case using Cons by simp
qed simp

text \<open>The links a file has after reconciliation: one per reported link, in the reported order.\<close>

definition relinked :: "frn \<Rightarrow> link_target list \<Rightarrow> volume \<Rightarrow> volume \<Rightarrow> bool" where
  "relinked f desired V V' \<longleftrightarrow>
    (\<exists>ks D. link_chain V' (record_number f) (hd ks) ks \<and> links_of V' f = set ks \<and> length ks = length desired \<and>
      D \<subseteq> rec_set V (record_number f) \<and>
      (\<forall>k < length desired. \<exists>e. ents V' (ks ! k) = Some e \<and> e_name e = wn_bytes (lt_name (desired ! k)) \<and>
        e_parent e = (if lt_parent (desired ! k) \<in> live V - D then lt_parent (desired ! k) else v_lost_found V)) \<and>
      (\<forall>j \<in> live V - rec_set V (record_number f). ents V' j = ents_drop (v_lost_found V) D (ents V) j)) \<and>
    v_root V' = v_root V \<and> v_lost_found V' = v_lost_found V \<and> v_generation V' = v_generation V"

lemma current_chain_ok:
  assumes ok: "vol_ok E V"
  shows "\<exists>xs V'. current_chain E f V = Some (xs, V') \<and> vol_ok E V' \<and> dropped (stale_set V f) V V' \<and>
    distinct xs \<and> set xs = rec_set V' (record_number f) \<and> rec_set V' (record_number f) = links_of V f"
proof (cases "frn_get (v_by_frn V) (record_number f)")
  case None
  then show ?thesis using ok links_of_none[OF ok None] by (simp add: current_chain_def stale_set_def dropped_def)
next
  case (Some h)
  note H = head_live[OF ok Some] and LS = links_of_rec_set[OF ok Some]
  show ?thesis
  proof (cases "frn_at V h = f")
    case True
    obtain xs where xs: "link_chain V (record_number f) h xs" using links_okD(2)[OF vol_okD(2)[OF ok] _ Some] by auto
    have "links_of V f = rec_set V (record_number f)" "links_of V f \<noteq> {}" using LS H(1) True by auto
    moreover have "collect_chain (v_entries V) h = Some xs" "distinct xs" "set xs = rec_set V (record_number f)"
      using xs lseg_collect by (simp_all add: link_chain_def)
    ultimately show ?thesis using ok Some H(3) True by (simp add: current_chain_def stale_set_def dropped_def)
  next
    case False
    then have "links_of V f = {}" using LS by simp
    moreover obtain V1 where V1: "reclaim_stale_slot E (record_number f) h V = Some V1" "vol_ok E V1"
        "dropped (rec_set V (record_number f)) V V1"
      using reclaim_stale_slot_ok[OF ok Some] by blast
    ultimately show ?thesis using Some H(3) False dropped_rec_set[OF V1(3), of "record_number f"] by (simp add: current_chain_def stale_set_def)
  qed
qed

text \<open>Dropping the unused links, chaining the kept ones and pointing the map at the first.\<close>

lemma finish_links:
  assumes pl: "placing E f V cur kept" and ne: "kept \<noteq> []"
  defines "D \<equiv> {e. (e, False) \<in> set cur}"
  shows "\<exists>V1 V2. drop_unused E cur V = Some V1 \<and> relink kept V1 = Some V2 \<and> dropped D V V1 \<and> ents V2 = ents V1 \<and>
    sizes V2 = sizes V1 \<and> v_lost_found V2 = v_lost_found V \<and> v_root V2 = v_root V \<and> v_generation V2 = v_generation V \<and>
    D \<inter> set kept = {} \<and> D \<subseteq> rec_set V (record_number f) \<and>
    vol_ok E (V2\<lparr>v_by_frn := frn_set (record_number f) (hd kept) (v_by_frn V2)\<rparr>) \<and>
    link_chain (V2\<lparr>v_by_frn := frn_set (record_number f) (hd kept) (v_by_frn V2)\<rparr>) (record_number f) (hd kept) kept \<and>
    rec_set V2 (record_number f) = set kept \<and> (\<forall>i \<in> set kept. frn_at V2 i = f)"
proof -
  let ?r = "record_number f"
  have P: "core E V {} {} {} {}" "links_ok V {?r}" "suspects_ok V" "distinct (map fst cur)" "distinct kept"
      "rec_set V ?r = fst ` set cur \<union> set kept" "\<And>c. c \<in> set cur \<Longrightarrow> snd c \<longleftrightarrow> fst c \<in> set kept"
      "\<And>i. i \<in> rec_set V ?r \<Longrightarrow> frn_at V i = f"
    using pl by (auto simp: placing_def)
  have sub: "fst ` set cur \<subseteq> live V" "v_lost_found V \<notin> fst ` set cur" using P(6) by (auto simp: rec_set_def)
  obtain V1 where V1: "drop_unused E cur V = Some V1" "core E V1 {} {} {} {}" "dropped D V V1" "v_by_frn V1 = v_by_frn V"
    using drop_unused_core[OF P(1,4) sub] by (auto simp: D_def)
  have Dk: "D \<inter> set kept = {}" "D \<subseteq> rec_set V ?r" using P(7) P(6) by (force simp: D_def)+
  have rs1: "rec_set V1 ?r = set kept" using dropped_rec_set[OF V1(3), of ?r] P(6,7) Dk(1) by (force simp: D_def)
  have kl: "set kept \<subseteq> live V1" using rs1 by (auto simp: rec_set_def)
  have nl1: "length (et_next_link (v_entries V1)) = slots V1" "length (et_next_link (v_entries V)) = slots V"
    using core_next_link[OF V1(2)] core_next_link[OF P(1)] by simp_all
  have "set kept \<subseteq> {..<length (et_next_link (v_entries V1))}" "NIL \<notin> set kept" using kl coreD(12,13)[OF V1(2)] nl1 by auto
  then obtain nl where nl: "relink kept V1 = Some (V1\<lparr>v_entries := (v_entries V1)\<lparr>et_next_link := nl\<rparr>\<rparr>)" "length nl = slots V1"
      "\<And>j. j \<notin> set kept \<Longrightarrow> nl ! j = et_next_link (v_entries V1) ! j" "lseg nl (hd kept) kept"
    using relink_spec[OF P(5), of V1] nl1 ne by (cases kept) auto
  define V2 where "V2 = V1\<lparr>v_entries := (v_entries V1)\<lparr>et_next_link := nl\<rparr>\<rparr>"
  have c2: "core E V2 {} {} {} {}" using next_link_core[OF V1(2) nl(2)] by (simp add: V2_def)
  have rs2: "rec_set V2 q = rec_set V1 q" for q by (simp add: V2_def rec_set_def)
  have frn: "frn_at V2 i = f" if "i \<in> set kept" for i
  proof -
    have "i \<in> rec_set V ?r" "i \<in> live V - D" using that P(6) Dk(1) by (auto simp: rec_set_def)
    then show ?thesis using dropped_frn[OF V1(3)] P(8) by (simp add: V2_def)
  qed
  have "links_ok V2 {?r}"
  proof (rule links_ok_frame[OF P(2)])
    show "v_lost_found V2 = v_lost_found V" "\<And>q. frn_get (v_by_frn V2) q = frn_get (v_by_frn V) q" "frn_map_ok (v_by_frn V2)"
      using V1(3,4) P(2) by (simp_all add: V2_def dropped_def links_ok_def)
    show "slots V \<le> slots V2" "length (et_next_link (v_entries V)) = slots V" "length (et_next_link (v_entries V2)) = slots V2"
      using dropped_slots[OF V1(3)] nl(2) nl1 by (simp_all add: V2_def)
    fix q assume q: "q \<notin> {?r}"
    then show "rec_set V2 q = rec_set V q" using dropped_rec_set[OF V1(3), of q] Dk(2) unfolding rs2 by (auto simp: rec_set_def)
    fix i assume i: "i \<in> rec_set V q"
    have "i \<notin> set kept" "i \<notin> D" "i \<in> live V" using i q P(6) Dk(2) by (auto simp: rec_set_def)
    then show "et_next_link (v_entries V2) ! i = et_next_link (v_entries V) ! i \<and> frn_at V2 i = frn_at V i"
      using nl(3) V1(3) dropped_frn[OF V1(3), of i] by (simp add: V2_def dropped_def)
  qed
  moreover have ch: "link_chain V2 ?r (hd kept) kept"
    using nl(4) P(5) ne rs1 frn unfolding link_chain_def rs2 by (simp add: V2_def)
  moreover have hN: "hd kept \<noteq> NIL" using kl coreD(13)[OF V1(2), of "hd kept"] ne by (cases kept) auto
  ultimately have l: "links_ok (V2\<lparr>v_by_frn := frn_set ?r (hd kept) (v_by_frn V2)\<rparr>) {}" using links_ok_set by blast
  let ?V = "V2\<lparr>v_by_frn := frn_set ?r (hd kept) (v_by_frn V2)\<rparr>"
  have "core E ?V {} {} {} {}" by (rule core_cong[OF c2]) simp_all
  moreover have "suspects_ok ?V" using P(3) V1(3) dropped_slots[OF V1(3)] by (simp add: V2_def suspects_ok_def dropped_def)
  ultimately have v: "vol_ok E ?V" using l by (simp add: vol_ok_def)
  have "link_chain ?V ?r (hd kept) kept = link_chain V2 ?r (hd kept) kept" by (simp add: link_chain_def rec_set_def)
  then have "link_chain ?V ?r (hd kept) kept" using ch by (rule iffD2)
  moreover have "ents V2 = ents V1" by (simp add: V2_def ents_def entry_at_def fun_eq_iff)
  moreover have "sizes V2 = sizes V1" by (simp add: V2_def sizes_def)
  moreover have "v_lost_found V2 = v_lost_found V \<and> v_root V2 = v_root V \<and> v_generation V2 = v_generation V"
    using V1(3) by (simp add: V2_def dropped_def)
  ultimately show ?thesis using v V1(1,3) nl(1) Dk rs1 rs2 frn by (intro exI[of _ V1] exI[of _ V2]) (simp add: V2_def[symmetric])
qed

lemma ents_drop_at: "m j = m' j \<Longrightarrow> ents_drop lf S m j = ents_drop lf S m' j"
  by (simp add: ents_drop_def)

lemma placing_start:
  assumes ok: "vol_ok E V" and xs: "distinct xs" "set xs = rec_set V (record_number f)" and f: "\<And>i. i \<in> set xs \<Longrightarrow> frn_at V i = f"
  shows "placing E f V (map (\<lambda>e. (e, False)) xs) []"
proof -
  note D = vol_okD[OF ok]
  have "map fst (map (\<lambda>e. (e, False)) xs) = xs" by (simp add: comp_def)
  then show ?thesis
    using D links_ok_weaken[OF D(2), of "{record_number f}"] xs f unfolding placing_def by (auto simp: image_image)
qed

lemma first_stat:
  assumes "core E V {} {} {} {}" "set xs \<subseteq> live V"
  shows "\<exists>sz mt. (case xs of [] \<Rightarrow> Some (SIZE_UNKNOWN, MTIME_UNKNOWN)
        | e # _ \<Rightarrow> do { sz \<leftarrow> t_size (v_entries V) e; mt \<leftarrow> t_mtime (v_entries V) e; Some (sz, mt) }) = Some (sz, mt)"
  using assms(2) coreD(12)[OF assms(1)] cols_lengths(5,6)[OF coreD(2)[OF assms(1)]] by (cases xs) (auto simp: t_size_def t_mtime_def)

lemma set_chain_links_ok:
  assumes ok: "vol_ok E V" and ne: "desired \<noteq> []" and par: "\<And>x. x \<in> set desired \<Longrightarrow> lt_parent x < slots V"
    and room: "vroom E (map (\<lambda>x. wn_bytes (lt_name x)) desired @ ns) V"
  shows "\<exists>V'. set_chain_links E f is_dir desired V = Some V' \<and> vol_ok E V' \<and> vroom E ns V' \<and> relinked f desired V V'"
proof -
  let ?r = "record_number f"
  obtain xs V0 where V0: "current_chain E f V = Some (xs, V0)" "vol_ok E V0" "dropped (stale_set V f) V V0" "distinct xs"
      "set xs = rec_set V0 ?r" "rec_set V0 ?r = links_of V f"
    using current_chain_ok[OF ok] by blast
  note D0 = vol_okD[OF V0(2)]
  have lv0: "live V0 = live V - stale_set V f" and lf0: "v_lost_found V0 = v_lost_found V" "v_root V0 = v_root V" "v_generation V0 = v_generation V"
    using dropped_live[OF V0(3)] V0(3) by (simp_all add: dropped_def)
  define parents where "parents = map (\<lambda>x. if lt_parent x \<in> live V0 then lt_parent x else v_lost_found V0) desired"
  have parents: "live_parents V0 desired = Some parents"
    using live_parents_spec[OF D0(1), of desired] par dropped_slots[OF V0(3)] by (simp add: parents_def)
  have frn0: "frn_at V0 i = f" if "i \<in> set xs" for i
  proof -
    have "i \<in> live V0" using that V0(5) rec_set_live by blast
    then have "frn_at V0 i = frn_at V i" using dropped_frn[OF V0(3)] lv0 by blast
    moreover have "i \<in> links_of V f" using that V0(5,6) by blast
    ultimately show ?thesis by (simp add: links_of_def)
  qed
  have pl0: "placing E f V0 (map (\<lambda>e. (e, False)) xs) []" by (rule placing_start[OF V0(2,4,5) frn0])
  have xl: "set xs \<subseteq> live V0" using V0(5) by (auto simp: rec_set_def)
  obtain sz mt where st: "(case xs of [] \<Rightarrow> Some (SIZE_UNKNOWN, MTIME_UNKNOWN)
        | e # _ \<Rightarrow> do { sz \<leftarrow> t_size (v_entries V0) e; mt \<leftarrow> t_mtime (v_entries V0) e; Some (sz, mt) }) = Some (sz, mt)"
    using first_stat[OF D0(1) xl] by (elim exE)
  have pp: "snd xp \<in> live V0" if "xp \<in> set (zip desired parents)" for xp
  proof -
    have "snd xp \<in> set parents" using set_zip_rightD[of "fst xp" "snd xp" desired parents] that by simp
    then show ?thesis using coreD(10)[OF D0(1)] by (auto simp: parents_def)
  qed
  have names: "link_names (zip desired parents) = map (\<lambda>x. wn_bytes (lt_name x)) desired"
    by (rule nth_equalityI) (simp_all add: link_names_def parents_def)
  have room0: "vroom E (link_names (zip desired parents) @ ns) V0" using room dropped_vroom[OF V0(3)] names by simp
  obtain cur' ks V1 where V1: "place_links E f is_dir sz mt (zip desired parents) (map (\<lambda>e. (e, False)) xs) [] V0 = Some (cur', ks, V1)"
      "placing E f V1 cur' ks" "vroom E ns V1" "list_all2 (target_at V1) ks (zip desired parents)"
      "map fst cur' = map fst (map (\<lambda>e. (e, False)) xs)" "\<forall>j \<in> live V0. ents V1 j = ents V0 j"
      "v_root V1 = v_root V0" "v_lost_found V1 = v_lost_found V0" "v_generation V1 = v_generation V0"
    using place_links_spec[OF pl0 pp room0, of is_dir sz mt] by auto
  have len: "length ks = length desired" using list_all2_lengthD[OF V1(4)] by (simp add: parents_def)
  then have kne: "ks \<noteq> []" using ne by auto
  define D where "D = {e. (e, False) \<in> set cur'}"
  obtain V2 V3 where V3: "drop_unused E cur' V1 = Some V2" "relink ks V2 = Some V3" "dropped D V1 V2" "ents V3 = ents V2" "sizes V3 = sizes V2"
      "v_lost_found V3 = v_lost_found V1" "v_root V3 = v_root V1" "v_generation V3 = v_generation V1" "D \<inter> set ks = {}"
      "vol_ok E (V3\<lparr>v_by_frn := frn_set ?r (hd ks) (v_by_frn V3)\<rparr>)"
      "link_chain (V3\<lparr>v_by_frn := frn_set ?r (hd ks) (v_by_frn V3)\<rparr>) ?r (hd ks) ks"
      "rec_set V3 ?r = set ks" "\<forall>i \<in> set ks. frn_at V3 i = f"
    using finish_links[OF V1(2) kne, folded D_def] by blast
  let ?V = "V3\<lparr>v_by_frn := frn_set ?r (hd ks) (v_by_frn V3)\<rparr>"
  have e3: "ents ?V = ents_drop (v_lost_found V) D (ents V1)"
    using ents_cong[of ?V V3] V3(3,4) V1(8) lf0 by (simp add: dropped_def)
  have Dxs: "D \<subseteq> links_of V f"
  proof -
    have "map fst cur' = xs" using V1(5) by (simp add: comp_def)
    then have "set (map fst cur') = set xs" by (rule arg_cong)
    then have "fst ` set cur' = set xs" by simp
    then show ?thesis using V0(5,6) by (force simp: D_def)
  qed
  have lfD: "v_lost_found V \<notin> D" using Dxs by (auto simp: links_of_def)
  have "relinked f desired V ?V"
    unfolding relinked_def
  proof (intro conjI exI[of _ ks] exI[of _ "stale_set V f \<union> D"])
    show "link_chain ?V ?r (hd ks) ks" by (rule V3(11))
    show "length ks = length desired" by (rule len)
    show "links_of ?V f = set ks" using V3(12,13) links_of_sub[of V3 f] by (auto simp: links_of_def rec_set_def)
    show "stale_set V f \<union> D \<subseteq> rec_set V ?r" using Dxs links_of_sub[of V f] by (auto simp: stale_set_def split: if_splits)
    show "\<forall>j \<in> live V - rec_set V ?r. ents ?V j = ents_drop (v_lost_found V) (stale_set V f \<union> D) (ents V) j"
    proof
      fix j assume j: "j \<in> live V - rec_set V ?r"
      then have "j \<in> live V0" using lv0 by (auto simp: stale_set_def split: if_splits)
      then have "ents V1 j = ents_drop (v_lost_found V) (stale_set V f) (ents V) j" using V1(6) V0(3) by (simp add: dropped_def)
      then have "ents ?V j = ents_drop (v_lost_found V) D (ents_drop (v_lost_found V) (stale_set V f) (ents V)) j"
        unfolding e3 by (rule ents_drop_at)
      then show "ents ?V j = ents_drop (v_lost_found V) (stale_set V f \<union> D) (ents V) j" using lfD by (simp add: ents_drop_drop)
    qed
    show "\<forall>k < length desired. \<exists>e. ents ?V (ks ! k) = Some e \<and> e_name e = wn_bytes (lt_name (desired ! k)) \<and>
        e_parent e = (if lt_parent (desired ! k) \<in> live V - (stale_set V f \<union> D) then lt_parent (desired ! k) else v_lost_found V)"
    proof (intro allI impI)
      fix k assume k: "k < length desired"
      have t: "target_at V1 (ks ! k) (desired ! k, parents ! k)"
        using list_all2_nthD[OF V1(4), of k] k len by (simp add: parents_def)
      have "ks ! k \<notin> D" using V3(9) nth_mem[of k ks] k len by auto
      then have "ents ?V (ks ! k) = Some (if par V1 (ks ! k) \<in> D then (entry_at V1 (ks ! k))\<lparr>e_parent := v_lost_found V\<rparr> else entry_at V1 (ks ! k))"
        unfolding e3 using t by (simp add: ents_drop_def ents_def target_at_def)
      moreover have "parents ! k = (if lt_parent (desired ! k) \<in> live V - stale_set V f then lt_parent (desired ! k) else v_lost_found V)"
        using k lv0 lf0 by (simp add: parents_def)
      ultimately show "\<exists>e. ents ?V (ks ! k) = Some e \<and> e_name e = wn_bytes (lt_name (desired ! k)) \<and>
          e_parent e = (if lt_parent (desired ! k) \<in> live V - (stale_set V f \<union> D) then lt_parent (desired ! k) else v_lost_found V)"
        using t lfD by (auto simp: target_at_def)
    qed
  qed (use V3(6-8) V1(7-9) lf0 in simp_all)
  moreover have "set_chain_links E f is_dir desired V = Some ?V"
    using V0(1) parents st V1(1) V3(1,2) kne hd_conv_nth[OF kne] by (simp add: set_chain_links_def)
  moreover have "vroom E ns ?V"
    using V1(3) dropped_vroom[OF V3(3)] vroom_sizes[of V3 V2] V3(5) vroom_sizes[of ?V V3] by (simp add: sizes_def)
  ultimately show ?thesis using V3(10) by blast
qed

lemma vol_ok_cong:
  assumes "vol_ok E V" "v_entries V' = v_entries V" "v_names V' = v_names V" "v_dir_children V' = v_dir_children V"
    "v_root V' = v_root V" "v_lost_found V' = v_lost_found V" "v_by_frn V' = v_by_frn V" "set (v_cycle_suspects V') \<subseteq> set (v_cycle_suspects V)"
  shows "vol_ok E V'"
  using core_cong[OF vol_okD(1)[OF assms(1)] assms(2-6)] links_ok_cong[OF vol_okD(2)[OF assms(1)] assms(2,6,7)]
    vol_okD(3)[OF assms(1)] assms(2,8) by (auto simp: vol_ok_def suspects_ok_def)

lemma reconcile_links_ok:
  assumes ok: "vol_ok E V" and par: "\<And>x. x \<in> set actual \<Longrightarrow> lt_parent x < slots V"
    and room: "vroom E (map (\<lambda>x. wn_bytes (lt_name x)) actual @ ns) V"
  shows "\<exists>V'. reconcile_links E f actual V = Some V' \<and> vol_ok E V' \<and> vroom E ns V' \<and>
    (if actual = [] then dropped (links_of V f) V V' else relinked f actual V V')"
proof (cases "actual = []")
  case True
  obtain b V' where "delete_frn E f V = Some (b, V')" "vol_ok E V'" "dropped (links_of V f) V V'" using delete_frn_ok[OF ok] by blast
  then show ?thesis using True room dropped_vroom by (auto simp: reconcile_links_def)
next
  case False
  have "\<exists>is_dir. reconcile_links E f actual V = set_chain_links E f is_dir actual V"
  proof (cases rule: head_of_links[OF ok, of f])
    case 1
    then show ?thesis using False by (auto simp: reconcile_links_def)
  next
    case (2 h)
    have "t_flags (v_entries V) h = Some (vflags V h)"
      using coreD(12)[OF vol_okD(1)[OF ok]] 2(5) by (simp add: t_flags_def links_of_def)
    then show ?thesis using False 2 by (auto simp: reconcile_links_def)
  qed
  then show ?thesis using set_chain_links_ok[OF ok False par room] False by auto
qed

section \<open>Ingestion\<close>

lemma vroom_append: "vroom E (xs @ ys) V \<Longrightarrow> vroom E ys V"
  by (induction xs) (auto dest: vroom_tl)

lemma resolve_link_parent_basic:
  assumes ok: "vol_ok E V" and room: "vroom E (PLACEHOLDER_NAME # ns) V"
  shows "\<exists>p V'. resolve_link_parent E f pf V = Some (p, V') \<and> vol_ok E V' \<and> vroom E ns V' \<and> p \<in> live V' \<and> slots V \<le> slots V'"
proof (cases "pf \<noteq> f \<and> record_number pf = record_number f")
  case True
  then show ?thesis using ok vroom_tl[OF room] coreD(10)[OF vol_okD(1)[OF ok]] by (simp add: resolve_link_parent_def)
next
  case False
  obtain p V' where "resolve_or_placeholder_parent E pf V = Some (p, V')" "vol_ok E V'" "vroom E ns V'" "resolved pf p V V'"
    using resolve_or_placeholder_parent_ok[OF ok room] by blast
  then show ?thesis using False by (auto simp: resolve_link_parent_def resolved_def)
qed

lemma resolve_names_ok:
  assumes "vol_ok E V" "vroom E (map (\<lambda>_. PLACEHOLDER_NAME) ns @ rest) V"
  shows "\<exists>ts V'. resolve_names E f ns V = Some (ts, V') \<and> vol_ok E V' \<and> vroom E rest V' \<and> slots V \<le> slots V' \<and>
    map (\<lambda>x. wn_bytes (lt_name x)) ts = map ln_name ns \<and> (\<forall>x \<in> set ts. lt_parent x < slots V')"
  using assms
proof (induction ns arbitrary: V)
  case Nil
  then show ?case by simp
next
  case (Cons n ns)
  have room: "vroom E (PLACEHOLDER_NAME # map (\<lambda>_. PLACEHOLDER_NAME) ns @ rest) V" using Cons.prems(2) by simp
  obtain p V1 where V1: "resolve_link_parent E f (ln_parent_frn n) V = Some (p, V1)" "vol_ok E V1"
      "vroom E (map (\<lambda>_. PLACEHOLDER_NAME) ns @ rest) V1" "p \<in> live V1" "slots V \<le> slots V1"
    using resolve_link_parent_basic[OF Cons.prems(1) room] by blast
  obtain ts V' where V': "resolve_names E f ns V1 = Some (ts, V')" "vol_ok E V'" "vroom E rest V'" "slots V1 \<le> slots V'"
      "map (\<lambda>x. wn_bytes (lt_name x)) ts = map ln_name ns" "\<forall>x \<in> set ts. lt_parent x < slots V'"
    using Cons.IH[OF V1(2,3)] by blast
  have "p < slots V'" using coreD(12)[OF vol_okD(1)[OF V1(2)] V1(4)] V'(4) by simp
  then show ?case using V1(1,5) V' by auto
qed

lemma links_of_nonempty:
  assumes "vol_ok E V" "links_of V f \<noteq> {}"
  shows "rec_set V (record_number f) = links_of V f"
proof -
  obtain h where h: "frn_get (v_by_frn V) (record_number f) = Some h" using links_of_none[OF assms(1)] assms(2) by fastforce
  show ?thesis using links_of_rec_set[OF assms(1) h] assms(2) by (auto split: if_splits)
qed

lemma resolve_keeps_links:
  assumes ok: "vol_ok E V" and room: "vroom E (PLACEHOLDER_NAME # ns) V" and ne: "links_of V f \<noteq> {}"
  shows "\<exists>p V'. resolve_link_parent E f pf V = Some (p, V') \<and> vol_ok E V' \<and> vroom E ns V' \<and> p \<in> live V' \<and> links_of V' f = links_of V f"
proof -
  note cur = links_of_nonempty[OF ok ne]
  have alt: "\<not> (pf = f \<and> links_of V f = {})" using ne by simp
  obtain p V' where V': "resolve_link_parent E f pf V = Some (p, V')" "vol_ok E V'" "vroom E ns V'" "p \<in> live V'"
      "keeps (parent_stale V f pf) V V'" "rec_set V' (record_number f) = rec_set V (record_number f)"
    using resolve_link_parent_ok[OF ok room cur, of pf, unfolded if_not_P[OF alt]] by blast
  obtain i where i: "i \<in> links_of V f" using ne by blast
  have il: "i \<in> live V - parent_stale V f pf" using i by (auto simp: links_of_def parent_stale_def stale_set_def rec_set_def)
  have "frn_at V' i = frn_at V i" by (rule keeps_field[OF V'(5) il])
  moreover have "i \<in> rec_set V' (record_number f)" using V'(6) cur i by simp
  ultimately have "links_of V' f \<noteq> {}" using i by (auto simp: links_of_def rec_set_def)
  then have "links_of V' f = links_of V f" using links_of_nonempty[OF V'(2)] V'(6) cur by simp
  then show ?thesis using V' by blast
qed

lemma has_link_loop_total:
  assumes "core E V {} {} {} {}" "lseg (et_next_link (v_entries V)) cur xs" "set xs \<subseteq> live V"
  shows "\<exists>b. has_link_loop V p name cur = Some b"
  using assms(2,3)
proof (induction xs arbitrary: cur)
  case Nil
  then show ?case by (subst has_link_loop.simps) (auto intro: exI[of _ False])
next
  case (Cons x xs)
  note D = coreD[OF assms(1)]
  have x: "cur = x" "x \<noteq> NIL" "x \<in> live V" using Cons.prems by auto
  have rd: "t_parent (v_entries V) x = Some (par V x)" "t_name_id (v_entries V) x = Some (nid V x)"
      "raw_bytes (v_names V) (nid V x) = Some (raw_of (v_names V) (nid V x))"
      "t_next_link (v_entries V) x = Some (et_next_link (v_entries V) ! x)"
    using D(12)[OF x(3)] cols_lengths(3,4,7)[OF D(2)] names_raw_bytes[OF D(3) refs_live(2)[OF assms(1)]] x(3)
    by (simp_all add: t_parent_def t_name_id_def t_next_link_def)
  obtain b where b: "has_link_loop V p name (et_next_link (v_entries V) ! x) = Some b"
    using Cons.IH[of "et_next_link (v_entries V) ! x"] Cons.prems by auto
  show ?case unfolding x(1) by (subst has_link_loop.simps) (use x(2) rd b in auto)
qed

lemma add_missing_links_ok:
  assumes "vol_ok E V" "links_of V f \<noteq> {}" "vroom E (concat (map (\<lambda>n. [PLACEHOLDER_NAME, ln_name n]) ns) @ rest) V"
  shows "\<exists>V'. add_missing_links E f ns V = Some V' \<and> vol_ok E V' \<and> links_of V' f \<noteq> {} \<and> vroom E rest V'"
  using assms
proof (induction ns arbitrary: V)
  case Nil
  then show ?case by simp
next
  case (Cons n ns)
  let ?rest = "concat (map (\<lambda>n. [PLACEHOLDER_NAME, ln_name n]) ns) @ rest"
  have room: "vroom E (PLACEHOLDER_NAME # ln_name n # ?rest) V" using Cons.prems(3) by simp
  obtain p V1 where V1: "resolve_link_parent E f (ln_parent_frn n) V = Some (p, V1)" "vol_ok E V1" "vroom E (ln_name n # ?rest) V1"
      "p \<in> live V1" "links_of V1 f = links_of V f"
    using resolve_keeps_links[OF Cons.prems(1) room Cons.prems(2)] by blast
  have ne1: "links_of V1 f \<noteq> {}" using V1(5) Cons.prems(2) by simp
  obtain b where b: "chain_has_link V1 f p (ln_name n) = Some b"
  proof (cases rule: head_of_links[OF V1(2), of f])
    case 1
    then show ?thesis using ne1 by simp
  next
    case (2 h)
    obtain xs where xs: "link_chain V1 (record_number f) h xs" using links_okD(2)[OF vol_okD(2)[OF V1(2)] _ 2(2)] by auto
    then have "lseg (et_next_link (v_entries V1)) h xs" "set xs \<subseteq> live V1" unfolding link_chain_def rec_set_def by blast+
    then obtain b where "has_link_loop V1 p (ln_name n) h = Some b" using has_link_loop_total[OF vol_okD(1)[OF V1(2)]] by blast
    then show ?thesis using 2(1) that by (simp add: chain_has_link_def)
  qed
  have "\<exists>V2. (if b then Some V1 else add_link E f p (ln_name n) (ln_name_lossy n) V1) = Some V2 \<and> vol_ok E V2 \<and>
      links_of V2 f \<noteq> {} \<and> vroom E ?rest V2"
  proof (cases b)
    case True
    then show ?thesis using V1(2,3) ne1 vroom_tl by auto
  next
    case False
    obtain i V2 e where "add_link E f p (ln_name n) (ln_name_lossy n) V1 = Some V2" "vol_ok E V2" "vroom E ?rest V2" "linked f i e V1 V2"
      using add_link_ok[OF V1(2,3,4) links_of_nonempty[OF V1(2) ne1], of "ln_name_lossy n"] by blast
    then show ?thesis using False by (auto simp: linked_def)
  qed
  then obtain V2 where V2: "(if b then Some V1 else add_link E f p (ln_name n) (ln_name_lossy n) V1) = Some V2" "vol_ok E V2"
      "links_of V2 f \<noteq> {}" "vroom E ?rest V2" by blast
  show ?case using Cons.IH[OF V2(2,3,4)] V1(1) b V2(1) by auto
qed

end
