(* ===== verification/Volume_Batch.thy ===== *)
theory Volume_Batch
  imports Volume_Ops
begin

text \<open>
  Bootstrap records, journal batches, storage compaction and publication keep the invariant, so
  every index that they can build from an empty one has it.
\<close>

section \<open>Bootstrap\<close>

lemma insert_enum_ok:
  assumes "vol_ok E V" "vroom E (PLACEHOLDER_NAME # pu_name r # ns) V"
  shows "\<exists>V'. insert_enum E r V = Some V' \<and> vol_ok E V' \<and> vroom E ns V'"
proof -
  obtain q V' where "upsert_link E (pu_frn r) (pu_parent_frn r) (pu_name r) (pu_name_lossy r) (pu_is_dir r) V = Some (q, V')"
      "vol_ok E V'" "vroom E ns V'"
    using upsert_link_ok[OF assms, of "pu_frn r" "pu_parent_frn r" "pu_name_lossy r" "pu_is_dir r"] by blast
  then show ?thesis by (simp add: insert_enum_def)
qed

definition win32_names :: "layout_file \<Rightarrow> layout_name list" where
  "win32_names file = filter (\<lambda>n. \<not> ln_dos_only n) (lf_names file)"

text \<open>The names an enrichment can add, placeholders included.\<close>

definition enrich_names :: "layout_file \<Rightarrow> u8 list list" where
  "enrich_names file = map (\<lambda>_. PLACEHOLDER_NAME) (win32_names file) @ map ln_name (win32_names file) @
    concat (map (\<lambda>n. [PLACEHOLDER_NAME, ln_name n]) (win32_names file))"

lemma enrich_links_ok:
  assumes ok: "vol_ok E V" and ne: "links_of V (lf_frn file) \<noteq> {}"
    and room: "vroom E (concat (map (\<lambda>n. [PLACEHOLDER_NAME, ln_name n]) (win32_names file)) @ ns) V"
  shows "\<exists>V'. enrich_links E file V = Some V' \<and> vol_ok E V' \<and> vroom E ns V'"
proof -
  have "\<exists>V1. (if \<not> lf_is_dir file then add_missing_links E (lf_frn file) (win32_names file) V else Some V) = Some V1 \<and>
      vol_ok E V1 \<and> links_of V1 (lf_frn file) \<noteq> {} \<and> vroom E ns V1"
    using add_missing_links_ok[OF ok ne room] ok ne vroom_append[OF room] by (cases "lf_is_dir file") auto
  then obtain V1 where V1: "(if \<not> lf_is_dir file then add_missing_links E (lf_frn file) (win32_names file) V else Some V) = Some V1"
      "vol_ok E V1" "links_of V1 (lf_frn file) \<noteq> {}" "vroom E ns V1" by blast
  obtain h where h: "head_of V1 (lf_frn file) = Some (Some h)" "frn_get (v_by_frn V1) (record_number (lf_frn file)) = Some h"
    by (rule head_of_links[OF V1(2), of "lf_frn file"]) (use V1(3) in auto)
  obtain V' where V': "stat_loop (if lf_is_dir file then None else lf_size file) (lf_mtime_ft file) h V1 = Some V'" "vol_ok E V'"
      "statted (if lf_is_dir file then None else lf_size file) (lf_mtime_ft file) (rec_set V1 (record_number (lf_frn file))) V1 V'"
    using stat_links_ok[OF V1(2) h(2), of "if lf_is_dir file then None else lf_size file" "lf_mtime_ft file"] by blast
  have "vroom E ns V'" using V1(4) V'(3) by (auto simp: statted_def vroom_def)
  moreover have "enrich_links E file V = Some V'" using V1(1) h(1) V'(1) by (cases "lf_is_dir file") (simp_all add: enrich_links_def win32_names_def)
  ultimately show ?thesis using V'(2) by blast
qed

lemma enrich_ok:
  assumes ok: "vol_ok E V" and room: "vroom E (enrich_names file @ ns) V"
  shows "\<exists>V'. enrich E file V = Some V' \<and> vol_ok E V' \<and> vroom E ns V'"
proof -
  let ?f = "lf_frn file" and ?L = "win32_names file"
  let ?last = "concat (map (\<lambda>n. [PLACEHOLDER_NAME, ln_name n]) ?L) @ ns"
  have r1: "vroom E (map (\<lambda>_. PLACEHOLDER_NAME) ?L @ map ln_name ?L @ ?last) V" using room by (simp add: enrich_names_def)
  have r3: "vroom E ?last V" using vroom_append[OF vroom_append[OF r1]] .
  show ?thesis
  proof (cases rule: head_of_links[OF ok, of ?f])
    case (2 h)
    then have "enrich E file V = enrich_links E file V" by (simp add: enrich_def)
    moreover have "links_of V ?f \<noteq> {}" using 2(5) by auto
    ultimately show ?thesis using enrich_links_ok[OF ok _ r3] by simp
  next
    case 1
    obtain ts V1 where V1: "resolve_names E ?f ?L V = Some (ts, V1)" "vol_ok E V1" "vroom E (map ln_name ?L @ ?last) V1"
        "map (\<lambda>x. wn_bytes (lt_name x)) ts = map ln_name ?L" "\<forall>x \<in> set ts. lt_parent x < slots V1"
      using resolve_names_ok[OF ok r1] by blast
    show ?thesis
    proof (cases "ts = []")
      case True
      then show ?thesis using 1 V1(1,2) vroom_append[OF vroom_append[OF V1(3)]] by (simp add: enrich_def win32_names_def)
    next
      case False
      have r2: "vroom E (map (\<lambda>x. wn_bytes (lt_name x)) ts @ ?last) V1" using V1(3,4) by simp
      have lt: "\<And>x. x \<in> set ts \<Longrightarrow> lt_parent x < slots V1" using V1(5) by blast
      obtain V2 where V2: "set_chain_links E ?f (lf_is_dir file) ts V1 = Some V2" "vol_ok E V2" "vroom E ?last V2" "relinked ?f ts V1 V2"
        using set_chain_links_ok[OF V1(2) False lt r2] by blast
      have "links_of V2 ?f \<noteq> {}" using V2(4) False unfolding relinked_def by (metis length_0_conv set_empty)
      then obtain V' where "enrich_links E file V2 = Some V'" "vol_ok E V'" "vroom E ns V'" using enrich_links_ok[OF V2(2) _ V2(3)] by blast
      then show ?thesis using 1 V1(1) False V2(1) by (simp add: enrich_def win32_names_def)
    qed
  qed
qed

definition layout_names :: "layout_file \<Rightarrow> u8 list list" where
  "layout_names file = (case find (\<lambda>n. \<not> ln_dos_only n) (lf_names file) of Some n \<Rightarrow> [PLACEHOLDER_NAME, ln_name n] | None \<Rightarrow> []) @ enrich_names file"

lemma insert_layout_ok:
  assumes ok: "vol_ok E V" and room: "vroom E (layout_names file @ ns) V"
  shows "\<exists>V'. insert_layout E file V = Some V' \<and> vol_ok E V' \<and> vroom E ns V'"
proof -
  have "\<exists>V1. (case find (\<lambda>n. \<not> ln_dos_only n) (lf_names file) of
               Some n \<Rightarrow>
                 if ln_parent_frn n \<noteq> lf_frn file
                 then do { (_, V) \<leftarrow> upsert_link E (lf_frn file) (ln_parent_frn n) (ln_name n) (ln_name_lossy n) (lf_is_dir file) V; Some V }
                 else Some V
             | None \<Rightarrow> Some V) = Some V1 \<and> vol_ok E V1 \<and> vroom E (enrich_names file @ ns) V1"
  proof (cases "find (\<lambda>n. \<not> ln_dos_only n) (lf_names file)")
    case None
    then show ?thesis using ok room by (simp add: layout_names_def)
  next
    case (Some n)
    have r: "vroom E (PLACEHOLDER_NAME # ln_name n # enrich_names file @ ns) V" using room Some by (simp add: layout_names_def)
    obtain q V1 where "upsert_link E (lf_frn file) (ln_parent_frn n) (ln_name n) (ln_name_lossy n) (lf_is_dir file) V = Some (q, V1)"
        "vol_ok E V1" "vroom E (enrich_names file @ ns) V1"
      using upsert_link_ok[OF ok r, of "lf_frn file" "ln_parent_frn n" "ln_name_lossy n" "lf_is_dir file"] by blast
    then show ?thesis using Some ok vroom_tl[OF vroom_tl[OF r]] by auto
  qed
  then obtain V1 where V1: "vol_ok E V1" "vroom E (enrich_names file @ ns) V1" "insert_layout E file V = enrich E file V1"
    unfolding insert_layout_def by auto
  then show ?thesis using enrich_ok[OF V1(1,2)] by simp
qed

section \<open>Journal batches\<close>

definition op_names :: "usn_op \<Rightarrow> u8 list list" where
  "op_names op = (case op of Upsert f pf name lossy is_dir \<Rightarrow> [PLACEHOLDER_NAME, name] | _ \<Rightarrow> [])"

lemma vol_ok_stats: "vol_ok E V \<Longrightarrow> vol_ok E (V\<lparr>v_stats := st\<rparr>)"
  by (rule vol_ok_cong[of E V]) simp_all

lemma apply_op_ok:
  assumes ok: "vol_ok E V" and room: "vroom E (op_names op @ ns) V"
  shows "\<exists>out' V'. apply_op E op (out, V) = Some (out', V') \<and> vol_ok E V' \<and> vroom E ns V'"
proof (cases op)
  case (Upsert f pf name lossy is_dir)
  have r: "vroom E (PLACEHOLDER_NAME # name # ns) V" using room Upsert by (simp add: op_names_def)
  obtain q V' where "upsert_link E f pf name lossy is_dir V = Some (q, V')" "vol_ok E V'" "vroom E ns V'"
    using upsert_link_ok[OF ok r, of f pf lossy is_dir] by blast
  then show ?thesis using Upsert by (simp add: apply_op_def)
next
  case (Delete f)
  obtain b V' where V': "delete_frn E f V = Some (b, V')" "vol_ok E V'" "dropped (links_of V f) V V'" using delete_frn_ok[OF ok] by blast
  have "vroom E ns V'" using room dropped_vroom[OF V'(3)] Delete by (simp add: op_names_def)
  then have "vroom E ns (V'\<lparr>v_stats := st\<rparr>)" for st by (simp add: vroom_def)
  then show ?thesis using Delete V'(1,2) \<open>vroom E ns V'\<close> vol_ok_stats[OF V'(2)] by (cases b) (simp_all add: apply_op_def)
qed (use ok room vol_ok_stats[OF ok] in \<open>simp_all add: apply_op_def op_names_def vroom_def\<close>)

lemma apply_ops_ok:
  assumes "vol_ok E V" "vroom E (concat (map op_names ops) @ ns) V"
  shows "\<exists>out' V'. apply_ops E ops (out, V) = Some (out', V') \<and> vol_ok E V' \<and> vroom E ns V'"
  using assms
proof (induction ops arbitrary: out V)
  case Nil
  then show ?case by simp
next
  case (Cons op ops)
  have r: "vroom E (op_names op @ concat (map op_names ops) @ ns) V" using Cons.prems(2) by simp
  obtain out1 V1 where V1: "apply_op E op (out, V) = Some (out1, V1)" "vol_ok E V1" "vroom E (concat (map op_names ops) @ ns) V1"
    using apply_op_ok[OF Cons.prems(1) r] by blast
  show ?case using Cons.IH[OF V1(2,3), of out1] V1(1) by simp
qed

text \<open>A name store reordered in place.\<close>

lemma names_core:
  assumes core: "core E V Xs Xr Xc Xd" and nm: "names_ok E nm" "order_ok nm" "ns_head nm = ns_head (v_names V)"
    "ns_refcount nm = ns_refcount (v_names V)" "folded_of nm = folded_of (v_names V)"
  shows "core E (V\<lparr>v_names := nm\<rparr>) Xs Xr Xc Xd"
proof -
  let ?V = "V\<lparr>v_names := nm\<rparr>"
  have "dirs ?V = dirs V" "kids ?V = kids V" "dkey E ?V = dkey E V"
    using nm(5) by (simp_all add: dirs_def dirent_def kids_def dkey_def fun_eq_iff)
  then show ?thesis using core nm unfolding core_def same_ok_def refs_ok_def child_ok_def dir_ok_def by simp
qed

definition same_names :: "name_store \<Rightarrow> name_store \<Rightarrow> bool" where
  "same_names nm nm' \<longleftrightarrow> ns_head nm' = ns_head nm \<and> ns_refcount nm' = ns_refcount nm \<and> ns_pairs nm' = ns_pairs nm \<and>
    ns_raw nm' = ns_raw nm \<and> ns_folded nm' = ns_folded nm"

lemma same_names_fields: "same_names nm nm' \<Longrightarrow> folded_of nm' = folded_of nm \<and> raw_of nm' = raw_of nm"
  by (simp add: same_names_def folded_of_def raw_of_def fun_eq_iff)

lemma rerank_same: "rerank nm = Some nm' \<Longrightarrow> same_names nm nm'"
  by (auto simp: rerank_def same_names_def split: Option.bind_splits)

lemma reorder_spec:
  assumes "names_ok E nm"
  shows "\<exists>nm'. rerank (reordered (full_order nm) nm) = Some nm' \<and> order_ok nm' \<and> names_ok E nm' \<and> same_names nm nm'"
proof -
  obtain nm' where nm': "rerank (reordered (full_order nm) nm) = Some nm'" "order_ok nm'" "names_ok E nm'"
    using reordered_rerank[OF assms] by blast
  then show ?thesis using rerank_same[OF nm'(1)] by (simp add: same_names_def reordered_def)
qed

lemma vol_ok_names:
  assumes ok: "vol_ok E V" and nm: "names_ok E nm" "order_ok nm" "same_names (v_names V) nm"
  shows "vol_ok E (V\<lparr>v_names := nm\<rparr>)" "ents (V\<lparr>v_names := nm\<rparr>) = ents V" "vroom E ns (V\<lparr>v_names := nm\<rparr>) = vroom E ns V"
proof -
  note D = vol_okD[OF ok] and F = same_names_fields[OF nm(3)]
  have "core E (V\<lparr>v_names := nm\<rparr>) {} {} {} {}" by (rule names_core[OF D(1)]) (use nm F in \<open>simp_all add: same_names_def\<close>)
  moreover have "links_ok (V\<lparr>v_names := nm\<rparr>) {}" by (rule links_ok_cong[OF D(2)]) simp_all
  ultimately show "vol_ok E (V\<lparr>v_names := nm\<rparr>)" using D(3) by (simp add: vol_ok_def suspects_ok_def)
  show "ents (V\<lparr>v_names := nm\<rparr>) = ents V" using F by (simp add: ents_def entry_at_def fun_eq_iff)
  show "vroom E ns (V\<lparr>v_names := nm\<rparr>) = vroom E ns V" using nm(3) by (simp add: vroom_def same_names_def)
qed

lemma retain_known_ok: "vol_ok E V \<Longrightarrow> retain_known V fs = Some (filter (\<lambda>f. links_of V f \<noteq> {}) fs)"
proof (induction fs)
  case (Cons f fs)
  show ?case by (rule head_of_links[OF Cons.prems, of f]) (use Cons in auto)
qed simp

lemma keep_suspects_ok:
  assumes "core E V Xs Xr Xc Xd" "set is \<subseteq> {..<slots V}"
  shows "\<exists>ks. keep_suspects V is = Some ks \<and> set ks \<subseteq> set is"
  using assms(2)
proof (induction "is")
  case (Cons i "is")
  note D = coreD[OF assms(1)]
  have i: "i < slots V" using Cons.prems by simp
  have p: "t_parent (v_entries V) i = Some (par V i)" using i cols_lengths(3)[OF D(2)] by (simp add: t_parent_def)
  have "par V i = NIL \<or> par V i \<in> live V" using D(14)[OF i] by blast
  then obtain b where "is_at_or_below V (par V i) i = Some b" using at_or_below_total[OF assms(1)] unfolding is_at_or_below_def by blast
  moreover obtain ks where "keep_suspects V is = Some ks" "set ks \<subseteq> set is" using Cons by auto
  ultimately show ?case using p by auto
qed simp

lemma prune_ok:
  assumes ok: "vol_ok E V"
  shows "\<exists>V'. prune_cycle_suspects V = Some V' \<and> vol_ok E V' \<and> ents V' = ents V \<and> (\<forall>ns. vroom E ns V' = vroom E ns V)"
proof -
  obtain ks where ks: "keep_suspects V (v_cycle_suspects V) = Some ks" "set ks \<subseteq> set (v_cycle_suspects V)"
    using keep_suspects_ok[OF vol_okD(1)[OF ok]] vol_okD(3)[OF ok] unfolding suspects_ok_def by blast
  have "vol_ok E (V\<lparr>v_cycle_suspects := ks\<rparr>)" by (rule vol_ok_cong[OF ok]) (use ks(2) in simp_all)
  then show ?thesis using ks(1) ents_cong[of "V\<lparr>v_cycle_suspects := ks\<rparr>" V] by (simp add: prune_cycle_suspects_def vroom_def)
qed

lemma apply_batch_ok:
  assumes ok: "vol_ok E V" and room: "vroom E (concat (map op_names (concat (map ops_for records))) @ ns) V"
  shows "\<exists>out V'. apply_batch E records V = Some (out, V') \<and> vol_ok E V' \<and> vroom E ns V' \<and>
    set (ao_needs_stat out) \<subseteq> {f. links_of V' f \<noteq> {}}"
proof -
  obtain out V1 where V1: "apply_ops E (concat (map ops_for records)) (outcome_default, V) = Some (out, V1)" "vol_ok E V1" "vroom E ns V1"
    using apply_ops_ok[OF ok room] by blast
  have "\<exists>V2. (if wants_merge (v_names V1) then on_names merge_unranked V1 else Some V1) = Some V2 \<and> vol_ok E V2 \<and> vroom E ns V2"
  proof (cases "wants_merge (v_names V1)")
    case True
    have D: "names_ok E (v_names V1)" "order_ok (v_names V1)" using coreD(3,4)[OF vol_okD(1)[OF V1(2)]] .
    obtain nm where nm: "merge_unranked (v_names V1) = Some nm" "order_ok nm" "names_ok E nm" "same_names (v_names V1) nm"
      using reorder_spec[OF D(1)] merge_unranked_eq[OF D] build_order_eq[OF D(1)] by metis
    then show ?thesis using True vol_ok_names[OF V1(2) nm(3,2,4)] V1(3) by (simp add: on_names_def)
  next
    case False
    then show ?thesis using V1(2,3) by simp
  qed
  then obtain V2 where V2: "(if wants_merge (v_names V1) then on_names merge_unranked V1 else Some V1) = Some V2" "vol_ok E V2" "vroom E ns V2" by blast
  obtain V3 where V3: "prune_cycle_suspects V2 = Some V3" "vol_ok E V3" "ents V3 = ents V2" "vroom E ns V3"
    using prune_ok[OF V2(2)] V2(3) by blast
  let ?V = "V3\<lparr>v_generation := v_generation V3 + 1\<rparr>"
  have "vol_ok E ?V" by (rule vol_ok_cong[OF V3(2)]) simp_all
  moreover have "vroom E ns ?V" using V3(4) by (simp add: vroom_def)
  moreover have "links_of ?V f = links_of V2 f" for f
  proof -
    have "v_lost_found ?V = v_lost_found V2"
      using V3(1) by (auto simp: prune_cycle_suspects_def split: Option.bind_splits)
    then show ?thesis using V3(3) ents_cong[of ?V V3] unfolding links_of_ents by simp
  qed
  ultimately show ?thesis
    using V1(1) V2(1) retain_known_ok[OF V2(2), of "ao_needs_stat out"] V3(1) by (auto simp: apply_batch_def Let_def)
qed

lemma frn_map_change_ok:
  assumes ok: "vol_ok E V" and m: "frn_get m = frn_get (v_by_frn V)" "frn_map_ok m"
  shows "vol_ok E (V\<lparr>v_by_frn := m\<rparr>)"
proof -
  note D = vol_okD[OF ok]
  let ?V = "V\<lparr>v_by_frn := m\<rparr>"
  have "core E ?V {} {} {} {}" by (rule core_cong[OF D(1)]) simp_all
  moreover have "links_ok ?V {}"
    by (rule links_ok_frame[OF D(2)]) (use m core_next_link[OF D(1)] in \<open>simp_all add: rec_set_def\<close>)
  ultimately show ?thesis using D(3) by (simp add: vol_ok_def suspects_ok_def)
qed

section \<open>Publication\<close>

lemma optimize_storage_ok:
  assumes ok: "vol_ok E V"
  shows "\<exists>V'. optimize_storage cap V = Some V' \<and> vol_ok E V' \<and> ents V' = ents V \<and> (\<forall>ns. vroom E ns V' = vroom E ns V)"
proof -
  define V1 where "V1 = V\<lparr>v_by_frn := densify_if_smaller cap (v_by_frn V)\<rparr>"
  have fm: "frn_map_ok (v_by_frn V)" using vol_okD(2)[OF ok] by (simp add: links_ok_def)
  have ok1: "vol_ok E V1" using frn_map_change_ok[OF ok] frn_densify[OF fm] by (simp add: V1_def)
  have n1: "names_ok E (v_names V1)" using coreD(3)[OF vol_okD(1)[OF ok1]] .
  obtain nm where nm: "build_order (v_names V1) = Some nm" "order_ok nm" "names_ok E nm" "same_names (v_names V1) nm"
    using reorder_spec[OF n1] build_order_eq[OF n1] by metis
  define V2 where "V2 = V1\<lparr>v_names := nm\<rparr>"
  note N = vol_ok_names[OF ok1 nm(3,2,4), folded V2_def]
  obtain V3 where V3: "prune_cycle_suspects V2 = Some V3" "vol_ok E V3" "ents V3 = ents V2" "\<forall>ns. vroom E ns V3 = vroom E ns V2"
    using prune_ok[OF N(1)] by blast
  have "optimize_storage cap V = Some V3" using nm(1) V3(1) by (simp add: optimize_storage_def V1_def[symmetric] on_names_def V2_def[symmetric])
  moreover have "ents V3 = ents V" using V3(3) N(2) ents_cong[of V1 V] by (simp add: V1_def)
  moreover have "vroom E ns V3 = vroom E ns V" for ns using V3(4) N(3) by (simp add: V1_def vroom_def)
  ultimately show ?thesis using V3(2) by blast
qed

section \<open>Compaction\<close>

lemma remap_entries_spec:
  assumes "distinct ids" "set ids \<subseteq> {..<length (et_flags t)}" "length (et_name_id t) = length (et_flags t)"
    "\<And>j. j \<in> set ids \<Longrightarrow> j \<in> live_of (et_flags t) \<Longrightarrow> et_name_id t ! j < length remap"
  shows "\<exists>ns. remap_entries remap ids t = Some (t\<lparr>et_name_id := ns\<rparr>) \<and> length ns = length (et_flags t) \<and>
    (\<forall>j < length (et_flags t). ns ! j = (if j \<in> set ids \<and> j \<in> live_of (et_flags t) then remap ! (et_name_id t ! j) else et_name_id t ! j))"
  using assms
proof (induction ids arbitrary: t)
  case Nil
  then show ?case by (auto intro: exI[of _ "et_name_id t"])
next
  case (Cons i ids)
  have i: "i < length (et_flags t)" using Cons.prems by simp
  have tomb: "is_tombstone t i = Some (i \<notin> live_of (et_flags t))" using i by (simp add: is_tombstone_def live_of_def)
  define t1 where "t1 = (if i \<in> live_of (et_flags t) then t\<lparr>et_name_id := (et_name_id t)[i := remap ! (et_name_id t ! i)]\<rparr> else t)"
  have t1: "et_flags t1 = et_flags t" "length (et_name_id t1) = length (et_flags t)" "t\<lparr>et_name_id := ns\<rparr> = t1\<lparr>et_name_id := ns\<rparr>"
      "\<And>j. j < length (et_flags t) \<Longrightarrow> et_name_id t1 ! j = (if j = i \<and> i \<in> live_of (et_flags t) then remap ! (et_name_id t ! i) else et_name_id t ! j)" for ns
    using Cons.prems(3) i by (simp_all add: t1_def nth_list_update)
  have "distinct ids" "set ids \<subseteq> {..<length (et_flags t1)}" "length (et_name_id t1) = length (et_flags t1)" using Cons.prems t1 by auto
  moreover have "et_name_id t1 ! j < length remap" if "j \<in> set ids" "j \<in> live_of (et_flags t1)" for j
  proof -
    have "j \<noteq> i" using that Cons.prems(1) by auto
    then have "et_name_id t1 ! j = et_name_id t ! j" by (simp add: t1_def)
    then show ?thesis using Cons.prems(4)[of j] that t1(1) by simp
  qed
  ultimately obtain ns where ns: "remap_entries remap ids t1 = Some (t1\<lparr>et_name_id := ns\<rparr>)" "length ns = length (et_flags t1)"
      "\<forall>j < length (et_flags t1). ns ! j = (if j \<in> set ids \<and> j \<in> live_of (et_flags t1) then remap ! (et_name_id t1 ! j) else et_name_id t1 ! j)"
    using Cons.IH[of t1] by blast
  have "remap_entries remap (i # ids) t = remap_entries remap ids t1"
    using tomb i Cons.prems(3) Cons.prems(4)[of i] by (simp add: t1_def t_name_id_def t_set_name_id_def)
  moreover have "ns ! j = (if j \<in> set (i # ids) \<and> j \<in> live_of (et_flags t) then remap ! (et_name_id t ! j) else et_name_id t ! j)"
    if j: "j < length (et_flags t)" for j
    using ns(3) t1(1) t1(4)[OF j] j Cons.prems(1) by auto
  ultimately show ?case using ns(1,2) t1(1,3) by auto
qed

lemma chains_ok_rekey:
  assumes ok: "chains_ok hds nx pv key S" and L: "\<And>i. i \<in> S \<Longrightarrow> key i \<in> L" "inj_on g L"
    and onto: "{..<length hds'} = g ` L" and hd: "\<And>k. k \<in> L \<Longrightarrow> k < length hds \<and> hds' ! g k = hds ! k"
  shows "chains_ok hds' nx pv (\<lambda>i. g (key i)) S"
  unfolding chains_ok_def
proof (intro conjI allI impI)
  show "length nx \<le> NIL" "length pv = length nx" "S \<subseteq> {..<length nx}" using ok by (simp_all add: chains_ok_def)
  show "\<forall>i \<in> S. g (key i) < length hds'" using L(1) onto by blast
  fix k' assume "k' < length hds'"
  then obtain k where k: "k \<in> L" "k' = g k" using onto by blast
  obtain xs where xs: "seg nx pv NIL (hds ! k) NIL xs" "distinct xs" "set xs = {i \<in> S. key i = k}"
    using chains_ok_chain[OF ok] hd[OF k(1)] by blast
  have "{i \<in> S. g (key i) = k'} = {i \<in> S. key i = k}" using L k by (auto simp: inj_on_def)
  then show "\<exists>xs. seg nx pv NIL (hds' ! k') NIL xs \<and> distinct xs \<and> set xs = {i \<in> S. g (key i) = k'}" using xs hd[OF k(1)] k(2) by auto
qed

lemma rename_ids_core:
  assumes core: "core E V {} {} {} {}" and nm: "names_ok E nm" "order_ok nm"
    and g: "inj_on g L" "{..<length (ns_pairs nm)} = g ` L" "L = names_live (v_names V)"
    and keep: "\<And>k. k \<in> L \<Longrightarrow> folded_of nm (g k) = folded_of (v_names V) k \<and> ns_refcount nm ! g k = ns_refcount (v_names V) ! k \<and>
      ns_head nm ! g k = ns_head (v_names V) ! k"
    and ids: "length ids = slots V" "\<And>j. j \<in> live V \<Longrightarrow> ids ! j = g (nid V j)"
  shows "core E (V\<lparr>v_names := nm, v_entries := (v_entries V)\<lparr>et_name_id := ids\<rparr>\<rparr>) {} {} {} {}"
proof -
  note D = coreD[OF core]
  let ?V = "V\<lparr>v_names := nm, v_entries := (v_entries V)\<lparr>et_name_id := ids\<rparr>\<rparr>"
  have jL: "nid V j \<in> L" if "j \<in> live V" for j using refs_live(1)[OF core] that g(3) by simp
  have len: "length (ns_refcount nm) = length (ns_pairs nm)" "length (ns_head nm) = length (ns_pairs nm)" using nm(1) by (simp_all add: names_ok_def)
  have lenV: "length (ns_head (v_names V)) = length (ns_refcount (v_names V))" using D(3) by (simp add: names_ok_def)
  have Lr: "k < length (ns_refcount (v_names V))" if "k \<in> L" for k using that g(3) by (simp add: names_live_def)
  have "cols_ok (v_entries ?V)" using D(2) ids(1) by (simp add: cols_ok_def Let_def)
  then have tk: "table_ok (v_entries ?V)" using table_ok_cong[OF D(1)] by simp
  have sets: "live ?V = live V" "kids ?V = kids V" "dirs ?V = dirs V" "par ?V = par V" by (simp_all add: kids_def dirs_def dirent_def)
  have "same_ok ?V (live V)"
  proof -
    have ch: "chains_ok (ns_head (v_names V)) (et_next_same (v_entries V)) (et_prev_same (v_entries V)) (nid V) (live V)"
      using D(5) by (simp add: same_ok_def)
    have "chains_ok (ns_head nm) (et_next_same (v_entries V)) (et_prev_same (v_entries V)) (\<lambda>i. g (nid V i)) (live V)"
      by (rule chains_ok_rekey[OF ch jL g(1)]) (use g(2) len lenV Lr keep in auto)
    then have "chains_ok (ns_head nm) (et_next_same (v_entries V)) (et_prev_same (v_entries V)) (nid ?V) (live V)"
      by (rule chains_ok_cong) (use ids(2) in auto)
    then show ?thesis by (simp add: same_ok_def)
  qed
  moreover have "refs_ok ?V (live V)"
    unfolding refs_ok_def
  proof (intro conjI ballI allI impI)
    show "nid ?V j < length (ns_refcount (v_names ?V))" if "j \<in> live V" for j
      using that jL[OF that] ids(2) g(2) len by auto
    fix n assume "n < length (ns_refcount (v_names ?V))"
    then obtain k where k: "k \<in> L" "n = g k" using g(2) len by auto
    have "{j \<in> live V. nid ?V j = n} = {j \<in> live V. nid V j = k}" using ids(2) jL k g(1) by (auto simp: inj_on_def)
    then show "ns_refcount (v_names ?V) ! n = card {j \<in> live V. nid ?V j = n}"
      using keep[OF k(1)] k D(6) Lr[OF k(1)] by (simp add: refs_ok_def)
  qed
  moreover have "dir_ok E ?V (dirs V)"
  proof -
    have "dkey E ?V j = dkey E V j" if "j \<in> dirs V" for j
      using that ids(2) keep jL by (simp add: dkey_def dirs_def)
    then have "{j \<in> dirs V. dkey E ?V j = k} = {j \<in> dirs V. dkey E V j = k}" for k by auto
    then show ?thesis using D(8) by (simp add: dir_ok_def)
  qed
  moreover have "child_ok ?V (kids V)" using D(7) by (simp add: child_ok_def)
  ultimately show ?thesis using D(10,11,14) tk nm unfolding core_def sets by simp
qed

lemma apply_compaction_ok:
  assumes ok: "vol_ok E V" and plan: "plan_compaction V = Some (Some c)"
  shows "\<exists>V'. apply_compaction E c V = Some V' \<and> vol_ok E V' \<and> ents V' = ents V"
proof -
  note D = coreD[OF vol_okD(1)[OF ok]]
  let ?nm = "v_names V"
  have pc: "plan_compact ?nm = Some c" using plan by (auto simp: plan_compaction_def split: if_splits)
  obtain c' where "plan_compact ?nm = Some c'" and inv': "plan_inv ?nm (length (ns_pairs ?nm)) c'" by (rule plan_compact_spec[OF D(3)])
  then have inv: "plan_inv ?nm (length (ns_pairs ?nm)) c" using pc by simp
  obtain ranks where ins: "install_compacted E c ?nm = Some (cn_remap c, swapped E c ?nm\<lparr>ns_rank_of := ranks\<rparr>)"
    and ok': "names_ok E (swapped E c ?nm\<lparr>ns_rank_of := ranks\<rparr>)" "order_ok (swapped E c ?nm\<lparr>ns_rank_of := ranks\<rparr>)"
    by (rule install_spec[OF D(3,4) inv])
  define nm where "nm = swapped E c ?nm\<lparr>ns_rank_of := ranks\<rparr>"
  note full = plan_full[OF D(3) inv] and re = remap_live[OF D(3) inv]
  have same: "raw_of nm = raw_of (swapped E c ?nm)" "folded_of nm = folded_of (swapped E c ?nm)" "ns_refcount nm = ns_refcount (swapped E c ?nm)"
      "ns_head nm = ns_head (swapped E c ?nm)" "ns_pairs nm = cn_pairs c"
    by (simp_all add: nm_def raw_of_def folded_of_def fun_eq_iff swapped_def)
  have nl: "length (cn_remap c) = length (ns_pairs ?nm)" using inv by (simp add: plan_inv_def)
  have jl: "nid V j \<in> names_live ?nm" "nid V j < length (ns_pairs ?nm)" if "j \<in> live V" for j
    using refs_live(1,2)[OF vol_okD(1)[OF ok], of j] that by simp_all
  have cap: "as_u32 (table_capacity (v_entries V)) = slots V"
    using cols_lengths(1,2)[OF D(2)] by (simp add: table_capacity_def as_u32_def NIL_def)
  obtain ids where ids: "remap_entries (cn_remap c) [0..<slots V] (v_entries V) = Some ((v_entries V)\<lparr>et_name_id := ids\<rparr>)" "length ids = slots V"
      "\<And>j. j < slots V \<Longrightarrow> ids ! j = (if j \<in> live V then cn_remap c ! nid V j else nid V j)"
    using remap_entries_spec[of "[0..<slots V]" "v_entries V" "cn_remap c"] cols_lengths(4)[OF D(2)] jl nl
    by (auto simp: atLeast0LessThan)
  have idl: "ids ! j = new_id ?nm (nid V j)" if "j \<in> live V" for j
    using ids(3)[of j] re(1)[OF jl(2)[OF that]] jl(1)[OF that] live_of_less[OF that] that by simp
  define V' where "V' = V\<lparr>v_names := nm, v_entries := (v_entries V)\<lparr>et_name_id := ids\<rparr>\<rparr>"
  have "core E V' {} {} {} {}"
    unfolding V'_def
  proof (rule rename_ids_core[OF vol_okD(1)[OF ok], where g = "new_id ?nm" and L = "names_live ?nm"])
    show "inj_on (new_id ?nm) (names_live ?nm)" by (auto simp: inj_on_def new_id_eq)
  qed (use ok' ids(2) idl full same in \<open>simp_all add: nm_def\<close>)
  moreover have "links_ok V' {}"
    by (rule links_ok_frame[OF vol_okD(2)[OF ok]])
      (use core_next_link[OF vol_okD(1)[OF ok]] vol_okD(2)[OF ok] in \<open>simp_all add: V'_def rec_set_def links_ok_def\<close>)
  moreover have "suspects_ok V'" using vol_okD(3)[OF ok] by (simp add: V'_def suspects_ok_def)
  moreover have "apply_compaction E c V = Some V'" using ins ids(1) by (simp add: apply_compaction_def cap V'_def nm_def)
  moreover have "ents V' = ents V"
  proof -
    have "entry_at V' j = entry_at V j" if "j \<in> live V" for j
      using idl[OF that] full(1)[OF jl(1)[OF that]] same(1) by (simp add: entry_at_def V'_def)
    then show ?thesis by (auto simp: ents_def fun_eq_iff V'_def)
  qed
  ultimately show ?thesis unfolding vol_ok_def by blast
qed

end
