(* ===== verification/Volume_Read.thy ===== *)
theory Volume_Read
  imports Volume_Batch
begin

text \<open>
  Reading an index: the iterators over a name's entries, a folder's children and a subtree yield
  exactly the entries they promise, a scope lookup finds a folder by name whatever the hash, and a
  path is the names on the way from the top.
\<close>

section \<open>Iterating a chain\<close>

text \<open>An iterator that follows one column of links from a head until \<^const>\<open>NIL\<close>.\<close>

locale chain_iter =
  fixes nxt :: "entry_table \<Rightarrow> entry_idx \<Rightarrow> entry_idx option"
    and column :: "entry_table \<Rightarrow> entry_idx list"
    and walk :: "entry_table \<Rightarrow> entry_idx \<Rightarrow> entry_idx list option"
  assumes nxt_at: "nxt t i = idx (column t) i"
    and walk_unfold: "walk t cur = (if cur = NIL then Some [] else do { nx \<leftarrow> nxt t cur; rest \<leftarrow> walk t nx; Some (cur # rest) })"
begin

lemma walk_lseg: "lseg (column t) h xs \<Longrightarrow> walk t h = Some xs"
proof (induction xs arbitrary: h)
  case Nil
  then show ?case by (subst walk_unfold) simp
next
  case (Cons x xs)
  then show ?case by (subst walk_unfold) (simp add: nxt_at)
qed

lemma walk_chains:
  assumes "chains_ok hds (column t) pv key S" "k < length hds"
  shows "\<exists>xs. walk t (hds ! k) = Some xs \<and> distinct xs \<and> set xs = {i \<in> S. key i = k}"
  using assms by (rule chains_ok_chain) (metis walk_lseg seg_lseg)

end

interpretation same_iter: chain_iter t_next_same et_next_same same_name_from
  by unfold_locales (simp_all add: t_next_same_def same_name_from.simps)

interpretation child_iter: chain_iter t_next_child et_next_child children_from
  by unfold_locales (simp_all add: t_next_child_def children_from.simps)

interpretation link_iter: chain_iter t_next_link et_next_link collect_chain
  by unfold_locales (simp_all add: t_next_link_def collect_chain.simps)

lemma nid_raw:
  assumes "vol_ok E V" "i \<in> live V" "n \<in> names_live (v_names V)"
  shows "raw_of (v_names V) (nid V i) = raw_of (v_names V) n \<longleftrightarrow> nid V i = n"
  using refs_live(1)[OF vol_okD(1)[OF assms(1)], of i] coreD(3)[OF vol_okD(1)[OF assms(1)]] assms(2,3)
  by (auto simp: names_ok_def dest: inj_onD)

lemma name_chain_spec:
  assumes "vol_ok E V" "n < length (ns_pairs (v_names V))"
  shows "\<exists>xs. name_chain V n = Some xs \<and> distinct xs \<and> set xs = {i \<in> live V. nid V i = n} \<and> length xs = ns_refcount (v_names V) ! n"
proof -
  note D = coreD[OF vol_okD(1)[OF assms(1)]]
  have l: "n < length (ns_head (v_names V))" "n < length (ns_refcount (v_names V))" using D(3) assms(2) by (simp_all add: names_ok_def)
  obtain xs where xs: "same_name_from (v_entries V) (ns_head (v_names V) ! n) = Some xs" "distinct xs" "set xs = {i \<in> live V. nid V i = n}"
    using same_iter.walk_chains[OF D(5)[unfolded same_ok_def] l(1)] by auto
  have "ns_refcount (v_names V) ! n = length xs"
    using D(6) l(2) distinct_card[OF xs(2)] unfolding refs_ok_def Diff_empty xs(3) by simp
  then show ?thesis using xs l(1) by (simp add: name_chain_def chain_head_def)
qed

lemma children_spec:
  assumes "vol_ok E V" "d \<in> live V"
  shows "\<exists>xs. children V d = Some xs \<and> lseg (et_next_child (v_entries V)) (et_first_child (v_entries V) ! d) xs \<and>
    distinct xs \<and> set xs = {i \<in> live V. par V i = d}"
proof -
  note D = coreD[OF vol_okD(1)[OF assms(1)]]
  have l: "d < length (et_first_child (v_entries V))" "d \<noteq> NIL" using D(12,13)[OF assms(2)] cols_lengths(10)[OF D(2)] by auto
  obtain xs where xs: "seg (et_next_child (v_entries V)) (et_prev_child (v_entries V)) NIL (et_first_child (v_entries V) ! d) NIL xs"
    "distinct xs" "set xs = {i \<in> kids V - {}. par V i = d}"
    by (rule chains_ok_chain[OF D(7)[unfolded child_ok_def] l(1)]) blast
  have "set xs = {i \<in> live V. par V i = d}" using xs(3) l(2) by (auto simp: kids_def)
  then show ?thesis using xs(2) seg_lseg[OF xs(1)] child_iter.walk_lseg[OF seg_lseg[OF xs(1)]] l(1)
    by (simp add: children_def t_first_child_def)
qed

section \<open>A folder by name\<close>

lemma find_dir_spec:
  assumes "\<And>d. d \<in> set ds \<Longrightarrow> folded_name V d = Some (g d)"
  shows "find_dir V f ds = Some (find (\<lambda>d. g d = f) ds)"
  using assms by (induction ds) auto

lemma child_dir_spec:
  assumes ok: "vol_ok E V"
  shows "\<exists>r. child_dir E V p f = Some r \<and>
    (case r of None \<Rightarrow> \<nexists>d. d \<in> dirs V \<and> par V d = p \<and> e_fold E (raw_of (v_names V) (nid V d)) = f
     | Some d \<Rightarrow> d \<in> dirs V \<and> par V d = p \<and> e_fold E (raw_of (v_names V) (nid V d)) = f)"
proof -
  note D = coreD[OF vol_okD(1)[OF ok]]
  let ?g = "\<lambda>d. folded_of (v_names V) (nid V d)"
  have g: "?g d = e_fold E (raw_of (v_names V) (nid V d))" if "d \<in> dirs V" for d
    using refs_live(1)[OF vol_okD(1)[OF ok], of d] that D(3) by (simp add: dirs_def names_ok_def)
  have fn: "folded_name V d = Some (?g d)" if "d \<in> dirs V" for d
    using folded_name_at(1)[OF vol_okD(1)[OF ok], of d] that by (simp add: dirs_def)
  have sl: "slot_ok {d \<in> dirs V. dkey E V d = (p, dir_key_hash E f)} (v_dir_children V (p, dir_key_hash E f))"
    using D(8) unfolding dir_ok_def Diff_empty by blast
  have key: "dkey E V d = (p, dir_key_hash E f)" if "par V d = p" "?g d = f" for d using that by (simp add: dkey_def)
  show ?thesis
  proof (cases "v_dir_children V (p, dir_key_hash E f)")
    case None
    then have "\<nexists>d. d \<in> dirs V \<and> par V d = p \<and> ?g d = f" using sl key by (auto simp: slot_ok_def)
    then show ?thesis using None g by (auto simp: child_dir_def)
  next
    case (Some ds)
    then have ds: "set ds = {d \<in> dirs V. dkey E V d = (p, dir_key_hash E f)}" using sl by (simp add: slot_ok_def)
    have eq: "child_dir E V p f = Some (find (\<lambda>d. ?g d = f) ds)"
      using Some find_dir_spec[of ds V ?g f] fn ds by (simp add: child_dir_def)
    show ?thesis
    proof (cases "find (\<lambda>d. ?g d = f) ds")
      case None
      then have "\<nexists>d. d \<in> dirs V \<and> par V d = p \<and> ?g d = f" using ds key by (auto simp: find_None_iff)
      then show ?thesis using eq None g by auto
    next
      case (Some d)
      then have "d \<in> set ds" "?g d = f" by (auto simp: find_Some_iff)
      then show ?thesis using eq Some ds g by (auto simp: dkey_def)
    qed
  qed
qed

section \<open>Walking a subtree\<close>

text \<open>The iterator as the list it yields.\<close>

partial_function (option) walk_from :: "entry_table \<Rightarrow> subtree_walk \<Rightarrow> entry_idx list option" where
  "walk_from t w = do { (y, w') \<leftarrow> subtree_next t w; case y of None \<Rightarrow> Some [] | Some i \<Rightarrow> do { rest \<leftarrow> walk_from t w'; Some (i # rest) } }"

text \<open>The parent relation, and what lies strictly under a folder.\<close>

definition child_rel :: "volume \<Rightarrow> (entry_idx \<times> entry_idx) set" where
  "child_rel V = {(c, p). c \<in> live V \<and> par V c = p \<and> p \<noteq> NIL}"

definition below :: "volume \<Rightarrow> entry_idx \<Rightarrow> entry_idx set" where
  "below V d = {i. (i, d) \<in> (child_rel V)\<^sup>+}"

text \<open>The preorder of the chain of siblings that starts at \<open>h\<close>, under the parent \<open>p\<close>.\<close>

inductive forest :: "entry_table \<Rightarrow> entry_idx \<Rightarrow> entry_idx \<Rightarrow> entry_idx list \<Rightarrow> bool" for t where
  forest_nil: "forest t p NIL []"
| forest_cons: "h \<noteq> NIL \<Longrightarrow> h < length (et_flags t) \<Longrightarrow> et_parent t ! h = p \<Longrightarrow>
    forest t h (et_first_child t ! h) xs \<Longrightarrow> forest t p (et_next_child t ! h) ys \<Longrightarrow> forest t p h (h # xs @ ys)"

text \<open>Where the walk continues once the chain under \<open>p\<close> is exhausted.\<close>

definition leave :: "entry_table \<Rightarrow> entry_idx \<Rightarrow> entry_idx \<Rightarrow> nat \<Rightarrow> (entry_idx \<times> nat) option" where
  "leave t root p k = (if k \<le> 1 then Some (NIL, k) else if p = root \<or> p = NIL then Some (NIL, k - 1) else climb t root p (k - 1))"

declare climb.simps [simp del]

lemma climb_leave:
  assumes "cols_ok t" "at < length (et_flags t)"
  shows "climb t root at k = (if et_next_child t ! at \<noteq> NIL then Some (et_next_child t ! at, k) else leave t root (et_parent t ! at) k)"
  using assms(2) cols_lengths(3,11)[OF assms(1)]
  by (subst climb.simps) (auto simp: t_next_child_def t_parent_def leave_def split: nat.splits)

lemma walk_end: "walk_from t \<lparr>sw_root = root, sw_cur = NIL, sw_depth = k\<rparr> = Some []"
  by (subst walk_from.simps) (simp add: subtree_next_def)

lemma walk_forest:
  assumes "forest t p h xs" "cols_ok t" "root \<notin> set xs" "h \<noteq> NIL" "0 < k"
  shows "walk_from t \<lparr>sw_root = root, sw_cur = h, sw_depth = k\<rparr> =
    do { (c, d) \<leftarrow> leave t root p k; rest \<leftarrow> walk_from t \<lparr>sw_root = root, sw_cur = c, sw_depth = d\<rparr>; Some (xs @ rest) }"
  using assms
proof (induction arbitrary: k rule: forest.induct)
  case (forest_cons h p xs ys)
  let ?w = "\<lambda>c k. \<lparr>sw_root = root, sw_cur = c, sw_depth = k\<rparr>"
  have h: "h < length (et_first_child t)" using forest_cons.hyps(2) cols_lengths(10)[OF forest_cons.prems(1)] by simp
  have after: "do { (c, d) \<leftarrow> climb t root h k; rest \<leftarrow> walk_from t (?w c d); Some (zs @ rest) } =
    do { (c, d) \<leftarrow> leave t root p k; rest \<leftarrow> walk_from t (?w c d); Some (zs @ ys @ rest) }" for zs
  proof (cases "et_next_child t ! h = NIL")
    case True
    then have "ys = []" using forest_cons.hyps(5) by (auto elim: forest.cases)
    then show ?thesis using True climb_leave[OF forest_cons.prems(1) forest_cons.hyps(2), of root k] forest_cons.hyps(3) by simp
  next
    case False
    then show ?thesis
      using climb_leave[OF forest_cons.prems(1) forest_cons.hyps(2), of root k] forest_cons.IH(2)[OF forest_cons.prems(1) _ False forest_cons.prems(4)]
        forest_cons.prems(2)
      by (cases "leave t root p k") (simp_all add: split_def Option.bind_assoc)
  qed
  show ?case
  proof (cases "et_first_child t ! h = NIL")
    case True
    then have "xs = []" using forest_cons.hyps(4) by (auto elim: forest.cases)
    then show ?thesis using after[of "[h]"] True h forest_cons.hyps(1)
      by (subst walk_from.simps) (simp add: subtree_next_def t_first_child_def split_def)
  next
    case False
    have "leave t root h (k + 1) = climb t root h k" using forest_cons.prems(2,4) forest_cons.hyps(1) by (auto simp: leave_def)
    then show ?thesis using after[of "h # xs"] False h forest_cons.hyps(1) forest_cons.IH(1)[OF forest_cons.prems(1) _ False, of "k + 1"] forest_cons.prems(2)
      by (subst walk_from.simps) (simp add: subtree_next_def t_first_child_def split_def)
  qed
qed simp

text \<open>A folder not below itself has no cycle below it: every entry has one parent.\<close>

lemma child_rel_single: "(x, y) \<in> child_rel V \<Longrightarrow> (x, z) \<in> child_rel V \<Longrightarrow> y = z"
  by (simp add: child_rel_def)

lemma cycle_up:
  assumes "(x, y) \<in> (child_rel V)\<^sup>+" "(x, x) \<in> (child_rel V)\<^sup>+"
  shows "(y, y) \<in> (child_rel V)\<^sup>+"
proof -
  have step: "(z, z) \<in> (child_rel V)\<^sup>+" if yy: "(y, y) \<in> (child_rel V)\<^sup>+" and yz: "(y, z) \<in> child_rel V" for y z
  proof -
    obtain u where "(y, u) \<in> child_rel V" "(u, y) \<in> (child_rel V)\<^sup>*" using yy by (meson tranclD)
    then show ?thesis using child_rel_single yz by (metis rtrancl_into_trancl1)
  qed
  show ?thesis using assms by (induction rule: trancl_induct) (auto intro: step)
qed

lemma above_linear:
  assumes "(x, y) \<in> (child_rel V)\<^sup>*" "(x, z) \<in> (child_rel V)\<^sup>*"
  shows "(y, z) \<in> (child_rel V)\<^sup>* \<or> (z, y) \<in> (child_rel V)\<^sup>*"
  using assms
proof (induction rule: converse_rtrancl_induct)
  case (step x u)
  from step.prems show ?case
  proof (cases rule: converse_rtranclE)
    case base
    then show ?thesis using step.hyps by (meson converse_rtrancl_into_rtrancl)
  next
    case (step w)
    then show ?thesis using \<open>(x, u) \<in> child_rel V\<close> child_rel_single[of x u V w] \<open>(u, z) \<in> _ \<Longrightarrow> _\<close> by blast
  qed
qed simp

lemma below_live: "below V d \<subseteq> live V"
  by (auto simp: below_def child_rel_def dest!: tranclD)

lemma finite_below: "finite (below V d)"
  by (rule finite_subset[OF below_live]) simp

lemma below_unfold:
  assumes "d \<noteq> NIL"
  shows "below V d = (\<Union>c \<in> {i \<in> live V. par V i = d}. insert c (below V c))"
proof -
  have "(i, d) \<in> (child_rel V)\<^sup>+ \<longleftrightarrow> (\<exists>c. (c, d) \<in> child_rel V \<and> (i, c) \<in> (child_rel V)\<^sup>*)" for i
    by (meson rtrancl_into_trancl1 tranclD2)
  then show ?thesis using assms by (auto simp: below_def child_rel_def rtrancl_eq_or_trancl)
qed

text \<open>The walks of two siblings have nothing in common, unless their folder is below itself.\<close>

lemma below_disjoint:
  assumes "d \<notin> below V d" "(b, d) \<in> child_rel V" "(c, d) \<in> child_rel V" "b \<noteq> c"
  shows "insert b (below V b) \<inter> insert c (below V c) = {}"
proof (rule ccontr)
  assume "\<not> ?thesis"
  then obtain x where "(x, b) \<in> (child_rel V)\<^sup>*" "(x, c) \<in> (child_rel V)\<^sup>*" by (auto simp: below_def rtrancl_eq_or_trancl)
  then have "(b, c) \<in> (child_rel V)\<^sup>+ \<or> (c, b) \<in> (child_rel V)\<^sup>+" using above_linear assms(4) by (metis rtranclD)
  then have "(d, c) \<in> (child_rel V)\<^sup>* \<or> (d, b) \<in> (child_rel V)\<^sup>*" using assms(2,3) child_rel_single by (metis tranclD)
  then show False using assms by (auto simp: below_def intro: rtrancl_into_trancl1)
qed

lemma forest_chain:
  assumes "lseg (et_next_child t) h cs" "cols_ok t"
    "\<And>c. c \<in> set cs \<Longrightarrow> et_parent t ! c = p \<and> forest t c (et_first_child t ! c) (f c)"
  shows "forest t p h (concat (map (\<lambda>c. c # f c) cs))"
  using assms(1,3)
proof (induction cs arbitrary: h)
  case (Cons c cs)
  have "forest t p (et_next_child t ! c) (concat (map (\<lambda>c. c # f c) cs))" using Cons by simp
  moreover have "c < length (et_flags t)" using Cons.prems(1) cols_lengths(11)[OF assms(2)] by simp
  ultimately show ?case using forest_cons[of c t p "f c"] Cons.prems by simp
qed (simp add: forest_nil)

lemma distinct_concat_map:
  assumes "distinct cs" "\<And>c. c \<in> set cs \<Longrightarrow> distinct (g c)"
    "\<And>b c. b \<in> set cs \<Longrightarrow> c \<in> set cs \<Longrightarrow> b \<noteq> c \<Longrightarrow> set (g b) \<inter> set (g c) = {}"
  shows "distinct (concat (map g cs))"
  using assms
proof (induction cs)
  case (Cons c cs)
  have "set (g c) \<inter> (\<Union>b \<in> set cs. set (g b)) = {}" using Cons.prems(1) Cons.prems(3)[of c] by auto
  then show ?case using Cons by simp
qed simp

lemma forest_below:
  assumes "vol_ok E V" "d \<in> live V" "d \<notin> below V d"
  shows "\<exists>xs. forest (v_entries V) d (et_first_child (v_entries V) ! d) xs \<and> distinct xs \<and> set xs = below V d"
  using assms(2,3)
proof (induction "card (below V d)" arbitrary: d rule: less_induct)
  case less
  note D = coreD[OF vol_okD(1)[OF assms(1)]]
  let ?t = "v_entries V"
  obtain cs where cs: "lseg (et_next_child ?t) (et_first_child ?t ! d) cs" "distinct cs" "set cs = {i \<in> live V. par V i = d}"
    using children_spec[OF assms(1) less.prems(1)] by blast
  have dN: "d \<noteq> NIL" using D(13)[OF less.prems(1)] by simp
  have rel: "(c, d) \<in> child_rel V" if "c \<in> set cs" for c using that cs(3) dN by (simp add: child_rel_def)
  have acyc: "c \<notin> below V c" if "c \<in> set cs" for c
    using cycle_up[of c d V] rel[OF that] less.prems(2) by (auto simp: below_def)
  have smaller: "card (below V c) < card (below V d)" if "c \<in> set cs" for c
  proof (rule psubset_card_mono[OF finite_below])
    have "insert c (below V c) \<subseteq> below V d" unfolding below_unfold[OF dN, of V] using that cs(3) by blast
    then show "below V c \<subset> below V d" using acyc[OF that] by blast
  qed
  have "\<forall>c \<in> set cs. \<exists>xs. forest ?t c (et_first_child ?t ! c) xs \<and> distinct xs \<and> set xs = below V c"
    using less.hyps smaller acyc cs(3) by blast
  then obtain f where f: "\<And>c. c \<in> set cs \<Longrightarrow> forest ?t c (et_first_child ?t ! c) (f c) \<and> distinct (f c) \<and> set (f c) = below V c" by metis
  let ?xs = "concat (map (\<lambda>c. c # f c) cs)"
  have "forest ?t d (et_first_child ?t ! d) ?xs" by (rule forest_chain[OF cs(1) D(2)]) (use f cs(3) in blast)
  moreover have "distinct ?xs"
    by (rule distinct_concat_map[OF cs(2)]) (use f acyc below_disjoint[OF less.prems(2)] rel in \<open>simp_all\<close>)
  moreover have "set ?xs = below V d" unfolding below_unfold[OF dN, of V] using f cs(3) by auto
  ultimately show ?case by blast
qed

lemma subtree_spec:
  assumes "vol_ok E V" "d \<in> live V" "d \<notin> below V d"
  shows "\<exists>w xs. subtree_entries V d = Some w \<and> walk_from (v_entries V) w = Some xs \<and> distinct xs \<and> set xs = below V d"
proof -
  note D = coreD[OF vol_okD(1)[OF assms(1)]]
  obtain xs where xs: "forest (v_entries V) d (et_first_child (v_entries V) ! d) xs" "distinct xs" "set xs = below V d"
    using forest_below[OF assms] by blast
  let ?w = "\<lparr>sw_root = d, sw_cur = et_first_child (v_entries V) ! d, sw_depth = 1\<rparr>"
  have w: "subtree_entries V d = Some ?w"
    using D(12)[OF assms(2)] cols_lengths(10)[OF D(2)] by (simp add: subtree_entries_def t_first_child_def)
  have "walk_from (v_entries V) ?w = Some xs"
  proof (cases "et_first_child (v_entries V) ! d = NIL")
    case True
    then show ?thesis using xs(1) walk_end by (auto elim: forest.cases)
  next
    case False
    then show ?thesis using walk_forest[OF xs(1) D(2) _ False, of d 1] xs(3) assms(3) walk_end by (simp add: leave_def)
  qed
  then show ?thesis using w xs by blast
qed

section \<open>Paths\<close>

text \<open>The names from the top down, one separator between two of them.\<close>

definition path_text :: "u8 list \<Rightarrow> u8 list list \<Rightarrow> u8 list" where
  "path_text out ns = foldl (\<lambda>p n. (if p = [] then [] else p @ [92]) @ n) out ns"

abbreviation path_names :: "volume \<Rightarrow> entry_idx list \<Rightarrow> u8 list list" where
  "path_names V chain \<equiv> map (\<lambda>j. raw_of (v_names V) (nid V j)) (filter (\<lambda>j. j \<noteq> v_root V) (rev chain))"

lemma lseg_unique: "lseg nx h xs \<Longrightarrow> lseg nx h ys \<Longrightarrow> xs = ys"
proof (induction xs arbitrary: h ys)
  case Nil
  then show ?case by (cases ys) auto
next
  case (Cons x xs)
  then show ?case by (cases ys) auto
qed

lemma lseg_last: "lseg nx h xs \<Longrightarrow> xs \<noteq> [] \<Longrightarrow> nx ! last xs = NIL"
  by (induction xs arbitrary: h) auto

lemma path_chain_lseg:
  assumes "cols_ok (v_entries V)" "lseg (et_parent (v_entries V)) i ys" "i \<noteq> NIL" "length ys \<le> n"
  shows "path_chain V n i = Some ys"
  using assms(2-)
proof (induction n arbitrary: i ys)
  case (Suc n)
  then obtain zs where ys: "ys = i # zs" by (cases ys) auto
  then have "lseg (et_parent (v_entries V)) (par V i) zs" "i < length (et_parent (v_entries V))" using Suc.prems(1) by simp_all
  then show ?case using Suc.IH[of "par V i" zs] Suc.prems(3) ys by (cases zs) (auto simp: t_parent_def)
qed auto

lemma path_chain_total:
  assumes "core E V Xs Xr Xc Xd" "i \<in> live V"
  shows "\<exists>xs. path_chain V (Suc n) i = Some xs \<and> xs \<noteq> [] \<and> set xs \<subseteq> live V \<and>
    (par V (last xs) = NIL \<longrightarrow> lseg (et_parent (v_entries V)) i xs \<and> length xs \<le> Suc n)"
  using assms(2)
proof (induction n arbitrary: i)
  case 0
  have "i < length (et_parent (v_entries V))" "i \<noteq> NIL"
    using coreD(12,13)[OF assms(1) 0] cols_lengths(3)[OF coreD(2)[OF assms(1)]] by simp_all
  then show ?case using 0 by (simp add: t_parent_def)
next
  case (Suc n)
  have i: "i < length (et_parent (v_entries V))" "i \<noteq> NIL"
    using coreD(12,13)[OF assms(1) Suc.prems] cols_lengths(3)[OF coreD(2)[OF assms(1)]] by simp_all
  show ?case
  proof (cases "par V i = NIL")
    case True
    then show ?thesis using Suc.prems i by (simp add: t_parent_def)
  next
    case False
    then have "par V i \<in> live V" using coreD(9)[OF assms(1) Suc.prems] by simp
    then obtain xs where "path_chain V (Suc n) (par V i) = Some xs" "xs \<noteq> []" "set xs \<subseteq> live V"
      "par V (last xs) = NIL \<longrightarrow> lseg (et_parent (v_entries V)) (par V i) xs \<and> length xs \<le> Suc n" using Suc.IH by blast
    then show ?thesis using False Suc.prems i by (simp add: t_parent_def del: path_chain.simps(2) add: path_chain.simps(2)[of V "Suc n"])
  qed
qed

lemma emit_path_spec:
  assumes "core E V {} {} {} {}" "set es \<subseteq> live V"
  shows "emit_path V es out = Some (path_text out (map (\<lambda>j. raw_of (v_names V) (nid V j)) (filter (\<lambda>j. j \<noteq> v_root V) es)))"
  using assms(2)
proof (induction es arbitrary: out)
  case (Cons e es)
  note D = coreD[OF assms(1)]
  have "e < length (et_name_id (v_entries V))" using D(12) cols_lengths(4)[OF D(2)] Cons.prems by simp
  moreover have "raw_bytes (v_names V) (nid V e) = Some (raw_of (v_names V) (nid V e))"
    using names_raw_bytes[OF D(3) refs_live(2)[OF assms(1), of e]] Cons.prems by simp
  ultimately show ?case using Cons by (simp add: t_name_id_def path_text_def)
qed (simp add: path_text_def)

lemma path_of_chain:
  assumes ok: "vol_ok E V" and i: "i \<in> live V"
  obtains ys where "lseg (et_parent (v_entries V)) i ys" "length ys \<le> MAX_PATH_HOPS" "ys \<noteq> []" "set ys \<subseteq> live V"
      "path_of V i out = Some (if last ys = v_lost_found V then InLostFound else PathOk, path_text out (path_names V ys))"
  | "\<nexists>ys. lseg (et_parent (v_entries V)) i ys \<and> length ys \<le> MAX_PATH_HOPS" "path_of V i out = Some (CycleDetected, out)"
proof -
  note core = vol_okD(1)[OF ok]
  note D = coreD[OF core]
  have il: "i < slots V" "i \<noteq> NIL" using D(12,13)[OF i] by simp_all
  have alive: "is_tombstone (v_entries V) i = Some False" using i by (simp add: is_tombstone_def live_of_def t_flags_def)
  obtain m where m: "MAX_PATH_HOPS = Suc m" by (simp add: MAX_PATH_HOPS_def)
  obtain xs where xs: "path_chain V MAX_PATH_HOPS i = Some xs" "xs \<noteq> []" "set xs \<subseteq> live V"
    "par V (last xs) = NIL \<longrightarrow> lseg (et_parent (v_entries V)) i xs \<and> length xs \<le> MAX_PATH_HOPS"
    using path_chain_total[OF core i, of m] unfolding m by blast
  have "last xs \<in> live V" using xs(2,3) by (meson last_in_set subsetD)
  then have lp: "t_parent (v_entries V) (last xs) = Some (par V (last xs))"
    using D(12) cols_lengths(3)[OF D(2)] by (simp add: t_parent_def)
  show ?thesis
  proof (cases "par V (last xs) = NIL")
    case True
    have "path_of V i out = Some (if last xs = v_lost_found V then InLostFound else PathOk, path_text out (path_names V xs))"
      using alive xs(1,2) lp True emit_path_spec[OF core, of "rev xs" out] xs(3) by (simp add: path_of_def)
    then show ?thesis using that(1) xs True by blast
  next
    case False
    have "\<nexists>ys. lseg (et_parent (v_entries V)) i ys \<and> length ys \<le> MAX_PATH_HOPS"
      using path_chain_lseg[OF D(2) _ il(2)] lseg_last False xs(1,2) by fastforce
    moreover have "path_of V i out = Some (CycleDetected, out)" using alive xs(1,2) lp False by (simp add: path_of_def)
    ultimately show ?thesis using that(2) by blast
  qed
qed

end
