(* ===== verification/Volume_Reach.thy ===== *)
theory Volume_Reach
  imports Volume_Read
begin

text \<open>
  The indexes an empty volume can grow into, and what reading one of them returns.
\<close>

section \<open>An empty volume\<close>

lemma intern_fresh:
  assumes "names_ok E nm" "order_ok nm" "intern_room E name nm" "\<And>j. j \<in> names_live nm \<Longrightarrow> raw_of nm j \<noteq> name"
  obtains nm' where "intern E name nm = Some (length (ns_pairs nm), nm')" "names_ok E nm'" "order_ok nm'"
    "ns_refcount nm' = ns_refcount nm @ [1]" "ns_head nm' = ns_head nm @ [NIL]" "length (ns_pairs nm') = Suc (length (ns_pairs nm))"
    "raw_of nm' (length (ns_pairs nm)) = name" "\<And>j. j < length (ns_pairs nm) \<Longrightarrow> raw_of nm' j = raw_of nm j"
proof -
  obtain i nm' where nm: "intern E name nm = Some (i, nm')" "names_ok E nm'" "i \<in> names_live nm'" "raw_of nm' i = name"
    and raw: "\<And>j. j < length (ns_pairs nm) \<Longrightarrow> raw_of nm' j = raw_of nm j"
    and alt: "(i \<in> names_live nm \<and> ns_refcount nm' = (ns_refcount nm)[i := ns_refcount nm ! i + 1] \<and>
       ns_head nm' = ns_head nm \<and> ns_pairs nm' = ns_pairs nm) \<or>
     (i = length (ns_pairs nm) \<and> (\<forall>j \<in> names_live nm. raw_of nm j \<noteq> name) \<and>
       ns_refcount nm' = ns_refcount nm @ [1] \<and> ns_head nm' = ns_head nm @ [NIL] \<and>
       length (ns_pairs nm') = Suc (length (ns_pairs nm)))"
    by (rule intern_spec[OF assms(1,3)]) (rule that; assumption)
  have "i \<notin> names_live nm" using assms(4)[of i] raw[of i] nm(4) live_less[OF assms(1), of i] by auto
  then have "i = length (ns_pairs nm)" "ns_refcount nm' = ns_refcount nm @ [1]" "ns_head nm' = ns_head nm @ [NIL]"
    "length (ns_pairs nm') = Suc (length (ns_pairs nm))" using alt by blast+
  then show ?thesis using that[of nm'] nm raw order_ok_intern[OF assms(1-3) nm(1)] by simp
qed

lemma intern_room_small:
  assumes "name_fits E name" "length (ns_pairs nm) \<le> 1" "set (ns_refcount nm) \<subseteq> {1}" "length (ns_raw nm) \<le> 1" "length (ns_folded nm) \<le> 65536"
  shows "intern_room E name nm"
  using assms by (auto simp: intern_room_def name_fits_def NIL_def)

text \<open>A directory under no parent, with no metadata.\<close>

definition dir_entry :: "frn \<Rightarrow> u8 list \<Rightarrow> entry_flags \<Rightarrow> entry" where
  "dir_entry f n fl = \<lparr>e_frn = f, e_parent = NIL, e_name = n, e_flags = fl, e_size = SIZE_UNKNOWN, e_mtime = MTIME_UNKNOWN\<rparr>"

text \<open>The tables and names of an empty volume.\<close>

definition new_table :: "frn \<Rightarrow> entry_table" where
  "new_table root_frn =
    \<lparr>et_frn = [root_frn, LOST_FOUND_FRN], et_parent = [NIL, NIL], et_name_id = [0, 1], et_flags = [DIR, with_flag DIR LOST_FOUND True],
     et_size = [SIZE_UNKNOWN, SIZE_UNKNOWN], et_mtime = [MTIME_UNKNOWN, MTIME_UNKNOWN],
     et_next_link = [NIL, NIL], et_next_same = [NIL, NIL], et_prev_same = [NIL, NIL], et_first_child = [NIL, NIL],
     et_next_child = [NIL, NIL], et_prev_child = [NIL, NIL], et_free = [], et_live = 2\<rparr>"

lemma new_table_alloc:
  obtains t1 where "alloc root_frn NIL 0 DIR SIZE_UNKNOWN MTIME_UNKNOWN NIL table_new = Some (0, t1)"
    "alloc LOST_FOUND_FRN NIL 1 (with_flag DIR LOST_FOUND True) SIZE_UNKNOWN MTIME_UNKNOWN NIL t1 = Some (1, new_table root_frn)"
    "table_ok (new_table root_frn)"
proof -
  let ?fl = "with_flag DIR LOST_FOUND True"
  define t1 where "t1 = alloced 0 root_frn NIL 0 DIR SIZE_UNKNOWN MTIME_UNKNOWN NIL table_new"
  have t1: "t1 = \<lparr>et_frn = [root_frn], et_parent = [NIL], et_name_id = [0], et_flags = [DIR], et_size = [SIZE_UNKNOWN], et_mtime = [MTIME_UNKNOWN],
     et_next_link = [NIL], et_next_same = [NIL], et_prev_same = [NIL], et_first_child = [NIL],
     et_next_child = [NIL], et_prev_child = [NIL], et_free = [], et_live = 1\<rparr>"
    by (simp add: t1_def alloced_def table_new_def put_def)
  have t2: "alloced 1 LOST_FOUND_FRN NIL 1 ?fl SIZE_UNKNOWN MTIME_UNKNOWN NIL t1 = new_table root_frn"
    by (simp add: t1 new_table_def alloced_def put_def)
  have a1: "alloc root_frn NIL 0 DIR SIZE_UNKNOWN MTIME_UNKNOWN NIL table_new = Some (0, t1)"
    by (simp add: alloc_def table_new_def t1 as_u32_def)
  have a2: "alloc LOST_FOUND_FRN NIL 1 ?fl SIZE_UNKNOWN MTIME_UNKNOWN NIL t1 = Some (1, new_table root_frn)"
    by (simp add: alloc_def t1 new_table_def as_u32_def)
  have t0: "table_ok table_new" by (simp add: table_ok_def cols_ok_def free_ok_def table_new_def live_of_def)
  have "table_room 1 table_new" by (simp add: table_room_def table_new_def NIL_def)
  then have "table_ok t1" using alloc_spec[OF t0, of DIR root_frn NIL 0 SIZE_UNKNOWN MTIME_UNKNOWN NIL] a1 by auto
  moreover have "table_room 1 t1" by (simp add: table_room_def t1 NIL_def)
  ultimately have "table_ok (new_table root_frn)" using alloc_spec[of t1 ?fl LOST_FOUND_FRN NIL 1 SIZE_UNKNOWN MTIME_UNKNOWN NIL] a2 by auto
  then show thesis using that a1 a2 by blast
qed

lemma new_names:
  assumes fits: "name_fits E []" "name_fits E LOST_FOUND_NAME"
  obtains nm1 nm2 where "intern E [] names_new = Some (0, nm1)" "intern E LOST_FOUND_NAME nm1 = Some (1, nm2)" "names_ok E nm2" "order_ok nm2"
    "ns_refcount nm2 = [1, 1]" "ns_head nm2 = [NIL, NIL]" "raw_of nm2 0 = []" "raw_of nm2 1 = LOST_FOUND_NAME"
    "length (ns_pairs nm2) = 2" "length (ns_raw nm2) \<le> 2 ^ 20" "length (ns_folded nm2) \<le> 2 ^ 20"
proof -
  have live0: "names_live names_new = {}" by (simp add: names_live_def names_new_def)
  have room0: "intern_room E [] names_new" by (rule intern_room_small) (use fits in \<open>simp_all add: names_new_def\<close>)
  obtain nm1 where nm1: "intern E [] names_new = Some (0, nm1)" "names_ok E nm1" "order_ok nm1" "ns_refcount nm1 = [1]" "ns_head nm1 = [NIL]"
      "length (ns_pairs nm1) = 1" "raw_of nm1 0 = []"
    by (rule intern_fresh[OF names_new_ok names_new_order room0]) (simp_all add: live0, simp add: names_new_def)
  have len1: "length (ns_raw nm1) \<le> 1" "length (ns_folded nm1) \<le> 65536"
    using intern_lengths(2,3)[OF nm1(1)] fits(1) by (simp_all add: names_new_def name_fits_def)
  have room1: "intern_room E LOST_FOUND_NAME nm1" by (rule intern_room_small) (use fits nm1 len1 in simp_all)
  have live1: "names_live nm1 = {0}" using nm1(4) by (auto simp: names_live_def)
  obtain nm2 where nm2: "intern E LOST_FOUND_NAME nm1 = Some (1, nm2)" "names_ok E nm2" "order_ok nm2" "ns_refcount nm2 = [1, 1]" "ns_head nm2 = [NIL, NIL]"
      "raw_of nm2 1 = LOST_FOUND_NAME" "raw_of nm2 0 = []"
    by (rule intern_fresh[OF nm1(2,3) room1]) (use nm1 live1 in \<open>simp_all add: LOST_FOUND_NAME_def\<close>)
  have "length (ns_raw nm2) \<le> 2 ^ 20" "length (ns_folded nm2) \<le> 2 ^ 20" "length (ns_pairs nm2) = 2"
    using intern_lengths(2,3)[OF nm2(1)] len1 fits(2) nm2(2,4) by (auto simp: name_fits_def names_ok_def)
  then show thesis using that nm1(1) nm2 by blast
qed

definition new_volume :: "frn \<Rightarrow> name_store \<Rightarrow> frn_map \<Rightarrow> volume" where
  "new_volume root_frn nm m =
    \<lparr>v_entries = new_table root_frn, v_names = nm, v_by_frn = m, v_root = 0, v_lost_found = 1, v_generation = 0,
     v_stats = stats_default, v_dirty = 0, v_dir_children = Map.empty, v_cycle_suspects = []\<rparr>"

lemma new_volume_live: "live (new_volume f nm m) = {0, 1}"
  by (auto simp: new_volume_def new_table_def live_of_def less_Suc_eq)

lemma fixed_fibre: "(\<And>j. j \<in> S \<Longrightarrow> g j = j) \<Longrightarrow> n \<in> S \<Longrightarrow> {j \<in> S. g j = n} = {n}"
  by auto

lemma new_volume_refs:
  assumes "ns_refcount nm = [1, 1]"
  shows "refs_ok (new_volume f nm m) (live (new_volume f nm m) - {})"
proof -
  let ?V = "new_volume f nm m"
  have rc: "ns_refcount (v_names ?V) = [1, 1]" using assms by (simp add: new_volume_def)
  have "nid ?V 0 = 0" "nid ?V 1 = 1" by (simp_all add: new_volume_def new_table_def)
  then have self: "nid ?V j = j" if "j \<in> {0, 1}" for j using that by fastforce
  have one: "{j \<in> {0, 1}. nid ?V j = n} = {n}" if n: "n \<in> {0, 1}" for n
    using fixed_fibre[OF self n] .
  show ?thesis
    unfolding refs_ok_def rc Diff_empty new_volume_live
  proof (intro conjI ballI allI impI)
    show "nid ?V i < length [1::nat, 1]" if "i \<in> {0, 1}" for i using self[OF that] that by auto
    show "[1, 1] ! n = card {i \<in> {0, 1}. nid ?V i = n}" if "n < length [1::nat, 1]" for n
    proof -
      have "n \<in> {0, 1}" using that by auto
      then show ?thesis unfolding one[OF \<open>n \<in> {0, 1}\<close>] by auto
    qed
  qed
qed

lemma new_volume_core:
  assumes "names_ok E nm" "order_ok nm" "ns_refcount nm = [1, 1]" "ns_head nm = [NIL, NIL]"
  shows "core E (new_volume f nm m) {0, 1} {} {} {}"
proof -
  let ?V = "new_volume f nm m"
  note L0 = new_volume_live[of f nm m]
  have vr: "v_root ?V = 0" "v_lost_found ?V = 1" "slots ?V = 2" "v_names ?V = nm" by (simp_all add: new_volume_def new_table_def)
  have "par ?V 0 = NIL" "par ?V 1 = NIL" by (simp_all add: new_volume_def new_table_def)
  then have pN: "par ?V i = NIL" if "i \<in> {0, 1}" for i using that by fastforce
  then have K: "kids ?V = {}" unfolding kids_def L0 by blast
  have Dr: "dirs ?V = {}" unfolding dirs_def dirent_def L0 vr by auto
  have two: "(2::nat) \<le> NIL" by (simp add: NIL_def)
  have nolinks: "chains_ok [NIL, NIL] [NIL, NIL] [NIL, NIL] k {}" for k
    using two by (auto simp: chains_ok_def less_Suc_eq intro!: exI[of _ "[]"])
  have tk: "table_ok (v_entries ?V)" by (rule new_table_alloc[of f]) (simp add: new_volume_def)
  have "same_ok ?V (live ?V - {0, 1})" using nolinks[of "nid ?V"] L0 assms(4) by (simp add: same_ok_def) (simp add: new_volume_def new_table_def)
  moreover have "child_ok ?V (kids ?V - {})" using nolinks[of "par ?V"] K by (simp add: child_ok_def) (simp add: new_volume_def new_table_def)
  moreover have "dir_ok E ?V (dirs ?V - {})" using Dr by (simp add: dir_ok_def slot_ok_def new_volume_def)
  moreover have "\<forall>i < slots ?V. par ?V i = NIL \<or> i \<in> live ?V \<and> par ?V i \<in> live ?V"
  proof (intro allI impI)
    fix i assume "i < slots ?V"
    then have "i \<in> {0, 1}" using vr(3) by auto
    then show "par ?V i = NIL \<or> i \<in> live ?V \<and> par ?V i \<in> live ?V" using pN by blast
  qed
  moreover have "v_lost_found ?V \<in> live ?V" "par ?V (v_lost_found ?V) = NIL" unfolding vr L0 using pN by auto
  ultimately show ?thesis using tk assms new_volume_refs[OF assms(3), of f m] unfolding core_def vr(4) by blast
qed

lemma new_volume_links:
  assumes m: "frn_map_ok m" "frn_get m = Map.empty" and V: "live V = {0, 1}" "v_lost_found V = 1" "frn_at V 0 = f"
    "et_next_link (v_entries V) = [NIL, NIL]" "v_by_frn V = frn_set (record_number f) 0 m"
  shows "links_ok V {}"
proof -
  have nN: "(0::nat) \<noteq> NIL" by (simp add: NIL_def)
  have rs: "rec_set V r = (if r = record_number f then {0} else {})" for r
  proof -
    have "live V - {v_lost_found V} = {0}" unfolding V(1,2) by auto
    then show ?thesis unfolding rec_set_def using V(3) by auto
  qed
  have ch: "link_chain V (record_number f) 0 [0]" using nN V(4) unfolding link_chain_def rs by simp
  show ?thesis
    unfolding links_ok_def V(5)
  proof (intro conjI allI impI)
    show "frn_map_ok (frn_set (record_number f) 0 m)" using frn_set_ok[OF m(1) nN] .
    show "case frn_get (frn_set (record_number f) 0 m) r of None \<Rightarrow> rec_set V r = {} | Some h \<Rightarrow> \<exists>xs. link_chain V r h xs" for r
      unfolding frn_get_set[OF nN] using rs m(2) ch by (cases "r = record_number f") auto
  qed
qed

lemma volume_new_ok:
  assumes fits: "name_fits E []" "name_fits E LOST_FOUND_NAME" and m: "frn_map_ok m" "frn_get m = Map.empty"
  shows "\<exists>V. volume_new E root_frn m = Some V \<and> vol_ok E V \<and> v_root V = 0 \<and> v_lost_found V = 1 \<and> slots V = 2 \<and>
    ents V = [0 \<mapsto> dir_entry root_frn [] DIR, 1 \<mapsto> dir_entry LOST_FOUND_FRN LOST_FOUND_NAME (with_flag DIR LOST_FOUND True)] \<and>
    length (ns_pairs (v_names V)) = 2 \<and> length (ns_raw (v_names V)) \<le> 2 ^ 20 \<and> length (ns_folded (v_names V)) \<le> 2 ^ 20"
proof -
  let ?fl = "with_flag DIR LOST_FOUND True"
  obtain t1 where a: "alloc root_frn NIL 0 DIR SIZE_UNKNOWN MTIME_UNKNOWN NIL table_new = Some (0, t1)"
    "alloc LOST_FOUND_FRN NIL 1 ?fl SIZE_UNKNOWN MTIME_UNKNOWN NIL t1 = Some (1, new_table root_frn)" by (rule new_table_alloc)
  obtain nm1 nm2 where nm: "intern E [] names_new = Some (0, nm1)" "intern E LOST_FOUND_NAME nm1 = Some (1, nm2)" "names_ok E nm2" "order_ok nm2"
    "ns_refcount nm2 = [1, 1]" "ns_head nm2 = [NIL, NIL]" "raw_of nm2 0 = []" "raw_of nm2 1 = LOST_FOUND_NAME"
    "length (ns_pairs nm2) = 2" "length (ns_raw nm2) \<le> 2 ^ 20" "length (ns_folded nm2) \<le> 2 ^ 20" by (rule new_names[OF fits])
  define V0 where "V0 = new_volume root_frn nm2 (frn_set (record_number root_frn) 0 m)"
  define V1 where "V1 = same_linked 0 0 V0"
  define V2 where "V2 = same_linked 1 1 V1"
  have L0: "live V0 = {0, 1}" unfolding V0_def by (rule new_volume_live)
  have c0: "core E V0 {0, 1} {} {} {}" unfolding V0_def by (rule new_volume_core[OF nm(3-6)])
  have f0: "nid V0 0 = 0" "nid V0 1 = 1" "length (ns_head (v_names V0)) = 2" using nm(6) by (simp_all add: V0_def new_volume_def new_table_def)
  have c1: "link_same_name 0 0 V0 = Some V1" "core E V1 {1} {} {} {}"
    using link_same_core[OF c0, of 0 0] L0 f0 by (simp_all add: V1_def insert_Diff_if)
  have f1: "live V1 = {0, 1}" "nid V1 1 = 1" "length (ns_head (v_names V1)) = 2" using L0 f0 by (simp_all add: V1_def)
  have c2: "link_same_name 1 1 V1 = Some V2" "core E V2 {} {} {} {}"
    using link_same_core[OF c1(2), of 1 1] f1 by (simp_all add: V2_def)
  have f2: "live V2 = {0, 1}" "v_lost_found V2 = 1" "frn_at V2 0 = root_frn" "et_next_link (v_entries V2) = [NIL, NIL]"
    "v_by_frn V2 = frn_set (record_number root_frn) 0 m" "v_root V2 = 0" "v_cycle_suspects V2 = []" "slots V2 = 2"
    using f1(1) by (simp_all add: V2_def) (simp_all add: V1_def V0_def new_volume_def new_table_def)
  have "vol_ok E V2" using c2(2) new_volume_links[OF m f2(1-5)] f2(7) by (simp add: vol_ok_def suspects_ok_def)
  moreover have "volume_new E root_frn m = Some V2"
    using nm(1,2) a c1(1) c2(1) by (simp add: volume_new_def V0_def new_volume_def Let_def)
  moreover have "ents V2 = [0 \<mapsto> dir_entry root_frn [] DIR, 1 \<mapsto> dir_entry LOST_FOUND_FRN LOST_FOUND_NAME ?fl]"
  proof -
    have "raw_of (v_names V2) = raw_of nm2" by (simp add: V2_def V1_def V0_def new_volume_def)
    then have "entry_at V2 0 = dir_entry root_frn [] DIR" "entry_at V2 1 = dir_entry LOST_FOUND_FRN LOST_FOUND_NAME ?fl"
      using nm(7,8) by (simp_all add: entry_at_def dir_entry_def V2_def V1_def V0_def new_volume_def new_table_def)
    then show ?thesis unfolding ents_def[abs_def] f2(1) by (auto simp: fun_eq_iff)
  qed
  moreover have "length (ns_pairs (v_names V2)) = 2" "length (ns_raw (v_names V2)) \<le> 2 ^ 20" "length (ns_folded (v_names V2)) \<le> 2 ^ 20"
    using nm(9-11) by (simp_all add: V2_def V1_def V0_def new_volume_def)
  ultimately show ?thesis using f2 by simp
qed

section \<open>The indexes a volume can grow into\<close>

text \<open>One public operation that changes an index, with what it is given.\<close>

datatype index_call =
    CallEnum parsed_usn_record
  | CallEnrich layout_file
  | CallLayout layout_file
  | CallBatch "parsed_usn_record list"
  | CallReconcile frn "link_target list"
  | CallSetStat frn u64 i64
  | CallDropped u64
  | CallCompact
  | CallOptimize nat
  | CallTakeWrites

definition run_call :: "env \<Rightarrow> index_call \<Rightarrow> volume \<Rightarrow> volume option" where
  "run_call E c V =
    (case c of
       CallEnum r \<Rightarrow> insert_enum E r V
     | CallEnrich file \<Rightarrow> enrich E file V
     | CallLayout file \<Rightarrow> insert_layout E file V
     | CallBatch rs \<Rightarrow> map_option snd (apply_batch E rs V)
     | CallReconcile f links \<Rightarrow> reconcile_links E f links V
     | CallSetStat f sz mt \<Rightarrow> set_stat f sz mt V
     | CallDropped n \<Rightarrow> Some (note_link_reconciles_dropped n V)
     | CallCompact \<Rightarrow> do { p \<leftarrow> plan_compaction V; case p of None \<Rightarrow> Some V | Some plan \<Rightarrow> apply_compaction E plan V }
     | CallOptimize cap \<Rightarrow> optimize_storage cap V
     | CallTakeWrites \<Rightarrow> Some (snd (take_write_count V)))"

text \<open>The index has room for every name the call may add, and a reconcile names parents of the index.\<close>

definition call_room :: "env \<Rightarrow> index_call \<Rightarrow> volume \<Rightarrow> bool" where
  "call_room E c V \<longleftrightarrow>
    (case c of
       CallEnum r \<Rightarrow> vroom E [PLACEHOLDER_NAME, pu_name r] V
     | CallEnrich file \<Rightarrow> vroom E (enrich_names file) V
     | CallLayout file \<Rightarrow> vroom E (layout_names file) V
     | CallBatch rs \<Rightarrow> vroom E (concat (map op_names (concat (map ops_for rs)))) V
     | CallReconcile f links \<Rightarrow> (\<forall>x \<in> set links. lt_parent x < slots V) \<and> vroom E (map (\<lambda>x. wn_bytes (lt_name x)) links) V
     | _ \<Rightarrow> True)"

lemma run_call_ok:
  assumes ok: "vol_ok E V" and room: "call_room E c V"
  shows "\<exists>V'. run_call E c V = Some V' \<and> vol_ok E V'"
proof (cases c)
  case (CallEnum r)
  then show ?thesis using insert_enum_ok[OF ok, of r "[]"] room by (auto simp: run_call_def call_room_def)
next
  case (CallEnrich f)
  then show ?thesis using enrich_ok[OF ok, of f "[]"] room by (auto simp: run_call_def call_room_def)
next
  case (CallLayout f)
  then show ?thesis using insert_layout_ok[OF ok, of f "[]"] room by (auto simp: run_call_def call_room_def)
next
  case (CallBatch rs)
  then show ?thesis using apply_batch_ok[OF ok, of rs "[]"] room by (auto simp: run_call_def call_room_def)
next
  case (CallReconcile f ls)
  then show ?thesis using reconcile_links_ok[OF ok, of ls "[]" f] room by (auto simp: run_call_def call_room_def)
next
  case (CallSetStat f sz mt)
  then show ?thesis using set_stat_ok[OF ok, of f sz mt] by (auto simp: run_call_def)
next
  case CallCompact
  obtain p where "plan_compaction V = Some p"
    using plan_compact_spec[OF coreD(3)[OF vol_okD(1)[OF ok]]] by (metis plan_compaction_def option.simps(9))
  then show ?thesis using CallCompact apply_compaction_ok[OF ok] ok by (cases p) (auto simp: run_call_def)
next
  case (CallOptimize cap)
  then show ?thesis using optimize_storage_ok[OF ok, of cap] by (auto simp: run_call_def)
qed (use ok in \<open>auto simp: run_call_def note_link_reconciles_dropped_def take_write_count_def intro: vol_ok_cong\<close>)

inductive vol_reach :: "env \<Rightarrow> volume \<Rightarrow> bool" for E where
  reach_new: "name_fits E [] \<Longrightarrow> name_fits E LOST_FOUND_NAME \<Longrightarrow> volume_new E root_frn frn_map_sparse = Some V \<Longrightarrow> vol_reach E V"
| reach_call: "vol_reach E V \<Longrightarrow> call_room E c V \<Longrightarrow> run_call E c V = Some V' \<Longrightarrow> vol_reach E V'"

section \<open>A sample index\<close>

definition sample_vol :: volume where
  "sample_vol = the (volume_new sample_env NTFS_ROOT_FRN frn_map_sparse)"

lemma sample_folds:
  "e_fold sample_env [] = []" "length (e_fold sample_env LOST_FOUND_NAME) = 10" "length (e_fold sample_env PLACEHOLDER_NAME) = 12"
  by (simp_all add: e_fold_def sample_env_def fold_name_def fold_into_def is_ascii_def to_ascii_lowercase_def
    LOST_FOUND_NAME_def PLACEHOLDER_NAME_def)

lemma sample_fits: "name_fits sample_env []" "name_fits sample_env LOST_FOUND_NAME" "name_fits sample_env PLACEHOLDER_NAME" "name_fits sample_env [65, 98]"
  using sample_folds sample_fold by (simp_all add: name_fits_def) (simp_all add: LOST_FOUND_NAME_def PLACEHOLDER_NAME_def)

lemma sample_vol:
  "volume_new sample_env NTFS_ROOT_FRN frn_map_sparse = Some sample_vol" "vol_ok sample_env sample_vol" "v_root sample_vol = 0" "v_lost_found sample_vol = 1"
  "ents sample_vol = [0 \<mapsto> dir_entry NTFS_ROOT_FRN [] DIR, 1 \<mapsto> dir_entry LOST_FOUND_FRN LOST_FOUND_NAME (with_flag DIR LOST_FOUND True)]"
  "vroom sample_env [PLACEHOLDER_NAME, [65, 98]] sample_vol" "slots sample_vol = 2" "live sample_vol = {0, 1}"
proof -
  obtain V where V: "volume_new sample_env NTFS_ROOT_FRN frn_map_sparse = Some V" "vol_ok sample_env V" "v_root V = 0" "v_lost_found V = 1" "slots V = 2"
    "ents V = [0 \<mapsto> dir_entry NTFS_ROOT_FRN [] DIR, 1 \<mapsto> dir_entry LOST_FOUND_FRN LOST_FOUND_NAME (with_flag DIR LOST_FOUND True)]"
    "length (ns_pairs (v_names V)) = 2" "length (ns_raw (v_names V)) \<le> 2 ^ 20" "length (ns_folded (v_names V)) \<le> 2 ^ 20"
    using volume_new_ok[OF sample_fits(1,2), of frn_map_sparse NTFS_ROOT_FRN] by (auto simp: frn_map_sparse_def frn_map_ok_def fun_eq_iff)
  have eq: "sample_vol = V" using V(1) by (simp add: sample_vol_def)
  show "volume_new sample_env NTFS_ROOT_FRN frn_map_sparse = Some sample_vol" "vol_ok sample_env sample_vol" "v_root sample_vol = 0" "v_lost_found sample_vol = 1"
    "ents sample_vol = [0 \<mapsto> dir_entry NTFS_ROOT_FRN [] DIR, 1 \<mapsto> dir_entry LOST_FOUND_FRN LOST_FOUND_NAME (with_flag DIR LOST_FOUND True)]"
    "slots sample_vol = 2"
    using V by (simp_all add: eq)
  have "(2::nat) + 2 \<le> NIL" by (simp add: NIL_def)
  then show "vroom sample_env [PLACEHOLDER_NAME, [65, 98]] sample_vol"
    unfolding eq vroom_def using V(5,7,8,9) sample_fits sample_folds(3) sample_fold by (simp add: PLACEHOLDER_NAME_def)
  show "live sample_vol = {0, 1}" unfolding eq dom_ents[symmetric] V(6) by auto
qed

lemma sample_links: "links_of sample_vol NTFS_ROOT_FRN = {0}" "f \<noteq> NTFS_ROOT_FRN \<Longrightarrow> links_of sample_vol f = {}"
proof -
  have "ents sample_vol 0 = Some (entry_at sample_vol 0)" using sample_vol(8) by (simp add: ents_def)
  then have r: "frn_at sample_vol 0 = NTFS_ROOT_FRN" using sample_vol(5) by (simp add: entry_at_def dir_entry_def)
  have "live sample_vol - {v_lost_found sample_vol} = {0}" unfolding sample_vol(4,8) by auto
  then show "links_of sample_vol NTFS_ROOT_FRN = {0}" "f \<noteq> NTFS_ROOT_FRN \<Longrightarrow> links_of sample_vol f = {}"
    unfolding links_of_def using r by auto
qed

section \<open>What every reachable index promises\<close>

text \<open>
  C1. An index grown from an empty one by any sequence of its public operations has exact same-name, child and
  hard-link chains, reference counts that match them and a scope index equal to a rebuilt one; and no further
  operation it has room for panics or fails to return.
\<close>

theorem vol_reach_ok:
  "vol_reach E V \<Longrightarrow> vol_ok E V \<and> (\<forall>c. call_room E c V \<longrightarrow> (\<exists>V'. run_call E c V = Some V' \<and> vol_reach E V'))"
proof -
  assume "vol_reach E V"
  then have "vol_ok E V"
  proof induction
    case (reach_new root_frn V)
    then show ?case using volume_new_ok[of E frn_map_sparse root_frn] by (auto simp: frn_map_sparse_def frn_map_ok_def fun_eq_iff)
  next
    case (reach_call V c V')
    then show ?case using run_call_ok by fastforce
  qed
  then show ?thesis using run_call_ok reach_call[OF \<open>vol_reach E V\<close>] by blast
qed

theorem vol_reach_ok_witness:
  "\<exists>V'. run_call sample_env (CallSetStat NTFS_ROOT_FRN 7 8) sample_vol = Some V' \<and> vol_reach sample_env V'"
  using vol_reach_ok[OF reach_new[OF sample_fits(1,2) sample_vol(1)]] by (simp add: call_room_def)

text \<open>
  C2. Recording a name of a file never fails within the index's room. A file with several hard links is left for
  reconciliation; any other file has exactly one entry afterwards, with the name, the folder and the kind recorded
  and the size and date it had. Only entries of reused record numbers are dropped, their children going to
  lost+found; every other entry is unchanged.
\<close>

theorem upsert_link_correct:
  assumes "vol_ok E V" "vroom E [PLACEHOLDER_NAME, name] V"
  shows "\<exists>r V'. upsert_link E f pf name lossy is_dir V = Some (r, V') \<and> vol_ok E V' \<and>
    (r = NeedsReconcile \<longleftrightarrow> 2 \<le> card (links_of V f)) \<and>
    (r = UpsertOk \<longrightarrow> (\<exists>i. upserted f pf name lossy is_dir V V' i)) \<and>
    (\<forall>j \<in> live V - upsert_stale V f pf - (if r = UpsertOk then links_of V f else {}).
      ents V' j = ents_drop (v_lost_found V) (upsert_stale V f pf) (ents V) j)"
  using upsert_link_ok[OF assms] by blast

theorem upsert_link_correct_witness:
  "\<exists>V' i. upsert_link sample_env 4711 NTFS_ROOT_FRN [65, 98] False True sample_vol = Some (UpsertOk, V') \<and>
    upserted 4711 NTFS_ROOT_FRN [65, 98] False True sample_vol V' i"
proof -
  have "links_of sample_vol 4711 = {}" by (rule sample_links(2)) (simp add: NTFS_ROOT_FRN_def)
  then have one: "\<not> 2 \<le> card (links_of sample_vol 4711)" by simp
  obtain r V' where r: "upsert_link sample_env 4711 NTFS_ROOT_FRN [65, 98] False True sample_vol = Some (r, V')"
    "r = NeedsReconcile \<longleftrightarrow> 2 \<le> card (links_of sample_vol 4711)"
    "r = UpsertOk \<longrightarrow> (\<exists>i. upserted 4711 NTFS_ROOT_FRN [65, 98] False True sample_vol V' i)"
    using upsert_link_correct[OF sample_vol(2,6), of 4711 NTFS_ROOT_FRN False True] by blast
  then show ?thesis using one by (cases r) auto
qed

text \<open>
  C4. Deleting a file drops exactly its entries, its children going to lost+found and nothing else changing, and
  reports whether there was one.
\<close>

theorem delete_frn_correct:
  "vol_ok E V \<Longrightarrow> \<exists>b V'. delete_frn E f V = Some (b, V') \<and> vol_ok E V' \<and> (b \<longleftrightarrow> links_of V f \<noteq> {}) \<and>
    ents V' = ents_drop (v_lost_found V) (links_of V f) (ents V)"
  using delete_frn_ok unfolding dropped_def by blast

theorem delete_frn_correct_witness:
  "\<exists>V'. delete_frn sample_env NTFS_ROOT_FRN sample_vol = Some (True, V') \<and> ents V' 0 = None"
  using delete_frn_correct[OF sample_vol(2), of NTFS_ROOT_FRN] by (auto simp: sample_links(1) ents_drop_def)

text \<open>
  C3. Reconciling a file with its actual names leaves it exactly those names, in that order, each in its folder
  (in lost+found when the folder is one of the file's own dropped entries or is not indexed), and drops the file
  when it has no name left.
\<close>

theorem reconcile_links_correct:
  assumes "vol_ok E V" "\<forall>x \<in> set actual. lt_parent x < slots V" "vroom E (map (\<lambda>x. wn_bytes (lt_name x)) actual) V"
  shows "\<exists>V'. reconcile_links E f actual V = Some V' \<and> vol_ok E V' \<and>
    (if actual = [] then ents V' = ents_drop (v_lost_found V) (links_of V f) (ents V) else relinked f actual V V')"
  using reconcile_links_ok[OF assms(1), of actual "[]" f] assms(2,3) unfolding dropped_def by (auto split: if_splits)

theorem reconcile_links_correct_witness:
  "\<exists>V'. reconcile_links sample_env 4711 [\<lparr>lt_parent = 0, lt_name = \<lparr>wn_bytes = [65, 98], wn_lossy = False\<rparr>\<rparr>] sample_vol = Some V' \<and>
    relinked 4711 [\<lparr>lt_parent = 0, lt_name = \<lparr>wn_bytes = [65, 98], wn_lossy = False\<rparr>\<rparr>] sample_vol V'"
proof -
  have "vroom sample_env [[65, 98]] sample_vol" using vroom_tl[OF sample_vol(6)] .
  then show ?thesis
    using reconcile_links_correct[OF sample_vol(2), of "[\<lparr>lt_parent = 0, lt_name = \<lparr>wn_bytes = [65, 98], wn_lossy = False\<rparr>\<rparr>]" 4711]
    by (auto simp: sample_vol(7))
qed

text \<open>
  C12. Setting a file's size and date writes them on every hard link of the file and nowhere else; a folder keeps
  its unknown size.
\<close>

theorem set_stat_correct:
  assumes "vol_ok E V" "i \<in> links_of V f"
  shows "\<exists>V' k. set_stat f sz mt V = Some V' \<and> vol_ok E V' \<and> k \<in> links_of V f \<and>
    ents V' = (\<lambda>j. if j \<in> links_of V f then map_option (stat_entry (if contains (vflags V k) DIR then None else Some sz) (Some mt)) (ents V j)
                   else ents V j)"
proof -
  obtain V' b where V': "set_stat f sz mt V = Some V'" "vol_ok E V'" "statted (if b then None else Some sz) (Some mt) (links_of V f) V V'"
    "links_of V f \<noteq> {} \<longrightarrow> (\<exists>k \<in> links_of V f. b = contains (vflags V k) DIR)" using set_stat_ok[OF assms(1), of f sz mt] by blast
  then obtain k where "k \<in> links_of V f" "b = contains (vflags V k) DIR" using assms(2) by blast
  then show ?thesis using V'(1-3) unfolding statted_def by blast
qed

theorem set_stat_correct_witness: "\<exists>V' k. set_stat NTFS_ROOT_FRN 7 8 sample_vol = Some V' \<and> k \<in> links_of sample_vol NTFS_ROOT_FRN"
proof -
  have "0 \<in> links_of sample_vol NTFS_ROOT_FRN" using sample_links(1) by blast
  then show ?thesis using set_stat_correct[OF sample_vol(2), of 0 NTFS_ROOT_FRN 7 8] by blast
qed



text \<open>
  C11. Compacting the name arenas and preparing the index for publication, whatever the capacity of the record map,
  change no entry.
\<close>

theorem storage_keeps_entries:
  assumes "vol_ok E V" "c = CallCompact \<or> c = CallOptimize cap"
  shows "\<exists>V'. run_call E c V = Some V' \<and> vol_ok E V' \<and> ents V' = ents V"
proof -
  obtain p where "plan_compaction V = Some p"
    using plan_compact_spec[OF coreD(3)[OF vol_okD(1)[OF assms(1)]]] by (metis plan_compaction_def option.simps(9))
  then show ?thesis using assms(2) apply_compaction_ok[OF assms(1)] optimize_storage_ok[OF assms(1), of cap] assms(1)
    by (cases p) (auto simp: run_call_def)
qed

theorem storage_keeps_entries_witness: "\<exists>V'. run_call sample_env (CallOptimize 16) sample_vol = Some V' \<and> ents V' = ents sample_vol"
  using storage_keeps_entries[OF sample_vol(2), of "CallOptimize 16" 16] by blast

section \<open>What reading one returns\<close>

text \<open>
  C7. Expanding a live name yields each entry bearing it once, no other, and as many as the name's reference count.
\<close>

theorem name_chain_exact:
  assumes "vol_ok E V" "n \<in> names_live (v_names V)"
  shows "\<exists>xs. name_chain V n = Some xs \<and> distinct xs \<and>
    set xs = {i. \<exists>e. ents V i = Some e \<and> e_name e = raw_of (v_names V) n} \<and> length xs = ns_refcount (v_names V) ! n"
proof -
  have "n < length (ns_pairs (v_names V))" using live_less[OF coreD(3)[OF vol_okD(1)[OF assms(1)]] assms(2)] .
  moreover have "{i. \<exists>e. ents V i = Some e \<and> e_name e = raw_of (v_names V) n} = {i \<in> live V. nid V i = n}"
    using nid_raw[OF assms(1) _ assms(2)] by (auto simp: ents_def)
  ultimately show ?thesis using name_chain_spec[OF assms(1)] by simp
qed

theorem name_chain_exact_witness: "\<exists>xs. name_chain sample_vol (nid sample_vol 0) = Some xs \<and> distinct xs"
proof -
  have "nid sample_vol 0 \<in> names_live (v_names sample_vol)"
    using refs_live(1)[OF vol_okD(1)[OF sample_vol(2)], of 0] sample_vol(8) by auto
  then show ?thesis using name_chain_exact[OF sample_vol(2)] by blast
qed

text \<open>
  C9. The children of a folder are exactly the entries whose parent it is, each once.
\<close>

theorem children_exact:
  assumes "vol_ok E V" "d \<in> live V"
  shows "\<exists>xs. children V d = Some xs \<and> distinct xs \<and> set xs = {i. \<exists>e. ents V i = Some e \<and> e_parent e = d}"
  using children_spec[OF assms] by (auto simp: ents_def)

theorem children_exact_witness: "\<exists>xs. children sample_vol 0 = Some xs \<and> distinct xs"
proof -
  have "0 \<in> live sample_vol" using sample_vol(8) by blast
  then show ?thesis using children_exact[OF sample_vol(2), of 0] by blast
qed

text \<open>
  C8. Looking a folder up by its case-folded name under a parent never panics, finds such a folder when there is
  one and only then, whatever the hash of the name.
\<close>

theorem child_dir_exact:
  assumes "vol_ok E V"
  shows "\<exists>r. child_dir E V p f = Some r \<and>
    (case r of None \<Rightarrow> \<nexists>d e. d \<in> dirs V \<and> ents V d = Some e \<and> e_parent e = p \<and> e_fold E (e_name e) = f
     | Some d \<Rightarrow> d \<in> dirs V \<and> (\<exists>e. ents V d = Some e \<and> e_parent e = p \<and> e_fold E (e_name e) = f))"
  using child_dir_spec[OF assms, of p f] by (auto simp: ents_def dirs_def split: option.splits)

theorem child_dir_exact_witness: "\<exists>r. child_dir sample_env sample_vol 0 [97, 98] = Some r"
  using child_dir_exact[OF sample_vol(2), of 0 "[97, 98]"] by blast

text \<open>
  C5. The stackless walk of a folder that is not below itself ends, and yields each entry strictly under the folder
  once and no other entry.
\<close>

theorem subtree_walk_exact:
  assumes "vol_ok E V" "d \<in> live V" "d \<notin> below V d"
  shows "\<exists>w xs. subtree_entries V d = Some w \<and> walk_from (v_entries V) w = Some xs \<and> distinct xs \<and> set xs = below V d"
  by (rule subtree_spec[OF assms])

theorem subtree_walk_exact_witness: "\<exists>w xs. subtree_entries sample_vol 0 = Some w \<and> walk_from (v_entries sample_vol) w = Some xs \<and> xs = []"
proof -
  have "the (ents sample_vol i) = entry_at sample_vol i" if "i \<in> {0, 1}" for i unfolding ents_def sample_vol(8) using that by simp
  then have "par sample_vol i = e_parent (the (ents sample_vol i))" if "i \<in> {0, 1}" for i using that by simp
  moreover have "e_parent (the (ents sample_vol i)) = NIL" if "i \<in> {0, 1}" for i using that unfolding sample_vol(5) by (auto simp: dir_entry_def)
  ultimately have "par sample_vol i = NIL" if "i \<in> {0, 1}" for i using that by simp
  then have "child_rel sample_vol = {}" unfolding child_rel_def sample_vol(8) by blast
  then have "below sample_vol 0 = {}" by (simp add: below_def)
  moreover have "0 \<in> live sample_vol" using sample_vol(8) by blast
  ultimately show ?thesis using subtree_walk_exact[OF sample_vol(2), of 0] by auto
qed

text \<open>
  C6. The path of a live entry is the names of its ancestors from the top down, the root left out, with one
  separator between them; it is reported as a cycle exactly when no chain of at most 4096 parents ends.
\<close>

theorem path_of_correct:
  assumes "vol_ok E V" "i \<in> live V"
  shows "\<exists>st out'. path_of V i out = Some (st, out') \<and>
    (st = CycleDetected \<longleftrightarrow> (\<nexists>ys. lseg (et_parent (v_entries V)) i ys \<and> length ys \<le> MAX_PATH_HOPS)) \<and>
    (if st = CycleDetected then out' = out
     else \<exists>ys. lseg (et_parent (v_entries V)) i ys \<and> out' = path_text out (path_names V ys) \<and>
       st = (if last ys = v_lost_found V then InLostFound else PathOk))"
proof (cases rule: path_of_chain[OF assms, of out, case_names chain cycle])
  case (chain ys)
  then show ?thesis by auto
qed simp

theorem path_of_correct_witness: "\<exists>st out'. path_of sample_vol 0 [] = Some (st, out')"
proof -
  have "0 \<in> live sample_vol" using sample_vol(8) by blast
  then show ?thesis using path_of_correct[OF sample_vol(2), of 0 "[]"] by blast
qed

end
