(* ===== verification/Engine_Page.thy ===== *)
theory Engine_Page
  imports Volume_Reach "HOL-Library.Product_Lexorder" "HOL-Library.List_Lexorder"
begin

text \<open>
  The order of a page of matches (\<open>query/engine.rs\<close>): sort keys, the comparison of two candidates, the selection of the
  best rows, and the bounded buffers that gather them without keeping every match. The selection algorithm of the
  standard library is a parameter: it may leave either side of the chosen place in any order.
\<close>

section \<open>Pages and keys\<close>

definition page_bounds :: "nat \<Rightarrow> nat \<Rightarrow> nat option \<Rightarrow> nat \<times> nat" where
  "page_bounds n offset limit =
    (let start = min offset n;
         end = (case limit of Some l \<Rightarrow> min (start + l) n | None \<Rightarrow> n)
     in (start, end))"

definition unknown_last :: "u64 option \<Rightarrow> sort_dir \<Rightarrow> u64" where
  "unknown_last known dir =
    (case (known, dir) of
       (Some k, Asc) \<Rightarrow> k
     | (Some k, Desc) \<Rightarrow> k + 1
     | (None, Asc) \<Rightarrow> - 1
     | (None, Desc) \<Rightarrow> 0)"

definition size_key :: "u64 option \<Rightarrow> sort_dir \<Rightarrow> u64" where
  "size_key sz dir = unknown_last sz dir"

definition mtime_key :: "i64 option \<Rightarrow> sort_dir \<Rightarrow> u64" where
  "mtime_key mtime dir = unknown_last (map_option (\<lambda>t. (u64_of t XOR push_bit 63 1) - 1) mtime) dir"

record candidate =
  c_idx :: entry_idx
  c_key :: u64

datatype cmp_result = CmpLess | CmpEqual | CmpGreater

definition cmp_of :: "'a::linorder \<Rightarrow> 'a \<Rightarrow> cmp_result" where
  "cmp_of a b = (if a < b then CmpLess else if b < a then CmpGreater else CmpEqual)"

fun then_with :: "cmp_result \<Rightarrow> cmp_result \<Rightarrow> cmp_result" where
  "then_with CmpEqual r = r"
| "then_with r _ = r"

fun cmp_reverse :: "cmp_result \<Rightarrow> cmp_result" where
  "cmp_reverse CmpLess = CmpGreater"
| "cmp_reverse CmpGreater = CmpLess"
| "cmp_reverse CmpEqual = CmpEqual"

text \<open>The folded name of an entry; a live entry always has one.\<close>

definition cand_name :: "volume \<Rightarrow> entry_idx \<Rightarrow> u8 list" where
  "cand_name V i = (case folded_name V i of Some n \<Rightarrow> n | None \<Rightarrow> [])"

definition cmp_candidate :: "volume \<Rightarrow> sort_spec \<Rightarrow> candidate \<Rightarrow> candidate \<Rightarrow> cmp_result" where
  "cmp_candidate V spec a b =
    (let base = then_with (cmp_of (c_key a) (c_key b))
       (then_with (cmp_of (cand_name V (c_idx a)) (cand_name V (c_idx b))) (cmp_of (c_idx a) (c_idx b)))
     in if sort_dir spec = Desc then cmp_reverse base else base)"

definition in_order :: "volume \<Rightarrow> sort_spec \<Rightarrow> candidate \<Rightarrow> candidate \<Rightarrow> bool" where
  "in_order V spec a b \<longleftrightarrow> cmp_candidate V spec a b \<noteq> CmpGreater"

section \<open>Sorting and selecting\<close>

fun insert_by :: "('a \<Rightarrow> 'a \<Rightarrow> bool) \<Rightarrow> 'a \<Rightarrow> 'a list \<Rightarrow> 'a list" where
  "insert_by le x [] = [x]"
| "insert_by le x (y # ys) = (if le x y then x # y # ys else y # insert_by le x ys)"

definition sort_by :: "('a \<Rightarrow> 'a \<Rightarrow> bool) \<Rightarrow> 'a list \<Rightarrow> 'a list" where
  "sort_by le xs = foldr (insert_by le) xs []"

text \<open>
  \<open>select_nth_unstable_by\<close>: a rearrangement that puts the element of a sorted list in its place, with nothing greater
  before it and nothing smaller after it.
\<close>

definition selects :: "('a \<Rightarrow> 'a \<Rightarrow> bool) \<Rightarrow> (nat \<Rightarrow> 'a list \<Rightarrow> 'a list) \<Rightarrow> bool" where
  "selects le sel \<longleftrightarrow> (\<forall>k xs. k < length xs \<longrightarrow> mset (sel k xs) = mset xs \<and>
    (\<forall>x \<in> set (take k (sel k xs)). le x (sel k xs ! k)) \<and> (\<forall>y \<in> set (drop (k + 1) (sel k xs)). le (sel k xs ! k) y))"

definition order_top :: "(nat \<Rightarrow> candidate list \<Rightarrow> candidate list) \<Rightarrow> volume \<Rightarrow> sort_spec \<Rightarrow> nat \<Rightarrow> candidate list \<Rightarrow> candidate list" where
  "order_top sel V spec end cands =
    (if end = 0 then cands
     else if end < length cands
     then (let s = sel (end - 1) cands in sort_by (in_order V spec) (take end s) @ drop end s)
     else sort_by (in_order V spec) cands)"

section \<open>The best rows of a thread\<close>

record best =
  b_kept :: "candidate list"
  b_cutoff :: "candidate option"

definition best_new :: best where "best_new = \<lparr>b_kept = [], b_cutoff = None\<rparr>"

definition best_prune :: "(nat \<Rightarrow> candidate list \<Rightarrow> candidate list) \<Rightarrow> nat \<Rightarrow> best \<Rightarrow> best" where
  "best_prune sel want b =
    (if length (b_kept b) = 2 * want
     then (let kept = take want (sel (want - 1) (b_kept b)) in \<lparr>b_kept = kept, b_cutoff = Some (kept ! (want - 1))\<rparr>)
     else b)"

definition best_offer ::
  "(nat \<Rightarrow> candidate list \<Rightarrow> candidate list) \<Rightarrow> volume \<Rightarrow> sort_spec \<Rightarrow> nat \<Rightarrow> candidate \<Rightarrow> best \<Rightarrow> best" where
  "best_offer sel V spec want c b =
    (if want = 0 then b
     else
       (let b = best_prune sel want b in
        case b_cutoff b of
          Some worst \<Rightarrow> if cmp_candidate V spec c worst = CmpGreater then b else b\<lparr>b_kept := b_kept b @ [c]\<rparr>
        | None \<Rightarrow> b\<lparr>b_kept := b_kept b @ [c]\<rparr>))"

text \<open>
  The rows of the page from the buffers, each offered its candidates in some order. The slice of the page panics when
  the buffers hold too few.
\<close>

definition top_rows ::
  "(nat \<Rightarrow> candidate list \<Rightarrow> candidate list) \<Rightarrow> volume \<Rightarrow> sort_spec \<Rightarrow> nat \<Rightarrow> nat \<Rightarrow> candidate list list \<Rightarrow> candidate list option" where
  "top_rows sel V spec offset limit offers =
    (let want = offset + limit;
         bests = map (\<lambda>cs. fold (best_offer sel V spec want) cs best_new) offers;
         (start, end) = page_bounds (length (concat offers)) offset (Some limit);
         kept = order_top sel V spec end (concat (map b_kept bests))
     in if end \<le> length kept then Some (drop start (take end kept)) else None)"

section \<open>Rows of a linear order\<close>

text \<open>
  What the page relies on: a comparison that orders any two rows one way. The rows of a page are then the first of the
  one sorted list, however they are gathered.
\<close>

locale row_order =
  fixes le :: "'a \<Rightarrow> 'a \<Rightarrow> bool"
  assumes total: "le a b \<or> le b a"
    and trans: "le a b \<Longrightarrow> le b c \<Longrightarrow> le a c"
    and antisym: "le a b \<Longrightarrow> le b a \<Longrightarrow> a = b"
begin

lemma refl: "le a a"
  using total[of a a] by simp

lemma mset_insert_by [simp]: "mset (insert_by le x xs) = add_mset x (mset xs)"
  by (induction xs) auto

lemma mset_sort_by [simp]: "mset (sort_by le xs) = mset xs"
  by (induction xs) (auto simp: sort_by_def)

lemma length_sort_by [simp]: "length (sort_by le xs) = length xs"
  by (metis mset_sort_by size_mset)

lemma set_insert_by [simp]: "set (insert_by le x xs) = insert x (set xs)"
  by (induction xs) auto

lemma sorted_insert_by: "sorted_wrt le xs \<Longrightarrow> sorted_wrt le (insert_by le x xs)"
  by (induction xs) (use total trans in \<open>auto intro: trans\<close>)

lemma sorted_sort_by: "sorted_wrt le (sort_by le xs)"
  by (induction xs) (auto simp: sort_by_def sorted_insert_by)

lemma sorted_unique:
  assumes "sorted_wrt le xs" "sorted_wrt le ys" "mset xs = mset ys"
  shows "xs = ys"
  using assms
proof (induction xs arbitrary: ys)
  case (Cons x xs)
  then obtain y zs where ys: "ys = y # zs" by (cases ys) auto
  have "x \<in> set ys" "y \<in> set (x # xs)" using Cons.prems(3) ys by (metis list.set_intros(1) set_mset_mset)+
  then have "le y x" "le x y" using Cons.prems(1,2) ys refl by auto
  then have "x = y" by (rule antisym[rotated])
  then show ?case using Cons ys by simp
qed simp

lemma sort_by_eqI: "sorted_wrt le ys \<Longrightarrow> mset ys = mset xs \<Longrightarrow> sort_by le xs = ys"
  by (rule sorted_unique) (simp_all add: sorted_sort_by)

lemma sort_by_mset: "mset xs = mset ys \<Longrightarrow> sort_by le xs = sort_by le ys"
  by (rule sort_by_eqI) (simp_all add: sorted_sort_by)

text \<open>A list split at a row, nothing greater before and nothing smaller after, sorts piece by piece.\<close>

lemma sort_by_split:
  assumes "\<And>x y. x \<in> set xs \<Longrightarrow> y \<in> set ys \<Longrightarrow> le x y"
  shows "sort_by le (xs @ ys) = sort_by le xs @ sort_by le ys"
  by (rule sort_by_eqI) (use assms in \<open>auto simp: sorted_wrt_append sorted_sort_by simp flip: set_mset_mset\<close>)

lemma selected_prefix:
  assumes sel: "selects le sel" and k: "0 < k" "k \<le> length xs"
  shows "sort_by le (take k (sel (k - 1) xs)) = take k (sort_by le xs)"
    "mset (sel (k - 1) xs) = mset xs"
    "\<And>x y. x \<in> set (take k (sel (k - 1) xs)) \<Longrightarrow> le x (sel (k - 1) xs ! (k - 1))"
proof -
  let ?s = "sel (k - 1) xs"
  have m: "mset ?s = mset xs" and lo: "\<forall>x \<in> set (take (k - 1) ?s). le x (?s ! (k - 1))"
    and hi: "\<forall>y \<in> set (drop k ?s). le (?s ! (k - 1)) y"
    using sel k unfolding selects_def by (auto dest!: spec[of _ "k - 1"] spec[of _ xs])
  have len: "length ?s = length xs" using m by (metis size_mset)
  have "take k ?s = take (k - 1) ?s @ [?s ! (k - 1)]" using take_Suc_conv_app_nth[of "k - 1" ?s] k len by simp
  then show top: "le x (?s ! (k - 1))" if "x \<in> set (take k ?s)" for x using that lo refl by auto
  have "sort_by le (take k ?s @ drop k ?s) = sort_by le (take k ?s) @ sort_by le (drop k ?s)"
    using top hi by (intro sort_by_split) (blast intro: trans)
  then have "sort_by le xs = sort_by le (take k ?s) @ sort_by le (drop k ?s)" using sort_by_mset[OF m] by simp
  then show "sort_by le (take k ?s) = take k (sort_by le xs)" using k len by simp
  show "mset ?s = mset xs" by (rule m)
qed

lemma selects_sort: "selects le (\<lambda>k. sort_by le)"
proof -
  have "le x (xs ! k)" "\<And>y. y \<in> set (drop (Suc k) xs) \<Longrightarrow> le (xs ! k) y"
    if "sorted_wrt le xs" "k < length xs" "x \<in> set (take k xs)" for xs :: "'a list" and k x
    using that by (auto simp: in_set_conv_nth sorted_wrt_iff_nth_less)
  moreover have "\<And>y. y \<in> set (drop (Suc k) xs) \<Longrightarrow> le (xs ! k) y" if "sorted_wrt le xs" "k < length xs" for xs :: "'a list" and k
    using that by (auto simp: in_set_conv_nth sorted_wrt_iff_nth_less)
  ultimately show ?thesis by (simp add: selects_def sorted_sort_by)
qed

lemma mset_take_drop: "mset (take n xs) + mset (drop n xs) = mset xs"
  by (metis append_take_drop_id mset_append)

text \<open>Only the best \<open>n\<close> rows of a part count towards the best \<open>n\<close> of the whole.\<close>

lemma insert_take: "take n (insert_by le x (take n xs)) = take n (insert_by le x xs)"
  by (induction xs arbitrary: n) (auto simp: take_Cons split: nat.splits)

lemma sort_by_append: "sort_by le (xs @ ys) = foldr (insert_by le) ys (sort_by le xs)"
proof -
  have "sort_by le (xs @ ys) = sort_by le (ys @ xs)" by (rule sort_by_mset) simp
  then show ?thesis by (simp add: sort_by_def)
qed

lemma sort_by_sorted: "sorted_wrt le xs \<Longrightarrow> sort_by le xs = xs"
  by (rule sort_by_eqI) simp_all

lemma foldr_take: "take n (foldr (insert_by le) ys (take n xs)) = take n (foldr (insert_by le) ys xs)"
  by (induction ys) (simp_all, metis insert_take)

lemma sort_by_take: "take n (sort_by le (take n (sort_by le xs) @ ys)) = take n (sort_by le (xs @ ys))"
  by (simp add: sort_by_append foldr_take sort_by_sorted sorted_wrt_take sorted_sort_by)

subsection \<open>Gathering\<close>

definition gathers :: "nat \<Rightarrow> 'a list \<Rightarrow> 'a list \<Rightarrow> bool" where
  "gathers n kept offered \<longleftrightarrow> (\<forall>ys. take n (sort_by le (kept @ ys)) = take n (sort_by le (offered @ ys)))"

lemma gathers_mset: "gathers n kept offered \<Longrightarrow> mset kept = mset kept' \<Longrightarrow> mset offered = mset offered' \<Longrightarrow> gathers n kept' offered'"
  unfolding gathers_def by (metis mset_append sort_by_mset)

lemma gathers_append:
  assumes "gathers n k1 o1" "gathers n k2 o2"
  shows "gathers n (k1 @ k2) (o1 @ o2)"
  unfolding gathers_def
proof
  fix ys
  have "take n (sort_by le (k1 @ k2 @ ys)) = take n (sort_by le (o1 @ k2 @ ys))" using assms(1) by (simp add: gathers_def)
  also have "sort_by le (o1 @ k2 @ ys) = sort_by le (k2 @ o1 @ ys)" by (rule sort_by_mset) simp
  also have "take n \<dots> = take n (sort_by le (o2 @ o1 @ ys))" using assms(2) by (simp add: gathers_def)
  also have "sort_by le (o2 @ o1 @ ys) = sort_by le (o1 @ o2 @ ys)" by (rule sort_by_mset) simp
  finally show "take n (sort_by le ((k1 @ k2) @ ys)) = take n (sort_by le ((o1 @ o2) @ ys))" by simp
qed

lemma gathers_refl: "gathers n xs xs"
  by (simp add: gathers_def)

lemma gathers_prune: "gathers n kept offered \<Longrightarrow> mset kept' = mset (take n (sort_by le kept)) \<Longrightarrow> gathers n kept' offered"
  unfolding gathers_def by (metis mset_append sort_by_mset sort_by_take)

lemma sorted_prefix_le:
  "sorted_wrt le xs \<Longrightarrow> n \<le> length (filter (\<lambda>x. le x w) xs) \<Longrightarrow> x \<in> set (take n xs) \<Longrightarrow> le x w"
proof (induction xs arbitrary: n)
  case (Cons y ys)
  show ?case
  proof (cases "le y w")
    case True
    then show ?thesis using Cons by (cases n) auto
  next
    case False
    then have "filter (\<lambda>x. le x w) (y # ys) = []" using Cons.prems(1) by (auto simp: filter_empty_conv intro: trans)
    then show ?thesis using Cons.prems(2,3) by simp
  qed
qed simp

lemma insert_take_skip:
  "n \<le> length xs \<Longrightarrow> (\<And>x. x \<in> set (take n xs) \<Longrightarrow> \<not> le c x) \<Longrightarrow> take n (insert_by le c xs) = take n xs"
proof (induction xs arbitrary: n)
  case (Cons y ys)
  then show ?case by (cases n) auto
qed simp

lemma gathers_skip:
  assumes "gathers n kept offered" "n \<le> length (filter (\<lambda>x. le x w) kept)" "\<not> le c w"
  shows "gathers n kept (offered @ [c])"
  unfolding gathers_def
proof
  fix ys
  let ?s = "sort_by le (kept @ ys)"
  have "mset (filter (\<lambda>x. le x w) ?s) = mset (filter (\<lambda>x. le x w) (kept @ ys))" by (simp only: mset_filter mset_sort_by)
  then have "length (filter (\<lambda>x. le x w) ?s) = length (filter (\<lambda>x. le x w) (kept @ ys))" by (metis size_mset)
  then have f: "n \<le> length (filter (\<lambda>x. le x w) ?s)" using assms(2) by simp
  then have n: "n \<le> length ?s" using length_filter_le[of "\<lambda>x. le x w" ?s] by (rule le_trans)
  have "\<not> le c x" if "x \<in> set (take n ?s)" for x
    using sorted_prefix_le[OF sorted_sort_by f that] assms(3) trans by blast
  then have "take n (insert_by le c ?s) = take n ?s" using n by (intro insert_take_skip) auto
  moreover have "sort_by le (kept @ c # ys) = insert_by le c ?s"
  proof -
    have "sort_by le (kept @ c # ys) = sort_by le (c # kept @ ys)" by (rule sort_by_mset) simp
    then show ?thesis by (simp add: sort_by_def)
  qed
  ultimately have "take n ?s = take n (sort_by le (kept @ c # ys))" by simp
  then show "take n (sort_by le (kept @ ys)) = take n (sort_by le ((offered @ [c]) @ ys))"
    using assms(1) by (simp add: gathers_def)
qed

end

section \<open>The order of candidates\<close>

definition cand_tuple :: "volume \<Rightarrow> candidate \<Rightarrow> u64 \<times> u8 list \<times> entry_idx" where
  "cand_tuple V c = (c_key c, cand_name V (c_idx c), c_idx c)"

lemma cmp_of_simps: "cmp_of a b = CmpLess \<longleftrightarrow> a < b" "cmp_of a b = CmpGreater \<longleftrightarrow> b < a" "cmp_of a b = CmpEqual \<longleftrightarrow> a = b"
  by (auto simp: cmp_of_def)

lemma then_with_greater: "then_with r s = CmpGreater \<longleftrightarrow> r = CmpGreater \<or> r = CmpEqual \<and> s = CmpGreater"
  by (cases r) auto

lemma then_with_less: "then_with r s = CmpLess \<longleftrightarrow> r = CmpLess \<or> r = CmpEqual \<and> s = CmpLess"
  by (cases r) auto

lemma cmp_reverse_greater: "cmp_reverse r = CmpGreater \<longleftrightarrow> r = CmpLess"
  by (cases r) auto

lemma in_order_tuple:
  "in_order V spec a b \<longleftrightarrow>
    (if sort_dir spec = Desc then cand_tuple V b \<le> cand_tuple V a else cand_tuple V a \<le> cand_tuple V b)"
  by (auto simp: in_order_def cmp_candidate_def Let_def cand_tuple_def then_with_greater then_with_less cmp_reverse_greater
    cmp_of_simps less_eq_prod_def)

lemma cand_tuple_inj: "cand_tuple V a = cand_tuple V b \<Longrightarrow> a = b"
  by (simp add: cand_tuple_def)

interpretation rows: row_order "in_order V spec" for V spec
  by unfold_locales (auto simp: in_order_tuple dest: cand_tuple_inj split: if_splits)

lemma order_top_take:
  assumes "selects (in_order V spec) sel"
  shows "take end (order_top sel V spec end cands) = take end (sort_by (in_order V spec) cands)"
    "mset (order_top sel V spec end cands) = mset cands"
proof -
  note s = rows.selected_prefix[OF assms, of "end" cands]
  have m: "mset (take end xs) + mset (drop end xs) = mset xs" for xs :: "candidate list" by (rule rows.mset_take_drop)
  have "end < length cands \<Longrightarrow> end \<noteq> 0 \<Longrightarrow> length (sel (end - 1) cands) = length cands" using s(2) by (metis less_imp_le neq0_conv size_mset)
  then show "take end (order_top sel V spec end cands) = take end (sort_by (in_order V spec) cands)"
    using s(1) by (auto simp: order_top_def Let_def)
  show "mset (order_top sel V spec end cands) = mset cands" using s(2) m by (auto simp: order_top_def Let_def)
qed

section \<open>Buffers\<close>

definition best_ok :: "volume \<Rightarrow> sort_spec \<Rightarrow> nat \<Rightarrow> candidate list \<Rightarrow> best \<Rightarrow> bool" where
  "best_ok V spec want offered b \<longleftrightarrow>
    rows.gathers V spec want (b_kept b) offered \<and> length (b_kept b) \<le> 2 * want \<and>
    (\<forall>w. b_cutoff b = Some w \<longrightarrow> want \<le> length (filter (\<lambda>x. in_order V spec x w) (b_kept b)))"

lemma best_prune_ok:
  assumes sel: "selects (in_order V spec) sel" and w: "0 < want" and b: "best_ok V spec want offered b"
  shows "best_ok V spec want offered (best_prune sel want b)" "length (b_kept (best_prune sel want b)) < 2 * want"
proof -
  let ?s = "sel (want - 1) (b_kept b)"
  show "best_ok V spec want offered (best_prune sel want b)"
  proof (cases "length (b_kept b) = 2 * want")
    case True
    note p = rows.selected_prefix[OF sel w, of "b_kept b"]
    have l: "want \<le> length (b_kept b)" using True by simp
    have len: "length ?s = 2 * want" using p(2)[OF l] True by (metis size_mset)
    have "mset (take want ?s) = mset (take want (sort_by (in_order V spec) (b_kept b)))"
      using p(1)[OF l] by (metis rows.mset_sort_by)
    then have "rows.gathers V spec want (take want ?s) offered"
      using b unfolding best_ok_def by (blast intro: rows.gathers_prune)
    moreover have "filter (\<lambda>x. in_order V spec x (take want ?s ! (want - 1))) (take want ?s) = take want ?s"
      using p(3)[OF l] w by (simp add: filter_id_conv)
    ultimately show ?thesis using True len by (simp add: best_ok_def best_prune_def Let_def)
  qed (use b in \<open>simp add: best_prune_def\<close>)
  have "length (b_kept b) \<le> 2 * want" using b by (simp add: best_ok_def)
  then show "length (b_kept (best_prune sel want b)) < 2 * want"
    using w rows.selected_prefix(2)[OF sel w, of "b_kept b"] by (auto simp: best_prune_def Let_def dest: arg_cong[where f = size])
qed

lemma best_offer_ok:
  assumes sel: "selects (in_order V spec) sel" and w: "0 < want" and b: "best_ok V spec want offered b"
  shows "best_ok V spec want (offered @ [c]) (best_offer sel V spec want c b)"
proof -
  let ?b = "best_prune sel want b"
  note p = best_prune_ok[OF sel w b]
  have g: "rows.gathers V spec want (b_kept ?b) offered" using p(1) by (simp add: best_ok_def)
  have push: "best_ok V spec want (offered @ [c]) (?b\<lparr>b_kept := b_kept ?b @ [c]\<rparr>)"
    using p rows.gathers_append[OF g rows.gathers_refl, of "[c]"] by (force simp: best_ok_def)
  show ?thesis
  proof (cases "b_cutoff ?b")
    case (Some k)
    then have "want \<le> length (filter (\<lambda>x. in_order V spec x k) (b_kept ?b))" using p(1) by (simp add: best_ok_def)
    then have "\<not> in_order V spec c k \<Longrightarrow> best_ok V spec want (offered @ [c]) ?b"
      using rows.gathers_skip[OF g] p(1) by (simp add: best_ok_def)
    then show ?thesis using push w Some by (simp add: best_offer_def Let_def in_order_def)
  qed (use push w in \<open>simp add: best_offer_def Let_def\<close>)
qed

lemma best_fold_ok:
  assumes "selects (in_order V spec) sel" "0 < want"
  shows "best_ok V spec want cs (fold (best_offer sel V spec want) cs best_new)"
proof (induction cs rule: rev_induct)
  case Nil
  show ?case by (simp add: best_ok_def best_new_def rows.gathers_refl)
next
  case (snoc c cs)
  then show ?case using best_offer_ok[OF assms] by simp
qed

lemma buffers_gather:
  assumes "selects (in_order V spec) sel" "0 < want"
  shows "rows.gathers V spec want (concat (map (\<lambda>cs. b_kept (fold (best_offer sel V spec want) cs best_new)) offers)) (concat offers)"
  by (induction offers) (use best_fold_ok[OF assms] in \<open>auto simp: best_ok_def rows.gathers_refl intro: rows.gathers_append\<close>)

text \<open>
  C38. The bounded buffers give the page of a full sort. However the matches are spread over the threads' buffers and in
  whatever order each is offered its own, whatever side of the chosen row selection leaves the others on, pruning to the
  best rows and turning away what sorts after the worst kept loses no row of the page: gathering never panics and gives
  exactly the rows from the offset on of all matches sorted.
\<close>

theorem top_rows_is_page:
  assumes "selects (in_order V spec) sel"
  shows "top_rows sel V spec offset limit offers =
    Some (take limit (drop offset (sort_by (in_order V spec) (concat offers))))"
proof -
  let ?want = "offset + limit" and ?n = "length (concat offers)"
  let ?K = "concat (map (\<lambda>cs. b_kept (fold (best_offer sel V spec ?want) cs best_new)) offers)"
  let ?le = "in_order V spec"
  define fin where "fin = min (min offset ?n + limit) ?n"
  have e: "fin \<le> ?want" "fin \<le> ?n" by (auto simp: fin_def)
  have g: "take ?want (sort_by ?le ?K) = take ?want (sort_by ?le (concat offers))" if "0 < ?want"
    using buffers_gather[OF assms that, of offers] unfolding rows.gathers_def by (metis append_Nil2)
  have "fin \<le> length ?K"
  proof (cases "0 < ?want")
    case True
    then have "min ?want (length ?K) = min ?want ?n" using g[OF True] by (metis length_take min.commute rows.length_sort_by)
    then show ?thesis using e by linarith
  qed (use e in simp)
  moreover have "take fin (sort_by ?le ?K) = take fin (sort_by ?le (concat offers))"
  proof (cases "0 < ?want")
    case True
    then show ?thesis using arg_cong[OF g[OF True], of "take fin"] e(1) by (simp add: min_absorb1)
  qed (use e in simp)
  moreover have "length (order_top sel V spec fin ?K) = length ?K" using order_top_take(2)[OF assms] by (metis size_mset)
  ultimately have "top_rows sel V spec offset limit offers = Some (drop (min offset ?n) (take fin (sort_by ?le (concat offers))))"
    using order_top_take(1)[OF assms, of fin ?K] by (simp add: top_rows_def page_bounds_def Let_def comp_def fin_def)
  moreover have "drop (min offset ?n) (take fin xs) = take limit (drop offset xs)" if "length xs = ?n" for xs :: "candidate list"
    using that by (cases "offset \<le> ?n") (auto simp: fin_def drop_take min_def)
  ultimately show ?thesis by simp
qed

theorem top_rows_is_page_witness:
  "let V = sample_vol; le = in_order V sort_spec_default; row = (\<lambda>i k. \<lparr>c_idx = i, c_key = k\<rparr>) in
   top_rows (\<lambda>k. sort_by le) V sort_spec_default 1 2 [[row 4 5, row 2 3], [], [row 7 9, row 3 1]] = Some [row 2 3, row 4 5]"
  using top_rows_is_page[OF rows.selects_sort[of sample_vol sort_spec_default], of 1 2
      "[[\<lparr>c_idx = 4, c_key = 5\<rparr>, \<lparr>c_idx = 2, c_key = 3\<rparr>], [], [\<lparr>c_idx = 7, c_key = 9\<rparr>, \<lparr>c_idx = 3, c_key = 1\<rparr>]]"]
  by (simp add: sort_by_def in_order_tuple cand_tuple_def sort_spec_default_def default_for_def word_le_nat_alt word_less_nat_alt)

section \<open>Unknown sizes and dates\<close>

definition sign_bit :: u64 where "sign_bit = push_bit 63 1"

lemma bit_sign_bit: "bit sign_bit n \<longleftrightarrow> n = 63"
  unfolding sign_bit_def bit_push_bit_iff by (auto simp: bit_simps)

lemma flip_sign: "x XOR sign_bit = x + sign_bit"
proof (cases "bit x 63")
  case True
  have "x - sign_bit = x AND NOT sign_bit" using True by (intro disjunctive_diff) (auto simp: bit_sign_bit)
  moreover have "x XOR sign_bit = x AND NOT sign_bit"
    using True by (auto intro!: bit_word_eqI simp: bit_xor_iff bit_and_iff bit_not_iff bit_sign_bit)
  moreover have "- sign_bit = sign_bit" by (simp add: sign_bit_def)
  ultimately show ?thesis by (metis diff_conv_add_uminus)
next
  case False
  have "x XOR sign_bit = x OR sign_bit"
    using False by (auto intro!: bit_word_eqI simp: bit_xor_iff bit_or_iff bit_sign_bit)
  moreover have "x + sign_bit = x OR sign_bit" using False by (intro disjunctive_add) (auto simp: bit_sign_bit)
  ultimately show ?thesis by simp
qed

lemma unat_mtime:
  assumes "i64_ok t" "t \<noteq> I64_MIN"
  shows "uint ((u64_of t XOR push_bit 63 1) - 1) = t + 2 ^ 63 - 1"
proof -
  have "(u64_of t XOR push_bit 63 1) - 1 = u64_of t + sign_bit - 1" using flip_sign[of "u64_of t"] by (simp add: sign_bit_def)
  also have "\<dots> = word_of_int (t + 2 ^ 63 - 1)" by (simp add: u64_of_def sign_bit_def)
  finally have e: "(u64_of t XOR push_bit 63 1) - 1 = word_of_int (t + 2 ^ 63 - 1)" .
  have "0 \<le> t + 2 ^ 63 - 1" "t + 2 ^ 63 - 1 < 2 ^ LENGTH(64)" using assms by (simp_all add: i64_ok_def I64_MIN_def I64_MAX_def)
  then show ?thesis unfolding e uint_word_of_int by (rule mod_pos_pos_trivial)
qed

lemma uint_minus_1: "uint (- 1 :: u64) = 2 ^ 64 - 1"
  by (simp add: unsigned_minus_1_eq_mask mask_eq_exp_minus_1)

lemma uint_succ:
  assumes "k \<noteq> - 1"
  shows "uint (k + 1) = uint (k :: u64) + 1"
proof -
  have "uint k \<noteq> uint (- 1 :: u64)" using assms by (auto dest: word_uint_eqI)
  then have "uint k \<noteq> 2 ^ 64 - 1" unfolding uint_minus_1 .
  moreover have "uint k < 2 ^ 64" using uint_lt2p[of k] by simp
  ultimately have "uint k + uint (1 :: u64) < 2 ^ LENGTH(64)" by simp
  then show ?thesis using uint_add_lem[of k 1] by simp
qed

lemma unknown_last_order:
  assumes "k1 \<noteq> - 1" "k2 \<noteq> - 1"
  shows "unknown_last (Some k1) dir < unknown_last (Some k2) dir \<longleftrightarrow> k1 < k2"
    "unknown_last (Some k1) Asc < unknown_last None Asc" "unknown_last None Desc < unknown_last (Some k1) Desc"
proof -
  have "k1 < - 1" using assms(1) by (metis word_order.not_eq_extremum)
  moreover have "0 < k1 + 1" using uint_succ[OF assms(1)] uint_nonnegative[of k1] by (simp add: word_less_def)
  moreover have "k1 + 1 < k2 + 1 \<longleftrightarrow> k1 < k2" using uint_succ[OF assms(1)] uint_succ[OF assms(2)] by (auto simp: word_less_def)
  ultimately show "unknown_last (Some k1) dir < unknown_last (Some k2) dir \<longleftrightarrow> k1 < k2"
    "unknown_last (Some k1) Asc < unknown_last None Asc" "unknown_last None Desc < unknown_last (Some k1) Desc"
    by (cases dir; simp add: unknown_last_def)+
qed

lemma mtime_word_ok:
  assumes "i64_ok t" "t \<noteq> I64_MIN"
  shows "(u64_of t XOR push_bit 63 1) - 1 \<noteq> - 1"
proof
  assume "(u64_of t XOR push_bit 63 1) - 1 = - 1"
  then have "t + 2 ^ 63 - 1 = 2 ^ 64 - 1" using unat_mtime[OF assms] by (simp only: uint_minus_1)
  then show False using assms(1) by (simp add: i64_ok_def I64_MIN_def I64_MAX_def)
qed

text \<open>Rows of a date sort: known dates in the direction of the sort, unknown ones last in both directions.\<close>

lemma date_rows:
  assumes "i64_ok s" "s \<noteq> I64_MIN" "i64_ok t" "t \<noteq> I64_MIN"
  shows "c_key a = mtime_key (Some s) (sort_dir spec) \<Longrightarrow> c_key b = mtime_key None (sort_dir spec) \<Longrightarrow>
      in_order V spec a b \<and> \<not> in_order V spec b a"
    "c_key a = mtime_key (Some s) (sort_dir spec) \<Longrightarrow> c_key b = mtime_key (Some t) (sort_dir spec) \<Longrightarrow> s < t \<Longrightarrow>
      in_order V spec a b \<longleftrightarrow> sort_dir spec = Asc"
proof -
  note k = mtime_word_ok[OF assms(1,2)] mtime_word_ok[OF assms(3,4)]
  note u = unknown_last_order[OF k]
  show "in_order V spec a b \<and> \<not> in_order V spec b a"
    if "c_key a = mtime_key (Some s) (sort_dir spec)" "c_key b = mtime_key None (sort_dir spec)"
    using that u(2,3) by (cases "sort_dir spec") (auto simp: in_order_tuple cand_tuple_def mtime_key_def)
  show "in_order V spec a b \<longleftrightarrow> sort_dir spec = Asc"
    if "c_key a = mtime_key (Some s) (sort_dir spec)" "c_key b = mtime_key (Some t) (sort_dir spec)" "s < t"
  proof -
    have "c_key a < c_key b" using that u(1) unat_mtime[OF assms(1,2)] unat_mtime[OF assms(3,4)]
      by (simp add: mtime_key_def word_less_def)
    then show ?thesis by (cases "sort_dir spec") (auto simp: in_order_tuple cand_tuple_def)
  qed
qed

end
