(* ===== verification/Fold_Split.thy ===== *)
theory Fold_Split
  imports Glob
begin

text \<open>
  Folding and separators (\<open>fold.rs\<close>, \<open>wtf8.rs\<close>): decoding resynchronises at every ASCII byte, so a name folds part by
  part around a byte the composition of the Unicode tables leaves alone, such as the dot of an extension or the
  separator of a path.
\<close>

section \<open>Decoding around an ASCII byte\<close>

lemma continuation_loop_prefix:
  "j + n \<le> length a \<Longrightarrow> continuation_loop (a @ b) j n cp = continuation_loop a j n cp"
  by (induction n arbitrary: j cp) (auto simp: nth_append Let_def)

lemma continuation_loop_ascii:
  assumes "s < 0x80"
  shows "j \<le> length a \<Longrightarrow> length a < j + n \<Longrightarrow> continuation_loop (a @ s # b) j n cp = None"
proof (induction n arbitrary: j cp)
  case (Suc n)
  have s: "s AND 0xC0 \<noteq> 0x80"
  proof
    assume h: "s AND 0xC0 = 0x80"
    have "bit (s AND 0xC0) 7" unfolding h by simp
    moreover have "\<not> bit s 7" using assms bit_imp_le_unat[of s 7] by (auto simp: word_less_nat_alt)
    ultimately show False by (simp add: bit_and_iff)
  qed
  show ?case
  proof (cases "j = length a")
    case True
    then show ?thesis using s by simp
  next
    case False
    then show ?thesis using Suc by (simp add: Let_def)
  qed
qed simp

lemma code_points_next_ascii:
  assumes "s < 0x80" "a \<noteq> []"
  shows "code_points_next (a @ s # b) 0 = code_points_next a 0"
proof (cases "lead_byte (a ! 0)")
  case None
  then show ?thesis using assms(2) by (simp add: code_points_next_def nth_append)
next
  case (Some p)
  obtain len init where p: "p = (len, init)" by (cases p)
  have len: "1 \<le> len" using lead_byte_len Some p by simp
  show ?thesis
  proof (cases "len \<le> length a")
    case True
    then have "continuation_loop (a @ s # b) 1 (len - 1) init = continuation_loop a 1 (len - 1) init"
      using len by (intro continuation_loop_prefix) simp
    then show ?thesis using True Some p assms(2) by (simp add: code_points_next_def nth_append)
  next
    case False
    have "0 < length a" using assms(2) by simp
    then have "continuation_loop (a @ s # b) 1 (len - 1) init = None"
      using False len by (intro continuation_loop_ascii[OF assms(1)]) linarith+
    then show ?thesis using False Some p assms(2) by (simp add: code_points_next_def nth_append)
  qed
qed

lemma code_points_ascii_split:
  assumes "s < 0x80"
  shows "code_points (a @ s # b) = code_points a @ ucast s # code_points b"
proof (induction "length a" arbitrary: a rule: less_induct)
  case less
  show ?case
  proof (cases a)
    case Nil
    have "code_points_next (s # b) 0 = Some (ucast s, 1)"
      using assms by (intro code_points_next_1) (simp_all add: word_less_nat_alt)
    then show ?thesis using Nil by (subst code_points_unfold) simp
  next
    case (Cons c a')
    have "code_points_next a 0 \<noteq> None" using Cons by (simp add: code_points_next_def split: option.split)
    then obtain cp j where n: "code_points_next a 0 = Some (cp, j)" by auto
    note j = code_points_next_progress[OF n]
    have "code_points (drop j a @ s # b) = code_points (drop j a) @ ucast s # code_points b"
      using j Cons by (intro less) simp
    moreover have "drop j (a @ s # b) = drop j a @ s # b" using j by simp
    moreover have "code_points_next (a @ s # b) 0 = Some (cp, j)" using n Cons code_points_next_ascii[OF assms, of a b] by simp
    ultimately show ?thesis using n code_points_unfold[of "a @ s # b"] code_points_unfold[of a] by simp
  qed
qed

section \<open>Folding around a separator\<close>

text \<open>What the tables say of a separator: nothing composes with it.\<close>

definition composes_apart :: "unicode \<Rightarrow> u8 \<Rightarrow> bool" where
  "composes_apart U s \<longleftrightarrow> (\<forall>x y. uni_nfc U (x @ ucast s # y) = uni_nfc U x @ ucast s # uni_nfc U y)"

definition fold_rest :: "unicode \<Rightarrow> u32 list \<Rightarrow> u32 list \<times> u8 list \<Rightarrow> u8 list" where
  "fold_rest U cs st = (let (run, out) = fold (fold_code_point U) cs st in snd (compose_into U run out))"

lemma encode_onto: "encode c out = out @ encode_code_point c []"
  unfolding encode_eq by (rule encode_append)

lemma fold_encode: "fold encode cs out = out @ encode_all cs"
proof (induction cs arbitrary: out)
  case (Cons c cs)
  then show ?case using encode_append[of c out] by (simp add: encode_eq encode_all_def)
qed (simp add: encode_all_def)

lemma fold_rest_out: "fold_rest U cs (run, out) = out @ fold_rest U cs (run, [])"
proof (induction cs arbitrary: run out)
  case Nil
  then show ?case by (simp add: fold_rest_def compose_into_def fold_encode)
next
  case (Cons c cs)
  show ?case
  proof (cases "is_surrogate c \<or> 0x10FFFF < c")
    case True
    let ?o = "\<lambda>out. encode c (snd (compose_into U run out))"
    have "fold_rest U (c # cs) (run, out) = fold_rest U cs ([], ?o out)" for out
      using True by (simp add: fold_rest_def fold_code_point_def compose_into_def)
    moreover have "?o out = out @ ?o []"
      using encode_append[of c "snd (compose_into U run out)"] encode_append[of c "snd (compose_into U run [])"]
      by (simp add: compose_into_def fold_encode[unfolded encode_eq] encode_eq)
    ultimately show ?thesis using Cons[of "[]" "?o out"] Cons[of "[]" "?o []"] by simp
  next
    case False
    then have "fold_rest U (c # cs) (run, out) = fold_rest U cs (run @ map (lower_char U) (uni_decompose U c), out)" for out
      by (simp add: fold_rest_def fold_code_point_def)
    then show ?thesis using Cons by metis
  qed
qed

lemma fold_rest_split:
  assumes "composes_apart U s" "uni_nfc U [] = []"
  shows "fold_rest U cs (r @ ucast s # r', out) = fold_rest U cs (r', out @ encode_all (uni_nfc U r) @ encode_all [ucast s])"
proof (induction cs arbitrary: r' out)
  case Nil
  then show ?case using assms
    by (simp add: fold_rest_def compose_into_def fold_encode composes_apart_def encode_all_append encode_onto)
next
  case (Cons c cs)
  show ?case
  proof (cases "is_surrogate c \<or> 0x10FFFF < c")
    case True
    then show ?thesis using assms
      by (simp add: fold_rest_def fold_code_point_def compose_into_def fold_encode composes_apart_def encode_all_append encode_onto)
  next
    case False
    then show ?thesis using Cons[of "r' @ map (lower_char U) (uni_decompose U c)" out]
      by (simp add: fold_rest_def fold_code_point_def)
  qed
qed

lemma fold_rest_append: "fold_rest U (xs @ ys) st = fold_rest U ys (fold (fold_code_point U) xs st)"
  by (simp add: fold_rest_def)

lemma encode_ascii_one: "s < 0x80 \<Longrightarrow> encode_all [ucast (s :: u8)] = [s]"
  using encode_ascii[of "[s]" "[]"] by (simp add: encode_all_def encode_eq)

text \<open>A separator is an ASCII byte that is no capital letter and that nothing composes with.\<close>

definition separates :: "unicode \<Rightarrow> u8 \<Rightarrow> bool" where
  "separates U s \<longleftrightarrow> ascii_tables U \<and> composes_apart U s \<and> s < 0x80 \<and> \<not> (0x41 \<le> s \<and> s \<le> 0x5A)"

lemma fold_name_non_ascii: "ascii_tables U \<Longrightarrow> fold_name U bs = fold_rest U (code_points bs) ([], [])"
  using fold_fast_path[of U bs "[]"] by (cases "is_ascii bs") (simp_all add: fold_name_def fold_into_def fold_non_ascii_def fold_rest_def)

lemma fold_name_split:
  assumes "separates U s"
  shows "fold_name U (a @ s # b) = fold_name U a @ s # fold_name U b"
proof -
  have t: "ascii_tables U" "composes_apart U s" "s < 0x80" using assms by (simp_all add: separates_def)
  have nil: "uni_nfc U [] = []" using t(1) by (simp add: ascii_tables_def)
  have "lower_char U (ucast s) = ucast s"
    using lower_ascii_ucast(1)[OF t(1,3)] assms by (auto simp: separates_def to_ascii_lowercase_def split: if_splits)
  then have c: "fold_code_point U (ucast s) (run, out) = (run @ [ucast s], out)" for run out
    using fold_ascii_run[OF t(1), of "[ucast s]" run out] t(3) by (simp add: word_less_nat_alt)
  obtain run out where st: "fold (fold_code_point U) (code_points a) ([], []) = (run, out)"
    by (cases "fold (fold_code_point U) (code_points a) ([], [])")
  have a: "fold_name U a = out @ encode_all (uni_nfc U run)"
    using fold_name_non_ascii[OF t(1), of a] st nil by (simp add: fold_rest_def compose_into_def fold_encode)
  have "fold_name U (a @ s # b) = fold_rest U (ucast s # code_points b) (run, out)"
    using fold_name_non_ascii[OF t(1)] code_points_ascii_split[OF t(3)] st by (simp add: fold_rest_append)
  also have "\<dots> = fold_rest U (code_points b) (run @ ucast s # [], out)" using c by (simp add: fold_rest_def)
  also have "\<dots> = out @ encode_all (uni_nfc U run) @ s # fold_rest U (code_points b) ([], [])"
    using fold_rest_split[OF t(2) nil, of "code_points b" run "[]" out]
      fold_rest_out[of U "code_points b" "[]" "out @ encode_all (uni_nfc U run) @ encode_all [ucast s]"] encode_ascii_one[OF t(3)]
    by simp
  finally show ?thesis using a fold_name_non_ascii[OF t(1), of b] by simp
qed

lemma ascii_unicode_separates: "s < 0x80 \<Longrightarrow> \<not> (0x41 \<le> s \<and> s \<le> 0x5A) \<Longrightarrow> separates ascii_unicode s"
  by (auto simp: separates_def composes_apart_def ascii_tables_def ascii_unicode_def lower_char_def)

end
