(* ===== verification/Engine_Match.thy ===== *)
theory Engine_Match
  imports Query_Parse Engine_Page Fold_Split "HOL-Library.Sublist"
begin

text \<open>
  What a query tests of a name and of a path (\<open>query/engine.rs\<close>): filters, extensions, wildcards, the literal that
  drives the scan, the path terms a mount prefix admits, and what a path term needs of a name in a folder. The byte
  searches of the \<open>memchr\<close> crate are a parameter.
\<close>

section \<open>Byte searches\<close>

record search_lib =
  sl_find :: "u8 list \<Rightarrow> u8 list \<Rightarrow> nat option"
  sl_chr :: "u8 \<Rightarrow> u8 list \<Rightarrow> nat option"
  sl_rchr :: "u8 \<Rightarrow> u8 list \<Rightarrow> nat option"

definition found_at :: "u8 list \<Rightarrow> u8 list \<Rightarrow> nat \<Rightarrow> bool" where
  "found_at hay needle i \<longleftrightarrow> i + length needle \<le> length hay \<and> take (length needle) (drop i hay) = needle"

text \<open>What the crate documents: the first occurrence of a needle, the first and the last place of a byte.\<close>

definition finds_first :: "search_lib \<Rightarrow> bool" where
  "finds_first L \<longleftrightarrow> (\<forall>hay needle. case sl_find L hay needle of
      Some i \<Rightarrow> found_at hay needle i \<and> (\<forall>j < i. \<not> found_at hay needle j)
    | None \<Rightarrow> \<forall>i. \<not> found_at hay needle i)"

definition finds_bytes :: "search_lib \<Rightarrow> bool" where
  "finds_bytes L \<longleftrightarrow>
    (\<forall>c hay. case sl_chr L c hay of Some i \<Rightarrow> i < length hay \<and> hay ! i = c \<and> c \<notin> set (take i hay) | None \<Rightarrow> c \<notin> set hay) \<and>
    (\<forall>c hay. case sl_rchr L c hay of Some i \<Rightarrow> i < length hay \<and> hay ! i = c \<and> c \<notin> set (drop (i + 1) hay) | None \<Rightarrow> c \<notin> set hay)"

lemma found_at_iff: "found_at hay needle i \<longleftrightarrow> (\<exists>a b. hay = a @ needle @ b \<and> length a = i)"
proof
  assume f: "found_at hay needle i"
  then have "hay = take i hay @ needle @ drop (length needle) (drop i hay)"
    unfolding found_at_def by (metis append_take_drop_id)
  moreover have "length (take i hay) = i" using f by (simp add: found_at_def)
  ultimately show "\<exists>a b. hay = a @ needle @ b \<and> length a = i" by blast
qed (auto simp: found_at_def)

lemma find_sublist:
  assumes "finds_first L"
  shows "sl_find L hay needle \<noteq> None \<longleftrightarrow> sublist needle hay"
proof -
  have "(\<exists>i. found_at hay needle i) \<longleftrightarrow> sublist needle hay" by (auto simp: found_at_iff sublist_def)
  then show ?thesis using assms[unfolded finds_first_def, rule_format, of hay needle] by (auto split: option.splits)
qed

section \<open>Filters\<close>

definition kind_matches :: "kind option \<Rightarrow> bool \<Rightarrow> bool" where
  "kind_matches k is_dir = (case k of None \<Rightarrow> True | Some KFile \<Rightarrow> \<not> is_dir | Some KFolder \<Rightarrow> is_dir)"

definition size_matches :: "size_range \<Rightarrow> u64 option \<Rightarrow> bool" where
  "size_matches r sz = (case sz of Some s \<Rightarrow> size_contains r (unat s) | None \<Rightarrow> False)"

text \<open>\<open>rposition\<close> of a byte: what follows its last place.\<close>

definition after_last :: "u8 \<Rightarrow> u8 list \<Rightarrow> u8 list option" where
  "after_last c bs = (if c \<in> set bs then Some (rev (takeWhile (\<lambda>b. b \<noteq> c) (rev bs))) else None)"

definition ext_matches :: "unicode \<Rightarrow> filters \<Rightarrow> u8 list \<Rightarrow> bool" where
  "ext_matches U fl name =
    (case fl_ext fl of
       None \<Rightarrow> True
     | Some exts \<Rightarrow> (case after_last 0x2E name of None \<Rightarrow> False | Some e \<Rightarrow> fold_name U e \<in> set exts))"

fun wildcards_all :: "wildcard list \<Rightarrow> u32 list \<Rightarrow> budget \<Rightarrow> (bool \<times> budget) option" where
  "wildcards_all [] cps b = Some (True, b)"
| "wildcards_all (w # ws) cps b =
    do { (r, b) \<leftarrow> matches_decoded w cps b; if r then wildcards_all ws cps b else Some (False, b) }"

definition wildcards_match :: "wildcard list \<Rightarrow> u8 list \<Rightarrow> budget \<Rightarrow> (bool \<times> budget) option" where
  "wildcards_match ws txt b = wildcards_all ws (code_points txt) b"

section \<open>Compiled queries\<close>

definition term_admits :: "search_lib \<Rightarrow> u8 list \<Rightarrow> u8 list \<Rightarrow> bool" where
  "term_admits L trm mount =
    (case sl_chr L 0x3A trm of
       None \<Rightarrow> True
     | Some k \<Rightarrow>
         (case sl_chr L 0x3A mount of
            None \<Rightarrow> False
          | Some c \<Rightarrow>
              if c < k then False
              else (let start = c - k; overlap = min (length mount - start) (length trm)
                    in take overlap trm = take overlap (drop start mount))))"

definition consider_piece :: "search_lib \<Rightarrow> u8 list \<Rightarrow> u8 list \<Rightarrow> u8 list option \<Rightarrow> u8 list option" where
  "consider_piece L mount piece best =
    (if piece \<noteq> [] \<and> (case best of None \<Rightarrow> 0 | Some b \<Rightarrow> length b) \<le> length piece \<and> sl_find L mount piece = None
     then Some piece else best)"

definition path_piece :: "search_lib \<Rightarrow> parsed_query \<Rightarrow> u8 list \<Rightarrow> u8 list option" where
  "path_piece L q mount =
    (if mount \<noteq> [] \<and> last mount \<noteq> 0x5C then None
     else fold (consider_piece L mount)
       (concat (map (split_on (\<lambda>b. b = 0x5C)) (q_path_terms q)) @ concat (map separator_free_literals (q_path_wildcards q))) None)"

definition consider_literal :: "u8 list \<times> bool \<Rightarrow> u8 list option \<times> bool \<Rightarrow> u8 list option \<times> bool" where
  "consider_literal c st =
    (case (c, st) of ((cand, is_name_term), (best, from_name_term)) \<Rightarrow>
      if (case best of None \<Rightarrow> 0 | Some b \<Rightarrow> length b) < length cand then (Some cand, is_name_term) else (best, from_name_term))"

definition ext_literal :: "filters \<Rightarrow> u8 list list" where
  "ext_literal fl = (case fl_ext fl of Some [e] \<Rightarrow> if e \<noteq> [] then [0x2E # e] else [] | _ \<Rightarrow> [])"

definition query_literals :: "parsed_query \<Rightarrow> (u8 list \<times> bool) list" where
  "query_literals q =
    map (\<lambda>t. (t, True)) (q_name_terms q) @
    map (\<lambda>l. (l, False)) (List.map_filter longest_literal (q_wildcards q)) @
    map (\<lambda>l. (l, False)) (ext_literal (q_filters q))"

record compiled_query =
  cq_name_finders :: "u8 list list"
  cq_path_finders :: "u8 list list"
  cq_prefilter :: "u8 list option"
  cq_prefilter_decides_name :: bool
  cq_prefix :: "u8 list"
  cq_volume_admits :: bool
  cq_path_wildcard_ends :: "(u8 list \<times> u8 list) list"
  cq_path_piece :: "u8 list option"

definition compile_query :: "search_lib \<Rightarrow> unicode \<Rightarrow> parsed_query \<Rightarrow> u8 list \<Rightarrow> compiled_query" where
  "compile_query L U q mount_prefix =
    (let (prefilter, from_name_term) = fold consider_literal (query_literals q) (None, False);
         mount = (if q_match_case q then mount_prefix else fold_name U mount_prefix)
     in \<lparr>cq_name_finders = q_name_terms q,
         cq_path_finders = filter (\<lambda>t. sl_find L mount t = None) (q_path_terms q),
         cq_prefilter = prefilter,
         cq_prefilter_decides_name =
           from_name_term \<and> length (q_name_terms q) = 1 \<and> q_wildcards q = [] \<and> fl_ext (q_filters q) = None,
         cq_prefix = mount,
         cq_volume_admits =
           list_all (\<lambda>t. term_admits L t mount) (q_path_terms q) \<and>
           list_all (\<lambda>w. let lit = leading_literal w; n = min (length lit) (length mount) in take n lit = take n mount)
             (q_path_wildcards q),
         cq_path_wildcard_ends = map (\<lambda>w. (leading_literal w, trailing_literal w)) (q_path_wildcards q),
         cq_path_piece = (if q_match_case q then None else path_piece L q mount)\<rparr>)"

definition tests_paths :: "compiled_query \<Rightarrow> parsed_query \<Rightarrow> bool" where
  "tests_paths cq q \<longleftrightarrow> cq_path_finders cq \<noteq> [] \<or> q_path_wildcards q \<noteq> []"

text \<open>The name predicates on a name's raw and folded bytes.\<close>

definition name_predicates ::
  "search_lib \<Rightarrow> unicode \<Rightarrow> parsed_query \<Rightarrow> compiled_query \<Rightarrow> u8 list \<Rightarrow> u8 list \<Rightarrow> budget \<Rightarrow> (bool \<times> budget) option" where
  "name_predicates L U q cq raw folded b =
    (let hay = (if q_match_case q then raw else folded) in
     if \<not> list_all (\<lambda>f. sl_find L hay f \<noteq> None) (cq_name_finders cq) then Some (False, b)
     else do {
       (r, b) \<leftarrow> (if q_wildcards q = [] then Some (True, b) else wildcards_match (q_wildcards q) hay b);
       Some (r \<and> ext_matches U (q_filters q) raw, b)
     })"

definition name_matches ::
  "search_lib \<Rightarrow> unicode \<Rightarrow> volume \<Rightarrow> parsed_query \<Rightarrow> compiled_query \<Rightarrow> name_id \<Rightarrow> budget \<Rightarrow> (bool \<times> budget) option" where
  "name_matches L U V q cq i b =
    do {
      raw \<leftarrow> raw_bytes (v_names V) i;
      folded \<leftarrow> folded_bytes_of (v_names V) i;
      name_predicates L U q cq raw folded b
    }"

section \<open>Path terms in a folder\<close>

datatype need = NeedNothing | NeedStart nat | NeedWithin | NeedNever | NeedWhole

definition CACHED_PATH_MAX :: nat where "CACHED_PATH_MAX = 1024"

definition decide_need :: "search_lib \<Rightarrow> u8 list \<Rightarrow> u8 list \<Rightarrow> need" where
  "decide_need L before trm =
    (if sl_find L before trm \<noteq> None then NeedNothing
     else if \<not> (before \<noteq> [] \<and> last before = 0x5C) then NeedWhole
     else (case sl_rchr L 0x5C trm of
         Some l \<Rightarrow> if suffix (take (l + 1) trm) before then NeedStart (l + 1) else NeedNever
       | None \<Rightarrow> NeedWithin))"

text \<open>The needs of the terms; a spent budget leaves a long path's terms unmet.\<close>

fun decide_needs :: "search_lib \<Rightarrow> u8 list \<Rightarrow> u8 list list \<Rightarrow> budget \<Rightarrow> need list \<times> budget" where
  "decide_needs L before [] b = ([], b)"
| "decide_needs L before (t # ts) b =
    (let (stop, b) = (if CACHED_PATH_MAX < length before then budget_check b else (False, b));
         (needs, b) = decide_needs L before ts b
     in ((if stop then NeedNever else decide_need L before t) # needs, b))"

definition need_held :: "search_lib \<Rightarrow> need \<Rightarrow> u8 list \<Rightarrow> u8 list \<Rightarrow> bool" where
  "need_held L need trm name =
    (case need of
       NeedNothing \<Rightarrow> True
     | NeedStart from \<Rightarrow> prefix (drop from trm) name
     | NeedWithin \<Rightarrow> sl_find L name trm \<noteq> None
     | NeedNever \<Rightarrow> False
     | NeedWhole \<Rightarrow> True)"

section \<open>A mount prefix admits every term it can hold\<close>

lemma chr_props:
  assumes "finds_bytes L"
  shows "sl_chr L c hay = Some i \<Longrightarrow> i < length hay \<and> hay ! i = c \<and> c \<notin> set (take i hay)"
    "sl_chr L c hay = None \<Longrightarrow> c \<notin> set hay"
    "sl_rchr L c hay = Some i \<Longrightarrow> i < length hay \<and> hay ! i = c \<and> c \<notin> set (drop (i + 1) hay)"
    "sl_rchr L c hay = None \<Longrightarrow> c \<notin> set hay"
  using assms[unfolded finds_bytes_def, THEN conjunct1, rule_format, of c hay]
    assms[unfolded finds_bytes_def, THEN conjunct2, rule_format, of c hay] by simp_all

text \<open>With one colon in the prefix and none after it, the place of the colon is forced.\<close>

lemma one_place:
  assumes "length (filter (\<lambda>x. x = c) xs) \<le> 1" "i < length xs" "j < length xs" "xs ! i = c" "xs ! j = c"
  shows "i = j"
  using assms
proof (induction i j rule: linorder_wlog)
  case (le i j)
  show ?case
  proof (rule ccontr)
    assume "i \<noteq> j"
    then have s: "xs = take j xs @ drop j xs" "i < j" using le by simp_all
    have "c \<in> set (filter (\<lambda>x. x = c) (take j xs))" using le s(2) by (auto simp: in_set_conv_nth)
    moreover have "c \<in> set (filter (\<lambda>x. x = c) (drop j xs))"
      using le by (auto simp: in_set_conv_nth intro!: exI[of _ 0])
    ultimately have "1 \<le> length (filter (\<lambda>x. x = c) (take j xs))" "1 \<le> length (filter (\<lambda>x. x = c) (drop j xs))"
      by (metis One_nat_def Suc_leI length_pos_if_in_set)+
    moreover have "length (filter (\<lambda>x. x = c) xs) = length (filter (\<lambda>x. x = c) (take j xs)) + length (filter (\<lambda>x. x = c) (drop j xs))"
      by (metis append_take_drop_id filter_append length_append)
    ultimately show False using le by simp
  qed
qed simp

lemma nth_in_left:
  assumes "(x @ y) ! i = c" "i < length (x @ y)" "c \<notin> set y"
  shows "i < length x \<and> x ! i = c"
proof (rule ccontr)
  assume "\<not> ?thesis"
  then have "\<not> i < length x" using assms(1) by (auto simp: nth_append)
  then have "y ! (i - length x) = c" "i - length x < length y" using assms(1,2) by (auto simp: nth_append)
  then show False using assms(3) nth_mem by blast
qed

lemma term_admits_holds:
  assumes L: "finds_bytes L" and m: "length (filter (\<lambda>b. b = 0x3A) mount) \<le> 1" and r: "0x3A \<notin> set rest"
    and s: "sublist trm (mount @ rest)"
  shows "term_admits L trm mount"
proof (cases "sl_chr L 0x3A trm")
  case (Some k)
  obtain a b where ab: "mount @ rest = a @ trm @ b" using s by (auto simp: sublist_def)
  have k: "k < length trm" "trm ! k = 0x3A" using chr_props(1)[OF L Some] by simp_all
  have "(mount @ rest) ! (length a + k) = 0x3A" using k by (simp add: ab nth_append)
  moreover have "length a + k < length (mount @ rest)" using k by (simp add: ab)
  ultimately have p: "length a + k < length mount" "mount ! (length a + k) = 0x3A"
    using nth_in_left[OF _ _ r] by auto
  then obtain c where c: "sl_chr L 0x3A mount = Some c"
    using chr_props(2)[OF L, of "0x3A" mount] by (cases "sl_chr L 0x3A mount") (auto simp: in_set_conv_nth)
  then have "c = length a + k" using one_place[OF m _ p(1) _ p(2)] chr_props(1)[OF L c] by auto
  moreover have "take n trm = take n (drop (length a) mount)" if "n = min (length mount - length a) (length trm)" for n
  proof -
    have "drop (length a) (mount @ rest) = trm @ b" by (simp add: ab)
    then have "take n (drop (length a) mount @ rest) = take n (trm @ b)" using p(1) by (simp add: drop_append)
    then show ?thesis using that by simp
  qed
  ultimately show ?thesis using Some c by (simp add: term_admits_def Let_def)
qed (simp add: term_admits_def)

section \<open>What a path term needs of a name is exact\<close>

lemma suffix_last: "suffix xs ys \<Longrightarrow> xs \<noteq> [] \<Longrightarrow> last xs = last ys"
  by (auto simp: suffix_def)

lemma sublist_append_cases:
  assumes "sublist t (x @ y)"
  obtains "sublist t x" | "sublist t y" | u v where "t = u @ v" "u \<noteq> []" "v \<noteq> []" "suffix u x" "prefix v y"
  using assms unfolding sublist_append by (metis append_Nil append_Nil2 prefix_imp_sublist suffix_imp_sublist)

lemma decide_need_exact:
  assumes L: "finds_first L" "finds_bytes L" and before: "before \<noteq> []" "last before = 0x5C" and name: "0x5C \<notin> set name"
  shows "need_held L (decide_need L before trm) trm name \<longleftrightarrow> sublist trm (before @ name)"
proof (cases "sublist trm before")
  case True
  then show ?thesis using find_sublist[OF L(1)] by (simp add: decide_need_def need_held_def sublist_append)
next
  case False
  then have d: "decide_need L before trm = (case sl_rchr L 0x5C trm of
      Some l \<Rightarrow> if suffix (take (l + 1) trm) before then NeedStart (l + 1) else NeedNever | None \<Rightarrow> NeedWithin)"
    using find_sublist[OF L(1)] before by (simp add: decide_need_def)
  show ?thesis
  proof (cases "sl_rchr L 0x5C trm")
    case None
    then have "0x5C \<notin> set trm" by (rule chr_props(4)[OF L(2)])
    then have "\<not> (trm = u @ v \<and> u \<noteq> [] \<and> suffix u before)" for u v
      using suffix_last[of u before] before by (metis Un_iff last_in_set set_append)
    then have "sublist trm (before @ name) \<longleftrightarrow> sublist trm name"
      using False by (metis sublist_append sublist_append_cases)
    then show ?thesis using d None find_sublist[OF L(1)] by (simp add: need_held_def)
  next
    case (Some l)
    note l = chr_props(3)[OF L(2) Some]
    have split: "u = take (l + 1) trm \<and> v = drop (l + 1) trm"
      if "trm = u @ v" "u \<noteq> []" "suffix u before" "prefix v name" for u v
    proof -
      have "0x5C \<notin> set v" using that(4) name by (auto dest: set_mono_prefix)
      then have "l < length u" using l that(1) nth_in_left[of u v l "0x5C"] by simp
      moreover have "length u \<le> l + 1"
      proof (rule ccontr)
        assume "\<not> length u \<le> l + 1"
        then have "drop (l + 1) u \<noteq> []" "last (drop (l + 1) u) = last u" by simp_all
        then have "last u \<in> set (drop (l + 1) u)" by (metis last_in_set)
        then have "last u \<in> set (drop (l + 1) trm)" using that(1) by simp
        then show False using l suffix_last[OF that(3,2)] before(2) by simp
      qed
      ultimately have "length u = l + 1" by simp
      then show ?thesis using that(1) by simp
    qed
    have "\<not> sublist trm name" using l name by (metis nth_mem set_mono_sublist subsetD)
    then have "suffix (take (l + 1) trm) before \<and> prefix (drop (l + 1) trm) name" if "sublist trm (before @ name)"
      using sublist_append_cases[OF that] False split by metis
    moreover have "sublist trm (before @ name)" if "suffix (take (l + 1) trm) before" "prefix (drop (l + 1) trm) name"
      using that by (metis append_take_drop_id sublist_append)
    ultimately have "sublist trm (before @ name) \<longleftrightarrow> suffix (take (l + 1) trm) before \<and> prefix (drop (l + 1) trm) name" by blast
    then show ?thesis using d Some by (simp add: need_held_def)
  qed
qed

section \<open>Parsed queries hold compiled wildcards\<close>

definition compiled_wildcards :: "parsed_query \<Rightarrow> bool" where
  "compiled_wildcards q \<longleftrightarrow> (\<forall>w \<in> set (q_wildcards q) \<union> set (q_path_wildcards q). \<exists>p. w = wildcard_compile p)"

lemma push_text_term_wildcards: "compiled_wildcards q \<Longrightarrow> compiled_wildcards (push_text_term f txt quoted as_path q)"
  by (auto simp: compiled_wildcards_def push_text_term_def Let_def)

lemma update_filters_wildcards [simp]: "compiled_wildcards (update_filters f q) \<longleftrightarrow> compiled_wildcards q"
  by (simp add: compiled_wildcards_def update_filters_def)

lemma and_then_Inr: "and_then x f = Inr y \<longleftrightarrow> (\<exists>v. x = Inr v \<and> f v = Inr y)"
  by (cases x) auto

lemma parse_token_wildcards:
  "parse_token U clock f mp tok q = Inr q' \<Longrightarrow> compiled_wildcards q \<Longrightarrow> compiled_wildcards q'"
  by (auto simp: parse_token_def Let_def and_then_Inr push_text_term_wildcards split: option.splits if_splits)

lemma parse_tokens_wildcards:
  "parse_tokens U clock f mp toks q = Inr q' \<Longrightarrow> compiled_wildcards q \<Longrightarrow> compiled_wildcards q'"
  by (induction toks arbitrary: q) (auto simp: and_then_Inr dest: parse_token_wildcards)

lemma parse_wildcards:
  assumes "parse U input match_case clock = Inr q"
  shows "compiled_wildcards q"
proof -
  have "compiled_wildcards (empty_query mc)" for mc by (simp add: compiled_wildcards_def empty_query_def)
  then show ?thesis using assms
    by (auto simp: parse_def Let_def and_then_Inr dest: parse_tokens_wildcards split: if_splits)
qed

section \<open>The literal of the scan\<close>

lemma consider_literal_fold:
  "fold consider_literal cs (best, from) = (Some l, r) \<Longrightarrow> (l, r) \<in> set cs \<or> best = Some l \<and> from = r"
proof (induction cs arbitrary: best "from")
  case (Cons c cs)
  obtain best' from' where s: "consider_literal c (best, from) = (best', from')" by (cases "consider_literal c (best, from)")
  have "(l, r) \<in> set cs \<or> best' = Some l \<and> from' = r" using Cons s by simp
  then show ?case using s by (cases c) (auto simp: consider_literal_def split: if_splits)
qed simp

lemma wildcards_all_globs:
  assumes "wildcards_all ws cps b = Some (True, b')" "\<forall>w \<in> set ws. \<exists>p. w = wildcard_compile p" "w \<in> set ws"
  shows "globs (wc_tokens w) cps"
  using assms
proof (induction ws arbitrary: b)
  case (Cons v vs)
  obtain p where p: "v = wildcard_compile p" using Cons.prems(2) by auto
  obtain r b1 where m: "matches_decoded v cps b = Some (r, b1)" "r \<longrightarrow> globs (wc_tokens v) cps"
    using matches_decoded_globs[of p cps b] unfolding p globs_compile by blast
  then have "r" "wildcards_all vs cps b1 = Some (True, b')" using Cons.prems(1) by (auto split: if_splits)
  then show ?case using Cons m(2) by auto
qed simp

lemma after_last_Some:
  assumes "after_last c bs = Some e"
  obtains a where "bs = a @ c # e"
proof -
  have e: "e = rev (takeWhile (\<lambda>b. b \<noteq> c) (rev bs))" "c \<in> set (rev bs)" using assms by (auto simp: after_last_def split: if_splits)
  have "dropWhile (\<lambda>b. b \<noteq> c) (rev bs) \<noteq> []" using e(2) by (simp add: dropWhile_eq_Nil_conv)
  then obtain d where d: "dropWhile (\<lambda>b. b \<noteq> c) (rev bs) = c # d"
    using hd_dropWhile[of "\<lambda>b. b \<noteq> c" "rev bs"] by (cases "dropWhile (\<lambda>b. b \<noteq> c) (rev bs)") auto
  have "rev bs = rev e @ c # d" using takeWhile_dropWhile_id[of "\<lambda>b. b \<noteq> c" "rev bs"] e(1) d by simp
  then have "bs = rev d @ c # e" using rev_swap[of bs "rev e @ c # d"] by simp
  then show thesis by (rule that)
qed

text \<open>A name's bytes as the decoder reads them back; names made from code units are.\<close>

definition wtf8_ok :: "u8 list \<Rightarrow> bool" where
  "wtf8_ok bs \<longleftrightarrow> encode_all (code_points bs) = bs"

lemma literal_in_name:
  assumes L: "finds_first L" and U: "separates U 0x2E" and q: "compiled_wildcards q" "\<not> q_match_case q"
    and name: "folded = fold_name U raw" "wtf8_ok folded"
    and m: "name_predicates L U q cq raw folded b = Some (True, b')" "cq_name_finders cq = q_name_terms q"
    and l: "(l, r) \<in> set (query_literals q)"
  shows "sublist l folded"
proof -
  have terms: "\<forall>t \<in> set (q_name_terms q). sublist t folded" and ext: "ext_matches U (q_filters q) raw"
    and wild: "q_wildcards q \<noteq> [] \<Longrightarrow> wildcards_match (q_wildcards q) folded b = Some (True, b')"
    using m q(2) find_sublist[OF L, of folded]
    by (auto simp: name_predicates_def Let_def list_all_iff split: if_splits Option.bind_splits)
  consider "l \<in> set (q_name_terms q)" | w where "w \<in> set (q_wildcards q)" "longest_literal w = Some l"
    | "l \<in> set (ext_literal (q_filters q))"
    using l by (auto simp: query_literals_def map_filter_def)
  then show ?thesis
  proof cases
    case 1
    then show ?thesis using terms by blast
  next
    case (2 w)
    then have "q_wildcards q \<noteq> []" by auto
    then have "wildcards_all (q_wildcards q) (code_points folded) b = Some (True, b')"
      using wild by (simp add: wildcards_match_def)
    then have "globs (wc_tokens w) (code_points folded)" using q(1) 2(1) by (intro wildcards_all_globs) (auto simp: compiled_wildcards_def)
    then have "\<exists>a c. encode_all (code_points folded) = a @ l @ c" using literals_in_text 2(2) by blast
    then show ?thesis using name(2) by (auto simp: wtf8_ok_def sublist_def)
  next
    case 3
    then have "\<exists>e. fl_ext (q_filters q) = Some [e] \<and> l = 0x2E # e"
      by (cases "fl_ext (q_filters q)") (auto simp: ext_literal_def split: list.splits if_splits)
    then obtain e where e: "fl_ext (q_filters q) = Some [e]" "l = 0x2E # e" by blast
    then obtain x where "after_last 0x2E raw = Some x" "fold_name U x = e"
      using ext by (auto simp: ext_matches_def split: option.splits)
    then obtain a where "raw = a @ 0x2E # x" by (blast elim: after_last_Some)
    then have "folded = fold_name U a @ l @ []" using fold_name_split[OF U] name(1) e(2) \<open>fold_name U x = e\<close> by simp
    then show ?thesis unfolding sublist_def by blast
  qed
qed

section \<open>A search library\<close>

text \<open>Byte searches by trying every place, which satisfy what the crate documents.\<close>

definition plain_lib :: search_lib where
  "plain_lib =
    \<lparr>sl_find = (\<lambda>hay needle. find (found_at hay needle) [0..<Suc (length hay)]),
     sl_chr = (\<lambda>c hay. if c \<in> set hay then Some (length (takeWhile (\<lambda>b. b \<noteq> c) hay)) else None),
     sl_rchr = (\<lambda>c hay. map_option (\<lambda>e. length hay - Suc (length e)) (after_last c hay))\<rparr>"

lemma plain_lib_first: "finds_first plain_lib"
proof -
  have "i < Suc (length hay)" if "found_at hay needle i" for hay needle i using that by (simp add: found_at_def)
  then show ?thesis unfolding finds_first_def
    by (auto simp: plain_lib_def find_None_iff find_Some_iff simp del: upt_Suc split: option.splits)
qed

lemma takeWhile_split:
  assumes "c \<in> set hay"
  obtains a e where "hay = a @ c # e" "takeWhile (\<lambda>b. b \<noteq> c) hay = a" "c \<notin> set a"
  using split_list_first[OF assms] that by (auto simp: takeWhile_tail)

lemma plain_lib_bytes: "finds_bytes plain_lib"
proof -
  have first: "let i = length (takeWhile (\<lambda>b. b \<noteq> c) hay) in i < length hay \<and> hay ! i = c \<and> c \<notin> set (take i hay)"
    if "c \<in> set hay" for c hay
    by (rule takeWhile_split[OF that]) (simp add: Let_def)
  have final: "let i = length hay - Suc (length e) in i < length hay \<and> hay ! i = c \<and> c \<notin> set (drop (i + 1) hay)"
    if e: "after_last c hay = Some e" for c hay e
  proof -
    obtain a where "hay = a @ c # e" using after_last_Some[OF e] by blast
    moreover have "c \<notin> set e" using e by (auto simp: after_last_def split: if_splits dest: set_takeWhileD)
    ultimately show ?thesis by (simp add: Let_def)
  qed
  have none: "after_last c hay = None \<longleftrightarrow> c \<notin> set hay" for c hay by (simp add: after_last_def)
  show ?thesis unfolding finds_bytes_def
  proof (intro conjI allI)
    show "case sl_chr plain_lib c hay of None \<Rightarrow> c \<notin> set hay | Some i \<Rightarrow> i < length hay \<and> hay ! i = c \<and> c \<notin> set (take i hay)" for c hay
      using first[of c hay] by (cases "c \<in> set hay") (simp_all add: plain_lib_def Let_def)
    show "case sl_rchr plain_lib c hay of None \<Rightarrow> c \<notin> set hay | Some i \<Rightarrow> i < length hay \<and> hay ! i = c \<and> c \<notin> set (drop (i + 1) hay)" for c hay
      using final[of c hay] none[of c hay] by (cases "after_last c hay") (simp_all add: plain_lib_def Let_def)
  qed
qed

section \<open>Properties\<close>

text \<open>
  C39. The path test of a folder is exact. In a folder whose part of the path ends with a separator, what the engine
  decides once per folder that a path term needs of a name, the term already held, a start, a part of the name or
  nothing that helps, holds of a name without a separator exactly when the term occurs in the whole path. And a
  mount prefix with one colon refuses no term that occurs in a path below it.
\<close>

theorem path_terms_exact:
  assumes "finds_first L" "finds_bytes L"
  shows "(before \<noteq> [] \<and> last before = 0x5C \<and> 0x5C \<notin> set name \<longrightarrow>
      need_held L (decide_need L before trm) trm name = sublist trm (before @ name)) \<and>
    (length (filter (\<lambda>b. b = 0x3A) mount) \<le> 1 \<and> 0x3A \<notin> set rest \<and> sublist trm (mount @ rest) \<longrightarrow> term_admits L trm mount)"
  using decide_need_exact[OF assms] term_admits_holds[OF assms(2)] by blast

theorem path_terms_exact_witness:
  "need_held plain_lib (decide_need plain_lib [0x61, 0x5C] [0x61, 0x5C, 0x62]) [0x61, 0x5C, 0x62] [0x62, 0x63] \<and>
   term_admits plain_lib [0x3A, 0x5C, 0x61] [0x43, 0x3A, 0x5C]"
proof -
  have "[0x61, 0x5C] @ [0x62, 0x63] = [] @ [0x61, 0x5C, 0x62] @ [0x63 :: u8]" by simp
  then have "sublist [0x61, 0x5C, 0x62] ([0x61, 0x5C] @ [0x62, 0x63 :: u8])" unfolding sublist_def by blast
  moreover have "[0x43, 0x3A, 0x5C] @ [0x61] = [0x43] @ [0x3A, 0x5C, 0x61] @ ([] :: u8 list)" by simp
  then have "sublist [0x3A, 0x5C, 0x61] ([0x43, 0x3A, 0x5C] @ [0x61 :: u8])" unfolding sublist_def by blast
  ultimately show ?thesis
    using path_terms_exact[OF plain_lib_first plain_lib_bytes, of "[0x61, 0x5C]" "[0x62, 0x63]" "[0x61, 0x5C, 0x62]" "[]" "[]"]
      path_terms_exact[OF plain_lib_first plain_lib_bytes, of "[]" "[]" "[0x3A, 0x5C, 0x61]" "[0x43, 0x3A, 0x5C]" "[0x61]"]
    by simp
qed

text \<open>
  C40. The literal that drives a scan loses no match: for a query that parses and ignores case, every name that passes
  the terms, the wildcards and the extension of the query holds that literal in its folded bytes; and when the literal
  decides the name, every name that holds it passes.
\<close>

theorem prefilter_exact:
  assumes "finds_first L" "separates U 0x2E" "parse U input match_case clock = Inr q" "\<not> q_match_case q"
    and "folded = fold_name U raw" "wtf8_ok folded" "cq_prefilter (compile_query L U q mount) = Some l"
  shows "(name_predicates L U q (compile_query L U q mount) raw folded b = Some (True, b') \<longrightarrow> sublist l folded) \<and>
    (cq_prefilter_decides_name (compile_query L U q mount) \<and> sublist l folded \<longrightarrow>
      name_predicates L U q (compile_query L U q mount) raw folded b = Some (True, b))"
proof -
  let ?cq = "compile_query L U q mount"
  obtain from_name where f: "fold consider_literal (query_literals q) (None, False) = (Some l, from_name)"
    using assms(7) by (cases "fold consider_literal (query_literals q) (None, False)") (auto simp: compile_query_def Let_def)
  then have l: "(l, from_name) \<in> set (query_literals q)" using consider_literal_fold by fastforce
  have names: "cq_name_finders ?cq = q_name_terms q" by (simp add: compile_query_def Let_def f)
  have "name_predicates L U q ?cq raw folded b = Some (True, b)" if d: "cq_prefilter_decides_name ?cq" "sublist l folded"
  proof -
    have t: "from_name" "length (q_name_terms q) = 1" "q_wildcards q = []" "fl_ext (q_filters q) = None"
      using d(1) by (auto simp: compile_query_def Let_def f)
    then have "q_name_terms q = [l]" using l by (auto simp: query_literals_def length_Suc_conv)
    then show ?thesis using t d(2) names find_sublist[OF assms(1), of folded l] assms(4)
      by (simp add: name_predicates_def ext_matches_def)
  qed
  then show ?thesis using literal_in_name[OF assms(1,2) parse_wildcards[OF assms(3)] assms(4-6) _ names l] by blast
qed

theorem prefilter_exact_witness:
  "\<exists>q. parse ascii_unicode (ascii ''ab'') False None = Inr q \<and>
    name_predicates plain_lib ascii_unicode q (compile_query plain_lib ascii_unicode q []) [0x78, 0x61, 0x62] [0x78, 0x61, 0x62] unlimited =
      Some (True, unlimited)"
proof -
  let ?q = "(empty_query False)\<lparr>q_name_terms := [[0x61, 0x62]]\<rparr>" and ?n = "[0x78, 0x61, 0x62] :: u8 list"
  let ?cq = "compile_query plain_lib ascii_unicode ?q []"
  have p: "parse ascii_unicode (ascii ''ab'') False None = Inr ?q"
    by (simp add: parse_def tokenize_def ascii_def is_whitespace_def last_directive_def map_filter_simps parse_token_def push_text_term_def
      fold_term_for_def fold_name_def fold_into_def is_ascii_def encode_all_def encode_code_point_def to_ascii_lowercase_def
      term_count_def MAX_QUERY_TERMS_def empty_query_def Let_def)
  have c: "cq_prefilter ?cq = Some [0x61, 0x62]" "cq_prefilter_decides_name ?cq"
    by (simp_all add: compile_query_def query_literals_def ext_literal_def consider_literal_def empty_query_def map_filter_simps Let_def)
  have f: "?n = fold_name ascii_unicode ?n" by (simp add: fold_name_def fold_into_def is_ascii_def to_ascii_lowercase_def)
  have w: "wtf8_ok ?n" using code_points_ascii[of ?n] by (simp add: wtf8_ok_def is_ascii_def encode_all_def encode_code_point_def)
  have "?n = [0x78] @ [0x61, 0x62] @ []" by simp
  then have s: "sublist [0x61, 0x62] ?n" unfolding sublist_def by blast
  have "name_predicates plain_lib ascii_unicode ?q ?cq ?n ?n unlimited = Some (True, unlimited)"
    using prefilter_exact[OF plain_lib_first ascii_unicode_separates p _ f w c(1), of unlimited unlimited] c(2) s
    by (simp add: empty_query_def)
  then show ?thesis using p by blast
qed

end
