(* ===== verification/Spec2Isabelle.thy ===== *)
theory Spec2Isabelle
  imports Proto Usn_Ops Layout Frn_Map Entry_Table Chains Name_Compact Engine_Match
begin

text \<open>
  Goz answers searches over the file names of NTFS volumes. A daemon keeps one index per volume in memory, fills it from
  the file system's own tables, follows the change journal, and answers queries that a command line client sends over a
  pipe. This development models the library \<open>goz-core\<close> that does the work, and states what makes it correct. File names
  below are under \<open>src/crates/goz-core/src\<close>.

  \<^bold>\<open>Conventions.\<close> A \<open>u8\<close>, \<open>u16\<close>, \<open>u32\<close> or \<open>u64\<close> that is computed with is a word of that width; an index or a counter is a
  natural number with the wrap-around of a cast written out; an \<open>i64\<close> is an integer with its bounds. A function that can
  panic, or a loop that may not end, returns an option, and None is the panic or the endless run, so a theorem that a
  result is Some says there is neither. A \<open>Result\<close> is a sum. Code from other crates is a parameter with what it documents
  as a hypothesis: the Unicode tables (\<open>unicode\<close>, \<open>ascii_tables\<close>, \<open>separates\<close>), the hash function, serde's JSON, the byte
  searches of memchr (\<open>search_lib\<close>, \<open>finds_first\<close>, \<open>finds_bytes\<close>), the clock and time zone (\<open>local_clock\<close>, \<open>zone_total\<close>,
  \<open>midnights_split\<close>), the clock a budget reads. Selection in the standard library is a parameter as well (\<open>selects\<close>), as it may
  leave rows in any order.

  \<^bold>\<open>Names.\<close> \<open>Wtf8\<close> (\<open>wtf8.rs\<close>) encodes and decodes names of arbitrary 16-bit code units: conversion and back loses nothing.
  \<open>Fold\<close> (\<open>fold.rs\<close>) folds case; \<open>Fold_Split\<close> shows that decoding and folding go part by part around a separator.

  \<^bold>\<open>Wire formats.\<close> \<open>Bytes\<close>, \<open>Frame\<close>, \<open>Results\<close> and \<open>Proto\<close> (\<open>proto/frame.rs\<close>, \<open>proto/binary.rs\<close>, \<open>proto/types.rs\<close>) model frames,
  results pages and messages: however the bytes are cut, the receiver gets what was sent.

  \<^bold>\<open>What the file system returns.\<close> \<open>Usn_Record\<close> and \<open>Layout\<close> (\<open>usn/record.rs\<close>, \<open>layout/parse.rs\<close>) walk its buffers: no bytes make a
  walk panic or run forever. \<open>Usn_Ops\<close> (\<open>usn/ops.rs\<close>, \<open>usn/cursor.rs\<close>) turns reasons into index operations.

  \<^bold>\<open>The index.\<close> \<open>Name_Store\<close> models the interned names of \<open>index/store.rs\<close>, with \<open>Name_Inv\<close> (a multiset of names), \<open>Name_Order\<close> (sort
  keys) and \<open>Name_Compact\<close>; \<open>Frn_Map\<close> and \<open>Entry_Table\<close> model its record map and its columns. \<open>Volume\<close> is \<open>VolumeIndex\<close> of
  \<open>index/volume.rs\<close>, one definition per method. \<open>Chains\<close> is the theory of the linked chains in its columns. \<open>Volume_Inv\<close>,
  \<open>Volume_Ent\<close>, \<open>Volume_Link\<close>, \<open>Volume_Upsert\<close>, \<open>Volume_Chain\<close>, \<open>Volume_Ops\<close> and \<open>Volume_Batch\<close> show that each operation ends, keeps
  the invariant \<open>vol_ok\<close> and changes the map \<open>ents\<close> of entries as it should; \<open>Volume_Read\<close> does this for iterators, lookups and
  paths. \<open>Volume_Reach\<close> states it of every index that the operations can grow from an empty one. Operations are shown to
  succeed within the room of the 32-bit tables (\<open>vroom\<close>, \<open>call_room\<close>).

  \<^bold>\<open>Queries.\<close> \<open>Ustr\<close> models the string operations the language uses. \<open>Query_Parse\<close> and \<open>Glob\<close> (\<open>query/parse.rs\<close>) model tokens,
  functions, sizes and wildcards; \<open>Dates\<close> (\<open>query/dates.rs\<close>) dates, over the calendar of \<open>Filetime\<close> (\<open>output/filetime.rs\<close>); \<open>Budget\<close>
  (\<open>query/budget.rs\<close>) how a search learns its time is up. Written text means what it says: quoted text is literal, a
  size compares as written, a date names its local days. \<open>Engine_Match\<close> and \<open>Engine_Page\<close> (\<open>query/engine.rs\<close>) model what a query
  tests of a name and of a path, and the order of a page: the shortcuts, the scan literal, the needs of a path term
  and the bounded buffers, lose nothing against the plain definitions.

  \<^bold>\<open>Bounds.\<close> Loops along chains and the wildcard match are partial functions of the option monad and are shown to return. The
  two bounds of the code, 4096 parents of a path and 256 items between two checks of a budget, are those of the source.

  \<^bold>\<open>Not modelled.\<close> Of the engine, the choice between scan strategies (\<open>scan_with\<close>, \<open>walk_below_names\<close>, \<open>match_names\<close>), the cache of
  folder paths, scopes and the name-level page are left out: they compose the modelled parts, but with
  memo tables, thread pools and budgets that need an account of their own. So is \<open>query/folder_rank.rs\<close>, which only they use.
  The daemon, its server, supervisor and journal tail, and the Windows calls of \<open>goz-winfs\<close> are input and output, threads
  and locks around the library. The es-compatible command line, the help texts and the output writers render text and keep no
  state. Memory accounting, capacity trimming and vector growth change no result. The rendering of errors and of
  a FILETIME as text is left out. Unchecked arithmetic in \<open>query/dates.rs\<close> wraps, as in the release profile.
\<close>

end
